theory Spec2Isabelle
  imports Main "HOL-Library.Monad_Syntax"
begin

section \<open>Memory model\<close>

text \<open>
  The trees of the repository are graphs of heap nodes linked by raw pointers.  A pointer is
  an address (a natural number, \<open>0\<close> is \<open>nullptr\<close>); the heap maps every live address to
  the node stored there.  Every operation runs in the option monad: \<open>None\<close> means that the
  C++ function does not return normally (it dereferences a pointer that is null or dangling,
  or a loop never ends).  The per-node \<open>std::shared_mutex\<close> and the global writers mutex
  are modelled by the sequence of lock operations the executing thread performs, which
  is recorded in the field \<open>trace\<close>.
\<close>

datatype color = RED | BLACK

type_synonym addr = nat

record ('k, 'v) node =
  key :: 'k
  val :: 'v
  color :: color
  parent :: addr
  left :: addr
  right :: addr

datatype lock_event =
    LockShared addr
  | UnlockShared addr
  | LockUnique addr
  | UnlockUnique addr
  | LockWriters
  | UnlockWriters
  | LockGlobalShared
  | UnlockGlobalShared
  | LockGlobalUnique
  | UnlockGlobalUnique

record ('k, 'v) rbtree =
  mem :: "addr \<Rightarrow> ('k, 'v) node option"
  root :: addr
  NIL :: addr
  brk :: addr
  trace :: "lock_event list"

definition key_of :: "('k, 'v) rbtree \<Rightarrow> addr \<Rightarrow> 'k option" where
  "key_of s p = map_option key (mem s p)"

definition val_of :: "('k, 'v) rbtree \<Rightarrow> addr \<Rightarrow> 'v option" where
  "val_of s p = map_option val (mem s p)"

definition color_of :: "('k, 'v) rbtree \<Rightarrow> addr \<Rightarrow> color option" where
  "color_of s p = map_option color (mem s p)"

definition parent_of :: "('k, 'v) rbtree \<Rightarrow> addr \<Rightarrow> addr option" where
  "parent_of s p = map_option parent (mem s p)"

definition left_of :: "('k, 'v) rbtree \<Rightarrow> addr \<Rightarrow> addr option" where
  "left_of s p = map_option left (mem s p)"

definition right_of :: "('k, 'v) rbtree \<Rightarrow> addr \<Rightarrow> addr option" where
  "right_of s p = map_option right (mem s p)"

definition set_val :: "('k, 'v) rbtree \<Rightarrow> addr \<Rightarrow> 'v \<Rightarrow> ('k, 'v) rbtree option" where
  "set_val s p v =
     (case mem s p of None \<Rightarrow> None
      | Some n \<Rightarrow> Some (s\<lparr>mem := (mem s)(p \<mapsto> n\<lparr>val := v\<rparr>)\<rparr>))"

definition set_color :: "('k, 'v) rbtree \<Rightarrow> addr \<Rightarrow> color \<Rightarrow> ('k, 'v) rbtree option" where
  "set_color s p c =
     (case mem s p of None \<Rightarrow> None
      | Some n \<Rightarrow> Some (s\<lparr>mem := (mem s)(p \<mapsto> n\<lparr>color := c\<rparr>)\<rparr>))"

definition set_parent :: "('k, 'v) rbtree \<Rightarrow> addr \<Rightarrow> addr \<Rightarrow> ('k, 'v) rbtree option" where
  "set_parent s p q =
     (case mem s p of None \<Rightarrow> None
      | Some n \<Rightarrow> Some (s\<lparr>mem := (mem s)(p \<mapsto> n\<lparr>parent := q\<rparr>)\<rparr>))"

definition set_left :: "('k, 'v) rbtree \<Rightarrow> addr \<Rightarrow> addr \<Rightarrow> ('k, 'v) rbtree option" where
  "set_left s p q =
     (case mem s p of None \<Rightarrow> None
      | Some n \<Rightarrow> Some (s\<lparr>mem := (mem s)(p \<mapsto> n\<lparr>left := q\<rparr>)\<rparr>))"

definition set_right :: "('k, 'v) rbtree \<Rightarrow> addr \<Rightarrow> addr \<Rightarrow> ('k, 'v) rbtree option" where
  "set_right s p q =
     (case mem s p of None \<Rightarrow> None
      | Some n \<Rightarrow> Some (s\<lparr>mem := (mem s)(p \<mapsto> n\<lparr>right := q\<rparr>)\<rparr>))"

text \<open>\<open>new NodeT(k, v, c)\<close>: a fresh address, the three links null.\<close>

definition new_node ::
  "('k, 'v) rbtree \<Rightarrow> 'k \<Rightarrow> 'v \<Rightarrow> color \<Rightarrow> addr \<times> ('k, 'v) rbtree" where
  "new_node s k v c =
     (brk s,
      s\<lparr>mem := (mem s)(brk s \<mapsto>
            \<lparr>key = k, val = v, color = c, parent = 0, left = 0, right = 0\<rparr>),
        brk := Suc (brk s)\<rparr>)"

text \<open>\<open>delete z\<close>: the address is dead afterwards.\<close>

definition delete_node :: "('k, 'v) rbtree \<Rightarrow> addr \<Rightarrow> ('k, 'v) rbtree option" where
  "delete_node s z =
     (case mem s z of None \<Rightarrow> None
      | Some n \<Rightarrow> Some (s\<lparr>mem := (mem s)(z := None)\<rparr>))"

subsection \<open>Lock operations\<close>

definition log_event :: "('k, 'v) rbtree \<Rightarrow> lock_event \<Rightarrow> ('k, 'v) rbtree" where
  "log_event s e = s\<lparr>trace := trace s @ [e]\<rparr>"

definition lock_shared :: "('k, 'v) rbtree \<Rightarrow> addr \<Rightarrow> ('k, 'v) rbtree option" where
  "lock_shared s p =
     (case mem s p of None \<Rightarrow> None | Some n \<Rightarrow> Some (log_event s (LockShared p)))"

definition unlock_shared :: "('k, 'v) rbtree \<Rightarrow> addr \<Rightarrow> ('k, 'v) rbtree option" where
  "unlock_shared s p =
     (case mem s p of None \<Rightarrow> None | Some n \<Rightarrow> Some (log_event s (UnlockShared p)))"

definition lock_unique :: "('k, 'v) rbtree \<Rightarrow> addr \<Rightarrow> ('k, 'v) rbtree option" where
  "lock_unique s p =
     (case mem s p of None \<Rightarrow> None | Some n \<Rightarrow> Some (log_event s (LockUnique p)))"

definition unlock_unique :: "('k, 'v) rbtree \<Rightarrow> addr \<Rightarrow> ('k, 'v) rbtree option" where
  "unlock_unique s p =
     (case mem s p of None \<Rightarrow> None | Some n \<Rightarrow> Some (log_event s (UnlockUnique p)))"

definition lock_writers :: "('k, 'v) rbtree \<Rightarrow> ('k, 'v) rbtree option" where
  "lock_writers s = Some (log_event s LockWriters)"

definition unlock_writers :: "('k, 'v) rbtree \<Rightarrow> ('k, 'v) rbtree option" where
  "unlock_writers s = Some (log_event s UnlockWriters)"

text \<open>
  The tree-wide \<open>global_rw_lock\<close> of race_free_rb_tree.cpp and epoch_based_rb_tree.cpp.
\<close>

definition lock_global_shared :: "('k, 'v) rbtree \<Rightarrow> ('k, 'v) rbtree option" where
  "lock_global_shared s = Some (log_event s LockGlobalShared)"

definition unlock_global_shared :: "('k, 'v) rbtree \<Rightarrow> ('k, 'v) rbtree option" where
  "unlock_global_shared s = Some (log_event s UnlockGlobalShared)"

definition lock_global_unique :: "('k, 'v) rbtree \<Rightarrow> ('k, 'v) rbtree option" where
  "lock_global_unique s = Some (log_event s LockGlobalUnique)"

definition unlock_global_unique :: "('k, 'v) rbtree \<Rightarrow> ('k, 'v) rbtree option" where
  "unlock_global_unique s = Some (log_event s UnlockGlobalUnique)"

text \<open>
  \<open>UpgradeLock\<close> (include/lock_based_rb_tree.hpp): the constructor takes the mutex in shared
  mode; \<open>upgrade()\<close> is \<open>shared.unlock(); unique.lock();\<close>.
\<close>

definition UpgradeLock :: "('k, 'v) rbtree \<Rightarrow> addr \<Rightarrow> ('k, 'v) rbtree option" where
  "UpgradeLock s p = lock_shared s p"

definition upgrade :: "('k, 'v) rbtree \<Rightarrow> addr \<Rightarrow> ('k, 'v) rbtree option" where
  "upgrade s p = do {
     s \<leftarrow> unlock_shared s p;
     lock_unique s p
   }"

section \<open>The lock-coupled tree (include/lock\_based\_rb\_tree.hpp)\<close>

text \<open>The constructor: the sentinel is the first node allocated, the root points to it.\<close>

definition RBTree :: "'k \<Rightarrow> 'v \<Rightarrow> ('k, 'v) rbtree" where
  "RBTree dk dv =
     (let (a, s) = new_node
            \<lparr>mem = Map.empty, root = 0, NIL = 0, brk = 1, trace = []\<rparr> dk dv BLACK
      in s\<lparr>NIL := a, root := a\<rparr>)"

subsection \<open>lookup\<close>

partial_function (option) lookup_loop ::
  "('k::linorder, 'v) rbtree \<Rightarrow> 'k \<Rightarrow> addr \<Rightarrow> ('v option \<times> ('k, 'v) rbtree) option" where
  "lookup_loop s k n =
     (if n \<noteq> NIL s then do {
        nk \<leftarrow> key_of s n;
        if k < nk then do {
          child \<leftarrow> left_of s n;
          s \<leftarrow> lock_shared s child;
          s \<leftarrow> unlock_shared s n;
          lookup_loop s k child
        } else if nk < k then do {
          child \<leftarrow> right_of s n;
          s \<leftarrow> lock_shared s child;
          s \<leftarrow> unlock_shared s n;
          lookup_loop s k child
        } else do {
          v \<leftarrow> val_of s n;
          s \<leftarrow> unlock_shared s n;
          Some (Some v, s)
        }
      } else do {
        s \<leftarrow> unlock_shared s n;
        Some (None, s)
      })"

definition lookup ::
  "('k::linorder, 'v) rbtree \<Rightarrow> 'k \<Rightarrow> ('v option \<times> ('k, 'v) rbtree) option" where
  "lookup s k = do {
     s \<leftarrow> lock_shared s (root s);
     lookup_loop s k (root s)
   }"

subsection \<open>Rotations\<close>

definition left_rotate :: "('k, 'v) rbtree \<Rightarrow> addr \<Rightarrow> ('k, 'v) rbtree option" where
  "left_rotate s x = do {
     y \<leftarrow> right_of s x;
     yl \<leftarrow> left_of s y;
     s \<leftarrow> set_right s x yl;
     yl \<leftarrow> left_of s y;
     s \<leftarrow> (if yl \<noteq> NIL s then set_parent s yl x else Some s);
     xp \<leftarrow> parent_of s x;
     s \<leftarrow> set_parent s y xp;
     xp \<leftarrow> parent_of s x;
     s \<leftarrow> (if xp = NIL s then Some (s\<lparr>root := y\<rparr>)
          else do {
            xpl \<leftarrow> left_of s xp;
            if x = xpl then set_left s xp y else set_right s xp y
          });
     s \<leftarrow> set_left s y x;
     set_parent s x y
   }"

definition right_rotate :: "('k, 'v) rbtree \<Rightarrow> addr \<Rightarrow> ('k, 'v) rbtree option" where
  "right_rotate s y = do {
     x \<leftarrow> left_of s y;
     xr \<leftarrow> right_of s x;
     s \<leftarrow> set_left s y xr;
     xr \<leftarrow> right_of s x;
     s \<leftarrow> (if xr \<noteq> NIL s then set_parent s xr y else Some s);
     yp \<leftarrow> parent_of s y;
     s \<leftarrow> set_parent s x yp;
     yp \<leftarrow> parent_of s y;
     s \<leftarrow> (if yp = NIL s then Some (s\<lparr>root := x\<rparr>)
          else do {
            ypr \<leftarrow> right_of s yp;
            if y = ypr then set_right s yp x else set_left s yp x
          });
     s \<leftarrow> set_right s x y;
     set_parent s y x
   }"

subsection \<open>insert\<close>

definition grandparent_of :: "('k, 'v) rbtree \<Rightarrow> addr \<Rightarrow> addr option" where
  "grandparent_of s z = do { p \<leftarrow> parent_of s z; parent_of s p }"

partial_function (option) insert_fixup ::
  "('k, 'v) rbtree \<Rightarrow> addr \<Rightarrow> ('k, 'v) rbtree option" where
  "insert_fixup s z = do {
     zp \<leftarrow> parent_of s z;
     zpc \<leftarrow> color_of s zp;
     if zpc = RED then do {
       zpp \<leftarrow> grandparent_of s z;
       zppl \<leftarrow> left_of s zpp;
       if zp = zppl then do {
         y \<leftarrow> right_of s zpp;
         yc \<leftarrow> color_of s y;
         if yc = RED then do {
           zp \<leftarrow> parent_of s z;
           s \<leftarrow> set_color s zp BLACK;
           s \<leftarrow> set_color s y BLACK;
           zpp \<leftarrow> grandparent_of s z;
           s \<leftarrow> set_color s zpp RED;
           zpp \<leftarrow> grandparent_of s z;
           insert_fixup s zpp
         } else do {
           zp \<leftarrow> parent_of s z;
           zpr \<leftarrow> right_of s zp;
           (s, z) \<leftarrow> (if z = zpr then do { s \<leftarrow> left_rotate s zp; Some (s, zp) }
                     else Some (s, z));
           zp \<leftarrow> parent_of s z;
           s \<leftarrow> set_color s zp BLACK;
           zpp \<leftarrow> grandparent_of s z;
           s \<leftarrow> set_color s zpp RED;
           zpp \<leftarrow> grandparent_of s z;
           s \<leftarrow> right_rotate s zpp;
           insert_fixup s z
         }
       } else do {
         y \<leftarrow> left_of s zpp;
         yc \<leftarrow> color_of s y;
         if yc = RED then do {
           zp \<leftarrow> parent_of s z;
           s \<leftarrow> set_color s zp BLACK;
           s \<leftarrow> set_color s y BLACK;
           zpp \<leftarrow> grandparent_of s z;
           s \<leftarrow> set_color s zpp RED;
           zpp \<leftarrow> grandparent_of s z;
           insert_fixup s zpp
         } else do {
           zp \<leftarrow> parent_of s z;
           zpl \<leftarrow> left_of s zp;
           (s, z) \<leftarrow> (if z = zpl then do { s \<leftarrow> right_rotate s zp; Some (s, zp) }
                     else Some (s, z));
           zp \<leftarrow> parent_of s z;
           s \<leftarrow> set_color s zp BLACK;
           zpp \<leftarrow> grandparent_of s z;
           s \<leftarrow> set_color s zpp RED;
           zpp \<leftarrow> grandparent_of s z;
           s \<leftarrow> left_rotate s zpp;
           insert_fixup s z
         }
       }
     } else set_color s (root s) BLACK
   }"

text \<open>
  The code after the descent loop of \<open>insert\<close>: \<open>lock_x\<close> guards the mutex of the cursor
  \<open>x\<close> (the node the loop locked last), \<open>y\<close> is the parent the new node \<open>z\<close> is linked to.
  The function ends with the destructors of \<open>lock_x\<close> and \<open>writer_guard\<close>.
\<close>

definition insert_link ::
  "('k::linorder, 'v) rbtree \<Rightarrow> addr \<Rightarrow> addr \<Rightarrow> addr \<Rightarrow> ('k, 'v) rbtree option" where
  "insert_link s z y x = do {
     s \<leftarrow> upgrade s x;
     s \<leftarrow> set_parent s z y;
     s \<leftarrow> (if y = NIL s then Some (s\<lparr>root := z\<rparr>)
          else do {
            zk \<leftarrow> key_of s z;
            yk \<leftarrow> key_of s y;
            if zk < yk then set_left s y z else set_right s y z
          });
     s \<leftarrow> insert_fixup s z;
     s \<leftarrow> unlock_unique s x;
     unlock_writers s
   }"

partial_function (option) insert_loop ::
  "('k::linorder, 'v) rbtree \<Rightarrow> 'k \<Rightarrow> 'v \<Rightarrow> addr \<Rightarrow> addr \<Rightarrow> addr
     \<Rightarrow> ('k, 'v) rbtree option" where
  "insert_loop s k v z y x =
     (if x \<noteq> NIL s then do {
        xk \<leftarrow> key_of s x;
        if k < xk then do {
          next \<leftarrow> left_of s x;
          s \<leftarrow> UpgradeLock s next;
          s \<leftarrow> unlock_shared s x;
          insert_loop s k v z x next
        } else if xk < k then do {
          next \<leftarrow> right_of s x;
          s \<leftarrow> UpgradeLock s next;
          s \<leftarrow> unlock_shared s x;
          insert_loop s k v z x next
        } else do {
          s \<leftarrow> upgrade s x;
          s \<leftarrow> set_val s x v;
          s \<leftarrow> delete_node s z;
          s \<leftarrow> unlock_unique s x;
          unlock_writers s
        }
      } else insert_link s z y x)"

definition insert_rb ::
  "('k::linorder, 'v) rbtree \<Rightarrow> 'k \<Rightarrow> 'v \<Rightarrow> ('k, 'v) rbtree option" where
  "insert_rb s k v = do {
     s \<leftarrow> lock_writers s;
     (z, s) \<leftarrow> Some (new_node s k v RED);
     s \<leftarrow> set_parent s z (NIL s);
     s \<leftarrow> set_right s z (NIL s);
     s \<leftarrow> set_left s z (NIL s);
     s \<leftarrow> UpgradeLock s (root s);
     insert_loop s k v z (NIL s) (root s)
   }"

subsection \<open>erase\<close>

definition transplant :: "('k, 'v) rbtree \<Rightarrow> addr \<Rightarrow> addr \<Rightarrow> ('k, 'v) rbtree option" where
  "transplant s u v = do {
     up \<leftarrow> parent_of s u;
     s \<leftarrow> (if up = NIL s then Some (s\<lparr>root := v\<rparr>)
          else do {
            upl \<leftarrow> left_of s up;
            if u = upl then set_left s up v else set_right s up v
          });
     up \<leftarrow> parent_of s u;
     set_parent s v up
   }"

partial_function (option) minimum :: "('k, 'v) rbtree \<Rightarrow> addr \<Rightarrow> addr option" where
  "minimum s x = do {
     xl \<leftarrow> left_of s x;
     if xl \<noteq> NIL s then minimum s xl else Some x
   }"

partial_function (option) delete_fixup ::
  "('k, 'v) rbtree \<Rightarrow> addr \<Rightarrow> ('k, 'v) rbtree option" where
  "delete_fixup s x = do {
     xc \<leftarrow> (if x \<noteq> root s then color_of s x else Some RED);
     if x \<noteq> root s \<and> xc = BLACK then do {
       xp \<leftarrow> parent_of s x;
       xpl \<leftarrow> left_of s xp;
       if x = xpl then do {
         w \<leftarrow> right_of s xp;
         wc \<leftarrow> color_of s w;
         (s, w) \<leftarrow> (if wc = RED then do {
                       s \<leftarrow> set_color s w BLACK;
                       xp \<leftarrow> parent_of s x;
                       s \<leftarrow> set_color s xp RED;
                       xp \<leftarrow> parent_of s x;
                       s \<leftarrow> left_rotate s xp;
                       xp \<leftarrow> parent_of s x;
                       w \<leftarrow> right_of s xp;
                       Some (s, w)
                     } else Some (s, w));
         wl \<leftarrow> left_of s w;
         wlc \<leftarrow> color_of s wl;
         wrc \<leftarrow> (if wlc = BLACK then do { wr \<leftarrow> right_of s w; color_of s wr }
                 else Some RED);
         if wlc = BLACK \<and> wrc = BLACK then do {
           s \<leftarrow> set_color s w RED;
           xp \<leftarrow> parent_of s x;
           delete_fixup s xp
         } else do {
           wr \<leftarrow> right_of s w;
           wrc \<leftarrow> color_of s wr;
           (s, w) \<leftarrow> (if wrc = BLACK then do {
                         wl \<leftarrow> left_of s w;
                         s \<leftarrow> set_color s wl BLACK;
                         s \<leftarrow> set_color s w RED;
                         s \<leftarrow> right_rotate s w;
                         xp \<leftarrow> parent_of s x;
                         w \<leftarrow> right_of s xp;
                         Some (s, w)
                       } else Some (s, w));
           xp \<leftarrow> parent_of s x;
           xpc \<leftarrow> color_of s xp;
           s \<leftarrow> set_color s w xpc;
           xp \<leftarrow> parent_of s x;
           s \<leftarrow> set_color s xp BLACK;
           wr \<leftarrow> right_of s w;
           s \<leftarrow> set_color s wr BLACK;
           xp \<leftarrow> parent_of s x;
           s \<leftarrow> left_rotate s xp;
           delete_fixup s (root s)
         }
       } else do {
         w \<leftarrow> left_of s xp;
         wc \<leftarrow> color_of s w;
         (s, w) \<leftarrow> (if wc = RED then do {
                       s \<leftarrow> set_color s w BLACK;
                       xp \<leftarrow> parent_of s x;
                       s \<leftarrow> set_color s xp RED;
                       xp \<leftarrow> parent_of s x;
                       s \<leftarrow> right_rotate s xp;
                       xp \<leftarrow> parent_of s x;
                       w \<leftarrow> left_of s xp;
                       Some (s, w)
                     } else Some (s, w));
         wr \<leftarrow> right_of s w;
         wrc \<leftarrow> color_of s wr;
         wlc \<leftarrow> (if wrc = BLACK then do { wl \<leftarrow> left_of s w; color_of s wl }
                 else Some RED);
         if wrc = BLACK \<and> wlc = BLACK then do {
           s \<leftarrow> set_color s w RED;
           xp \<leftarrow> parent_of s x;
           delete_fixup s xp
         } else do {
           wl \<leftarrow> left_of s w;
           wlc \<leftarrow> color_of s wl;
           (s, w) \<leftarrow> (if wlc = BLACK then do {
                         wr \<leftarrow> right_of s w;
                         s \<leftarrow> set_color s wr BLACK;
                         s \<leftarrow> set_color s w RED;
                         s \<leftarrow> left_rotate s w;
                         xp \<leftarrow> parent_of s x;
                         w \<leftarrow> left_of s xp;
                         Some (s, w)
                       } else Some (s, w));
           xp \<leftarrow> parent_of s x;
           xpc \<leftarrow> color_of s xp;
           s \<leftarrow> set_color s w xpc;
           xp \<leftarrow> parent_of s x;
           s \<leftarrow> set_color s xp BLACK;
           wl \<leftarrow> left_of s w;
           s \<leftarrow> set_color s wl BLACK;
           xp \<leftarrow> parent_of s x;
           s \<leftarrow> right_rotate s xp;
           delete_fixup s (root s)
         }
       }
     } else set_color s x BLACK
   }"

partial_function (option) erase_find ::
  "('k::linorder, 'v) rbtree \<Rightarrow> 'k \<Rightarrow> addr \<Rightarrow> addr option" where
  "erase_find s k z =
     (if z \<noteq> NIL s then do {
        zk \<leftarrow> key_of s z;
        if k \<noteq> zk then do {
          z \<leftarrow> (if k < zk then left_of s z else right_of s z);
          erase_find s k z
        } else Some z
      } else Some z)"

text \<open>
  The two-children case of \<open>erase\<close>: \<open>y\<close> is the in-order successor, the result is the
  state together with \<open>y_original\<close> and \<open>x\<close>.
\<close>

definition erase_successor ::
  "('k, 'v) rbtree \<Rightarrow> addr \<Rightarrow> (('k, 'v) rbtree \<times> color \<times> addr) option" where
  "erase_successor s z = do {
     zr \<leftarrow> right_of s z;
     y \<leftarrow> minimum s zr;
     y_original \<leftarrow> color_of s y;
     x \<leftarrow> right_of s y;
     yp \<leftarrow> parent_of s y;
     s \<leftarrow> (if yp = z then set_parent s x y
          else do {
            yr \<leftarrow> right_of s y;
            s \<leftarrow> transplant s y yr;
            zr \<leftarrow> right_of s z;
            s \<leftarrow> set_right s y zr;
            yr \<leftarrow> right_of s y;
            set_parent s yr y
          });
     s \<leftarrow> transplant s z y;
     zl \<leftarrow> left_of s z;
     s \<leftarrow> set_left s y zl;
     yl \<leftarrow> left_of s y;
     s \<leftarrow> set_parent s yl y;
     zc \<leftarrow> color_of s z;
     s \<leftarrow> set_color s y zc;
     Some (s, y_original, x)
   }"

text \<open>
  The statements of \<open>erase\<close> below the declaration of the guard.  The two files with a
  tree-wide lock (race_free_rb_tree.cpp, epoch_based_rb_tree.cpp) have the same statements.
\<close>

definition erase_body ::
  "('k::linorder, 'v) rbtree \<Rightarrow> 'k \<Rightarrow> (bool \<times> ('k, 'v) rbtree) option" where
  "erase_body s k = do {
     z \<leftarrow> erase_find s k (root s);
     if z = NIL s then Some (False, s)
     else do {
       y_original \<leftarrow> color_of s z;
       zl \<leftarrow> left_of s z;
       (s, y_original, x) \<leftarrow>
         (if zl = NIL s then do {
            x \<leftarrow> right_of s z;
            s \<leftarrow> transplant s z x;
            Some (s, y_original, x)
          } else do {
            zr \<leftarrow> right_of s z;
            if zr = NIL s then do {
              x \<leftarrow> left_of s z;
              s \<leftarrow> transplant s z x;
              Some (s, y_original, x)
            } else erase_successor s z
          });
       s \<leftarrow> delete_node s z;
       s \<leftarrow> (if y_original = BLACK then delete_fixup s x else Some s);
       Some (True, s)
     }
   }"

text \<open>\<open>erase\<close>: \<open>writer_guard\<close> holds \<open>writers_mutex\<close> from the first statement to the return.\<close>

definition erase ::
  "('k::linorder, 'v) rbtree \<Rightarrow> 'k \<Rightarrow> (bool \<times> ('k, 'v) rbtree) option" where
  "erase s k = do {
     s \<leftarrow> lock_writers s;
     (b, s) \<leftarrow> erase_body s k;
     s \<leftarrow> unlock_writers s;
     Some (b, s)
   }"

subsection \<open>validate\<close>

text \<open>
  \<open>validate_rec(n, blacks, target)\<close>: the reference parameter \<open>target\<close> is returned with
  the result.  \<open>&&\<close> and \<open>||\<close> evaluate their right operand only when needed.
\<close>

partial_function (option) validate_rec ::
  "('k::linorder, 'v) rbtree \<Rightarrow> addr \<Rightarrow> int \<Rightarrow> int \<Rightarrow> (bool \<times> int) option" where
  "validate_rec s n blacks target =
     (if n = NIL s then
        (let target = (if target = - 1 then blacks else target)
         in Some (blacks = target, target))
      else do {
        c \<leftarrow> color_of s n;
        let blacks = (if c = BLACK then blacks + 1 else blacks);
        red_red \<leftarrow> (if c = RED then do {
                      l \<leftarrow> left_of s n;
                      lc \<leftarrow> color_of s l;
                      if lc = RED then Some True
                      else do { r \<leftarrow> right_of s n; rc \<leftarrow> color_of s r; Some (rc = RED) }
                    } else Some False);
        if red_red then Some (False, target)
        else do {
          l \<leftarrow> left_of s n;
          bad_left \<leftarrow> (if l \<noteq> NIL s then do {
                         nk \<leftarrow> key_of s n; lk \<leftarrow> key_of s l; Some (nk < lk)
                       } else Some False);
          if bad_left then Some (False, target)
          else do {
            r \<leftarrow> right_of s n;
            bad_right \<leftarrow> (if r \<noteq> NIL s then do {
                            rk \<leftarrow> key_of s r; nk \<leftarrow> key_of s n; Some (rk < nk)
                          } else Some False);
            if bad_right then Some (False, target)
            else do {
              (ok, target) \<leftarrow> validate_rec s l blacks target;
              if ok then validate_rec s r blacks target else Some (False, target)
            }
          }
        }
      })"

definition validate :: "('k::linorder, 'v) rbtree \<Rightarrow> bool option" where
  "validate s = map_option fst (validate_rec s (root s) 0 (- 1))"


section \<open>The deadlock-safe lookup (lock\_based\_rb\_tree.cpp)\<close>

text \<open>
  In this file every node carries \<open>lock_id\<close>, initialised by the constructor with
  \<open>reinterpret_cast<uintptr_t>(this)\<close>: the order key of a node is its address.
\<close>

definition lock_id :: "addr \<Rightarrow> nat" where
  "lock_id p = p"

definition lock_id_of :: "('k, 'v) rbtree \<Rightarrow> addr \<Rightarrow> nat option" where
  "lock_id_of s p = map_option (\<lambda>n. lock_id p) (mem s p)"

fun lock_all :: "('k, 'v) rbtree \<Rightarrow> addr list \<Rightarrow> ('k, 'v) rbtree option" where
  "lock_all s [] = Some s"
| "lock_all s (n # ns) = do { s \<leftarrow> lock_shared s n; lock_all s ns }"

fun unlock_all :: "('k, 'v) rbtree \<Rightarrow> addr list \<Rightarrow> ('k, 'v) rbtree option" where
  "unlock_all s [] = Some s"
| "unlock_all s (n # ns) = do { s \<leftarrow> unlock_shared s n; unlock_all s ns }"

text \<open>
  The constructor of \<open>OrderedLockGuard\<close>: \<open>std::sort\<close> by \<open>lock_id\<close>, \<open>std::unique\<close>
  (which drops adjacent repetitions), then one \<open>shared_lock\<close> per remaining node, in that
  order.  The result carries \<open>locks_\<close>, the locks the destructor releases.
\<close>

definition OrderedLockGuard ::
  "('k, 'v) rbtree \<Rightarrow> addr list \<Rightarrow> (('k, 'v) rbtree \<times> addr list) option" where
  "OrderedLockGuard s nodes =
     (let nodes = remdups_adj (sort_key lock_id nodes)
      in do { s \<leftarrow> lock_all s nodes; Some (s, nodes) })"

text \<open>
  The transition from \<open>cur\<close> to \<open>next\<close>; the source repeats this block for the left and
  for the right child.
\<close>

definition lb_advance :: "('k, 'v) rbtree \<Rightarrow> addr \<Rightarrow> addr \<Rightarrow> ('k, 'v) rbtree option" where
  "lb_advance s cur next = do {
     ci \<leftarrow> lock_id_of s cur;
     ni \<leftarrow> lock_id_of s next;
     if ci < ni then do {
       s \<leftarrow> lock_shared s next;
       unlock_shared s cur
     } else do {
       (s, locks) \<leftarrow> OrderedLockGuard s [cur, next];
       s \<leftarrow> unlock_shared s cur;
       s \<leftarrow> lock_shared s next;
       unlock_all s locks
     }
   }"

partial_function (option) lb_lookup_loop ::
  "('k::linorder, 'v) rbtree \<Rightarrow> 'k \<Rightarrow> addr \<Rightarrow> ('v option \<times> ('k, 'v) rbtree) option" where
  "lb_lookup_loop s k cur =
     (if cur \<noteq> NIL s then do {
        ck \<leftarrow> key_of s cur;
        if k < ck then do {
          next \<leftarrow> left_of s cur;
          if next = NIL s then do { s \<leftarrow> unlock_shared s cur; Some (None, s) }
          else do { s \<leftarrow> lb_advance s cur next; lb_lookup_loop s k next }
        } else if ck < k then do {
          next \<leftarrow> right_of s cur;
          if next = NIL s then do { s \<leftarrow> unlock_shared s cur; Some (None, s) }
          else do { s \<leftarrow> lb_advance s cur next; lb_lookup_loop s k next }
        } else do {
          v \<leftarrow> val_of s cur;
          s \<leftarrow> unlock_shared s cur;
          Some (Some v, s)
        }
      } else do {
        s \<leftarrow> unlock_shared s cur;
        Some (None, s)
      })"

definition lb_lookup ::
  "('k::linorder, 'v) rbtree \<Rightarrow> 'k \<Rightarrow> ('v option \<times> ('k, 'v) rbtree) option" where
  "lb_lookup s k =
     (if root s = NIL s then Some (None, s)
      else do {
        s \<leftarrow> lock_shared s (root s);
        lb_lookup_loop s k (root s)
      })"

section \<open>Locks held by the executing thread\<close>

text \<open>
  The node mutexes a thread holds (in either mode, with multiplicity) after it has performed
  a sequence of lock operations, and the largest number it holds at any instant on the way.
\<close>

fun apply_event :: "addr list \<Rightarrow> lock_event \<Rightarrow> addr list" where
  "apply_event h (LockShared a) = a # h"
| "apply_event h (UnlockShared a) = remove1 a h"
| "apply_event h (LockUnique a) = a # h"
| "apply_event h (UnlockUnique a) = remove1 a h"
| "apply_event h LockWriters = h"
| "apply_event h UnlockWriters = h"
| "apply_event h LockGlobalShared = h"
| "apply_event h UnlockGlobalShared = h"
| "apply_event h LockGlobalUnique = h"
| "apply_event h UnlockGlobalUnique = h"

definition held :: "lock_event list \<Rightarrow> addr list" where
  "held evs = foldl apply_event [] evs"



declare lookup_loop.simps [code]
declare insert_fixup.simps [code]
declare insert_loop.simps [code]
declare minimum.simps [code]
declare delete_fixup.simps [code]
declare erase_find.simps [code]
declare validate_rec.simps [code]
declare lb_lookup_loop.simps [code]


section \<open>A concrete tree\<close>

text \<open>
  The sentinel at address 1 and three nodes: the black root with key 2 at address 2, its red
  children with keys 1 and 3 at addresses 3 and 4.
\<close>

definition example_tree :: "(int, int) rbtree" where
  "example_tree =
     \<lparr>mem = [1 \<mapsto> \<lparr>key = 0, val = 0, color = BLACK, parent = 0, left = 0, right = 0\<rparr>,
             2 \<mapsto> \<lparr>key = 2, val = 20, color = BLACK, parent = 1, left = 3, right = 4\<rparr>,
             3 \<mapsto> \<lparr>key = 1, val = 10, color = RED, parent = 2, left = 1, right = 1\<rparr>,
             4 \<mapsto> \<lparr>key = 3, val = 30, color = RED, parent = 2, left = 1, right = 1\<rparr>],
      root = 2, NIL = 1, brk = 5, trace = []\<rparr>"

section \<open>Trees, and the tree a state holds\<close>

subsection \<open>Trees with addresses, and their layout in memory\<close>

text \<open>
  The tree a state holds, node by node: left subtree, address, colour, key, value, right
  subtree.  \<open>Leaf\<close> stands for a link to the sentinel.
\<close>

datatype ('k, 'v) tree = Leaf | Node "('k, 'v) tree" addr color 'k 'v "('k, 'v) tree"

text \<open>
  A position in a tree is the subtree at it and the list of frames above it, nearest first:
  \<open>LF\<close> is a node whose left child is the position (with the right subtree), \<open>RF\<close> a node whose
  right child is the position (with the left subtree).
\<close>

datatype ('k, 'v) frame =
    LF addr color 'k 'v "('k, 'v) tree"
  | RF "('k, 'v) tree" addr color 'k 'v

text \<open>The pointer to a subtree, and the addresses of its nodes in order.\<close>

fun ptr :: "addr \<Rightarrow> ('k, 'v) tree \<Rightarrow> addr" where
  "ptr nil Leaf = nil"
| "ptr nil (Node l a c k v r) = a"

fun addrs :: "('k, 'v) tree \<Rightarrow> addr list" where
  "addrs Leaf = []"
| "addrs (Node l a c k v r) = addrs l @ a # addrs r"

text \<open>
  \<open>rep h nil par t\<close>: in the memory \<open>h\<close> the nodes of \<open>t\<close> are laid out as \<open>t\<close> says, under
  the parent \<open>par\<close>, with \<open>nil\<close> for the sentinel.
\<close>

fun rep :: "(addr \<Rightarrow> ('k, 'v) node option) \<Rightarrow> addr \<Rightarrow> addr \<Rightarrow> ('k, 'v) tree \<Rightarrow> bool" where
  "rep h nil par Leaf = True"
| "rep h nil par (Node l a c k v r) =
     (h a = Some \<lparr>key = k, val = v, color = c, parent = par,
                  left = ptr nil l, right = ptr nil r\<rparr>
      \<and> rep h nil a l \<and> rep h nil a r)"

text \<open>Putting a subtree below a frame, and under a list of frames.\<close>

fun fill :: "('k, 'v) frame \<Rightarrow> ('k, 'v) tree \<Rightarrow> ('k, 'v) tree" where
  "fill (LF a c k v r) t = Node t a c k v r"
| "fill (RF l a c k v) t = Node l a c k v t"

fun faddr :: "('k, 'v) frame \<Rightarrow> addr" where
  "faddr (LF a c k v r) = a"
| "faddr (RF l a c k v) = a"

fun fsib :: "('k, 'v) frame \<Rightarrow> ('k, 'v) tree" where
  "fsib (LF a c k v r) = r"
| "fsib (RF l a c k v) = l"

fun plug :: "('k, 'v) frame list \<Rightarrow> ('k, 'v) tree \<Rightarrow> ('k, 'v) tree" where
  "plug [] t = t"
| "plug (f # fs) t = plug fs (fill f t)"

text \<open>The addresses in a list of frames, the parent of the position, and the root.\<close>

fun caddrs :: "('k, 'v) frame list \<Rightarrow> addr list" where
  "caddrs [] = []"
| "caddrs (f # fs) = faddr f # addrs (fsib f) @ caddrs fs"

fun cpar :: "addr \<Rightarrow> ('k, 'v) frame list \<Rightarrow> addr" where
  "cpar nil [] = nil"
| "cpar nil (f # fs) = faddr f"

fun croot :: "('k, 'v) frame list \<Rightarrow> addr \<Rightarrow> addr" where
  "croot [] p = p"
| "croot (f # fs) p = croot fs (faddr f)"

text \<open>
  \<open>crep h nil fs p\<close>: the frames \<open>fs\<close> are laid out in \<open>h\<close> above a position that holds the
  pointer \<open>p\<close>.
\<close>

fun crep ::
  "(addr \<Rightarrow> ('k, 'v) node option) \<Rightarrow> addr \<Rightarrow> ('k, 'v) frame list \<Rightarrow> addr \<Rightarrow> bool" where
  "crep h nil [] p = True"
| "crep h nil (LF a c k v r # fs) p =
     (h a = Some \<lparr>key = k, val = v, color = c, parent = cpar nil fs,
                  left = p, right = ptr nil r\<rparr>
      \<and> rep h nil a r \<and> crep h nil fs a)"
| "crep h nil (RF l a c k v # fs) p =
     (h a = Some \<lparr>key = k, val = v, color = c, parent = cpar nil fs,
                  left = ptr nil l, right = p\<rparr>
      \<and> rep h nil a l \<and> crep h nil fs a)"

text \<open>
  \<open>hrep s fs t\<close>: the nodes reachable from \<open>root\<close> in the state \<open>s\<close> form the tree
  \<open>plug fs t\<close>, every node at its own address, none of them the sentinel, and the sentinel
  is BLACK.  \<open>hrep s [] t\<close> says that \<open>s\<close> holds the tree \<open>t\<close>.
\<close>

definition hrep :: "('k, 'v) rbtree \<Rightarrow> ('k, 'v) frame list \<Rightarrow> ('k, 'v) tree \<Rightarrow> bool" where
  "hrep s fs t \<longleftrightarrow>
     crep (mem s) (NIL s) fs (ptr (NIL s) t) \<and>
     rep (mem s) (NIL s) (cpar (NIL s) fs) t \<and>
     root s = croot fs (ptr (NIL s) t) \<and>
     distinct (addrs t @ caddrs fs) \<and>
     NIL s \<notin> set (addrs t @ caddrs fs) \<and>
     color_of s (NIL s) = Some BLACK"

text \<open>What an operation on the tree leaves alone.\<close>

definition frame_ok :: "('k, 'v) rbtree \<Rightarrow> ('k, 'v) rbtree \<Rightarrow> bool" where
  "frame_ok s s' \<longleftrightarrow>
     NIL s' = NIL s \<and> brk s' = brk s \<and> trace s' = trace s \<and>
     (\<forall>a. mem s' a = None \<longleftrightarrow> mem s a = None) \<and> mem s' (NIL s) = mem s (NIL s)"

subsection \<open>The rebalancing of insert on a tree\<close>

text \<open>Colours of subtrees and frames; the sentinel is BLACK.\<close>

fun col :: "('k, 'v) tree \<Rightarrow> color" where
  "col Leaf = BLACK"
| "col (Node l a c k v r) = c"

fun paint :: "color \<Rightarrow> ('k, 'v) tree \<Rightarrow> ('k, 'v) tree" where
  "paint c Leaf = Leaf"
| "paint c (Node l a c' k v r) = Node l a c k v r"

fun fcol :: "('k, 'v) frame \<Rightarrow> color" where
  "fcol (LF a c k v r) = c"
| "fcol (RF l a c k v) = c"

fun fpaint :: "color \<Rightarrow> ('k, 'v) frame \<Rightarrow> ('k, 'v) frame" where
  "fpaint c (LF a c' k v r) = LF a c k v r"
| "fpaint c (RF l a c' k v) = RF l a c k v"

fun sibpaint :: "color \<Rightarrow> ('k, 'v) frame \<Rightarrow> ('k, 'v) frame" where
  "sibpaint c (LF a c' k v r) = LF a c' k v (paint c r)"
| "sibpaint c (RF l a c' k v) = RF (paint c l) a c' k v"

text \<open>
  The last step of \<open>insert_fixup\<close>: the RED node \<open>t\<close> below the RED parent \<open>p\<close> and the
  grandparent \<open>g\<close>, whose other child is BLACK, after the one or two rotations.
\<close>

fun ins_rot :: "('k, 'v) frame \<Rightarrow> ('k, 'v) frame \<Rightarrow> ('k, 'v) tree \<Rightarrow> ('k, 'v) tree" where
  "ins_rot (LF pa pc pk pv pr) (LF ga gc gk gv u) t =
     Node t pa BLACK pk pv (Node pr ga RED gk gv u)"
| "ins_rot (RF pl pa pc pk pv) (LF ga gc gk gv u) (Node zl z zc zk zv zr) =
     Node (Node pl pa pc pk pv zl) z BLACK zk zv (Node zr ga RED gk gv u)"
| "ins_rot (RF pl pa pc pk pv) (RF u ga gc gk gv) t =
     Node (Node u ga RED gk gv pl) pa BLACK pk pv t"
| "ins_rot (LF pa pc pk pv pr) (RF u ga gc gk gv) (Node zl z zc zk zv zr) =
     Node (Node u ga RED gk gv zl) z BLACK zk zv (Node zr pa pc pk pv pr)"
| "ins_rot p g Leaf = Leaf"

text \<open>
  \<open>insert_fixup\<close> on the RED node \<open>t\<close> below the frames: a RED uncle is repainted and the loop
  goes on two levels up, a BLACK uncle ends it with rotations; the caller paints the root.
\<close>

fun ins_fix :: "('k, 'v) frame list \<Rightarrow> ('k, 'v) tree \<Rightarrow> ('k, 'v) tree" where
  "ins_fix (p # g # fs) t =
     (if fcol p = RED then
        (if col (fsib g) = RED
         then ins_fix fs (fill (fpaint RED (sibpaint BLACK g)) (fill (fpaint BLACK p) t))
         else plug fs (ins_rot p g t))
      else plug (p # g # fs) t)"
| "ins_fix fs t = plug fs t"

text \<open>The computation returns, and its result satisfies \<open>Q\<close>.\<close>

definition yields :: "'a option \<Rightarrow> ('a \<Rightarrow> bool) \<Rightarrow> bool" where
  "yields r Q \<longleftrightarrow> (\<exists>x. r = Some x \<and> Q x)"

subsection \<open>The descent to a key\<close>

text \<open>
  The descent of \<open>lookup\<close>, \<open>insert\<close> and \<open>erase\<close> from a position towards the key \<open>k\<close>: the
  frames passed and the subtree reached, a node with key \<open>k\<close> or \<open>Leaf\<close>.
\<close>

fun descend :: "'k::linorder \<Rightarrow> ('k, 'v) frame list \<Rightarrow> ('k, 'v) tree
    \<Rightarrow> ('k, 'v) frame list \<times> ('k, 'v) tree" where
  "descend k fs Leaf = (fs, Leaf)"
| "descend k fs (Node l a c k' v r) =
     (if k < k' then descend k (LF a c k' v r # fs) l
      else if k' < k then descend k (RF l a c k' v # fs) r
      else (fs, Node l a c k' v r))"

text \<open>Two states that differ in the record of lock operations only.\<close>

definition untouched :: "('k, 'v) rbtree \<Rightarrow> ('k, 'v) rbtree \<Rightarrow> bool" where
  "untouched s s' \<longleftrightarrow> mem s' = mem s \<and> root s' = root s \<and> NIL s' = NIL s \<and> brk s' = brk s"

subsection \<open>insert on a tree\<close>

text \<open>No address from \<open>brk\<close> on is allocated.\<close>

definition fresh :: "('k, 'v) rbtree \<Rightarrow> bool" where
  "fresh s \<longleftrightarrow> (\<forall>a. brk s \<le> a \<longrightarrow> mem s a = None)"

text \<open>The frame lies on the search path of \<open>k\<close>.\<close>

fun dir_ok :: "'k::linorder \<Rightarrow> ('k, 'v) frame \<Rightarrow> bool" where
  "dir_ok k (LF a c k' v r) \<longleftrightarrow> k < k'"
| "dir_ok k (RF l a c k' v) \<longleftrightarrow> k' < k"

text \<open>
  \<open>insert k v\<close> on a tree, with \<open>z\<close> the address of the new node: a node with key \<open>k\<close> gets
  the value, otherwise the RED node \<open>z\<close> is put where the descent ends and the tree is
  rebalanced.
\<close>

definition ins_tree :: "addr \<Rightarrow> 'k::linorder \<Rightarrow> 'v \<Rightarrow> ('k, 'v) tree \<Rightarrow> ('k, 'v) tree" where
  "ins_tree z k v t =
     (case descend k [] t of
        (fs, Leaf) \<Rightarrow> paint BLACK (ins_fix fs (Node Leaf z RED k v Leaf))
      | (fs, Node l x c k' v' r) \<Rightarrow> plug fs (Node l x c k' v r))"

subsection \<open>The invariants validate looks at\<close>

text \<open>
  The number of BLACK nodes on the left spine; the same number on every path (\<open>invh\<close>);
  no RED node with a RED child (\<open>invc\<close>); no key below the key of the left child or above
  the key of the right child (\<open>ord_local\<close>).
\<close>

fun bheight :: "('k, 'v) tree \<Rightarrow> nat" where
  "bheight Leaf = 0"
| "bheight (Node l a c k v r) = (if c = BLACK then Suc (bheight l) else bheight l)"

fun invh :: "('k, 'v) tree \<Rightarrow> bool" where
  "invh Leaf = True"
| "invh (Node l a c k v r) \<longleftrightarrow> bheight l = bheight r \<and> invh l \<and> invh r"

fun invc :: "('k, 'v) tree \<Rightarrow> bool" where
  "invc Leaf = True"
| "invc (Node l a c k v r) \<longleftrightarrow>
     (c = RED \<longrightarrow> col l = BLACK \<and> col r = BLACK) \<and> invc l \<and> invc r"

fun ord_local :: "('k::linorder, 'v) tree \<Rightarrow> bool" where
  "ord_local Leaf = True"
| "ord_local (Node l a c k v r) \<longleftrightarrow>
     (case l of Leaf \<Rightarrow> True | Node ll la lc lk lv lr \<Rightarrow> \<not> k < lk) \<and>
     (case r of Leaf \<Rightarrow> True | Node rl ra rc rk rv rr \<Rightarrow> \<not> rk < k) \<and>
     ord_local l \<and> ord_local r"

subsection \<open>The blocks of the loop of delete\_fixup\<close>

text \<open>
  The body of the loop of \<open>delete_fixup\<close>, cut at the two points where the sibling \<open>w\<close> is
  known: the recolouring and rotation that turn a RED sibling into a BLACK one (case 1), the
  choice between recolouring the sibling (case 2) and rotating, the rotation that makes the
  far nephew RED (case 3), and the final recolouring and rotation (case 4).
\<close>

definition del_red_sibling_l ::
  "('k, 'v) rbtree \<Rightarrow> addr \<Rightarrow> addr \<Rightarrow> color \<Rightarrow> (('k, 'v) rbtree \<times> addr) option" where
  "del_red_sibling_l s x w wc =
     (if wc = RED then do {
        s \<leftarrow> set_color s w BLACK;
        xp \<leftarrow> parent_of s x;
        s \<leftarrow> set_color s xp RED;
        xp \<leftarrow> parent_of s x;
        s \<leftarrow> left_rotate s xp;
        xp \<leftarrow> parent_of s x;
        w \<leftarrow> right_of s xp;
        Some (s, w)
      } else Some (s, w))"

definition del_near_red_l ::
  "('k, 'v) rbtree \<Rightarrow> addr \<Rightarrow> addr \<Rightarrow> color \<Rightarrow> (('k, 'v) rbtree \<times> addr) option" where
  "del_near_red_l s x w wrc =
     (if wrc = BLACK then do {
        wl \<leftarrow> left_of s w;
        s \<leftarrow> set_color s wl BLACK;
        s \<leftarrow> set_color s w RED;
        s \<leftarrow> right_rotate s w;
        xp \<leftarrow> parent_of s x;
        w \<leftarrow> right_of s xp;
        Some (s, w)
      } else Some (s, w))"

definition del_far_red_l ::
  "('k, 'v) rbtree \<Rightarrow> addr \<Rightarrow> addr \<Rightarrow> ('k, 'v) rbtree option" where
  "del_far_red_l s x w = do {
     xp \<leftarrow> parent_of s x;
     xpc \<leftarrow> color_of s xp;
     s \<leftarrow> set_color s w xpc;
     xp \<leftarrow> parent_of s x;
     s \<leftarrow> set_color s xp BLACK;
     wr \<leftarrow> right_of s w;
     s \<leftarrow> set_color s wr BLACK;
     xp \<leftarrow> parent_of s x;
     s \<leftarrow> left_rotate s xp;
     delete_fixup s (root s)
   }"

definition del_black_sibling_l ::
  "('k, 'v) rbtree \<Rightarrow> addr \<Rightarrow> addr \<Rightarrow> ('k, 'v) rbtree option" where
  "del_black_sibling_l s x w = do {
     wl \<leftarrow> left_of s w;
     wlc \<leftarrow> color_of s wl;
     wrc \<leftarrow> (if wlc = BLACK then do { wr \<leftarrow> right_of s w; color_of s wr }
             else Some RED);
     if wlc = BLACK \<and> wrc = BLACK then do {
       s \<leftarrow> set_color s w RED;
       xp \<leftarrow> parent_of s x;
       delete_fixup s xp
     } else do {
       wr \<leftarrow> right_of s w;
       wrc \<leftarrow> color_of s wr;
       (s, w) \<leftarrow> del_near_red_l s x w wrc;
       del_far_red_l s x w
     }
   }"

definition del_red_sibling_r ::
  "('k, 'v) rbtree \<Rightarrow> addr \<Rightarrow> addr \<Rightarrow> color \<Rightarrow> (('k, 'v) rbtree \<times> addr) option" where
  "del_red_sibling_r s x w wc =
     (if wc = RED then do {
        s \<leftarrow> set_color s w BLACK;
        xp \<leftarrow> parent_of s x;
        s \<leftarrow> set_color s xp RED;
        xp \<leftarrow> parent_of s x;
        s \<leftarrow> right_rotate s xp;
        xp \<leftarrow> parent_of s x;
        w \<leftarrow> left_of s xp;
        Some (s, w)
      } else Some (s, w))"

definition del_near_red_r ::
  "('k, 'v) rbtree \<Rightarrow> addr \<Rightarrow> addr \<Rightarrow> color \<Rightarrow> (('k, 'v) rbtree \<times> addr) option" where
  "del_near_red_r s x w wlc =
     (if wlc = BLACK then do {
        wr \<leftarrow> right_of s w;
        s \<leftarrow> set_color s wr BLACK;
        s \<leftarrow> set_color s w RED;
        s \<leftarrow> left_rotate s w;
        xp \<leftarrow> parent_of s x;
        w \<leftarrow> left_of s xp;
        Some (s, w)
      } else Some (s, w))"

definition del_far_red_r ::
  "('k, 'v) rbtree \<Rightarrow> addr \<Rightarrow> addr \<Rightarrow> ('k, 'v) rbtree option" where
  "del_far_red_r s x w = do {
     xp \<leftarrow> parent_of s x;
     xpc \<leftarrow> color_of s xp;
     s \<leftarrow> set_color s w xpc;
     xp \<leftarrow> parent_of s x;
     s \<leftarrow> set_color s xp BLACK;
     wl \<leftarrow> left_of s w;
     s \<leftarrow> set_color s wl BLACK;
     xp \<leftarrow> parent_of s x;
     s \<leftarrow> right_rotate s xp;
     delete_fixup s (root s)
   }"

definition del_black_sibling_r ::
  "('k, 'v) rbtree \<Rightarrow> addr \<Rightarrow> addr \<Rightarrow> ('k, 'v) rbtree option" where
  "del_black_sibling_r s x w = do {
     wr \<leftarrow> right_of s w;
     wrc \<leftarrow> color_of s wr;
     wlc \<leftarrow> (if wrc = BLACK then do { wl \<leftarrow> left_of s w; color_of s wl }
             else Some RED);
     if wrc = BLACK \<and> wlc = BLACK then do {
       s \<leftarrow> set_color s w RED;
       xp \<leftarrow> parent_of s x;
       delete_fixup s xp
     } else do {
       wl \<leftarrow> left_of s w;
       wlc \<leftarrow> color_of s wl;
       (s, w) \<leftarrow> del_near_red_r s x w wlc;
       del_far_red_r s x w
     }
   }"

subsection \<open>The rebalancing of erase on a tree\<close>

text \<open>
  One round of the loop of \<open>delete_fixup\<close> at a BLACK sibling gives the subtree at the parent;
  the loop goes on at the parent (\<open>Up\<close>, case 2) or ends with \<open>x = root\<close> (\<open>Done\<close>, cases 3 and
  4).  There is no result where the code would read a field of the null pointer.
\<close>

datatype ('k, 'v) fixed = Up "('k, 'v) tree" | Done "('k, 'v) tree"

fun del_sib_l ::
  "addr \<Rightarrow> color \<Rightarrow> 'k \<Rightarrow> 'v \<Rightarrow> ('k, 'v) tree \<Rightarrow> ('k, 'v) tree \<Rightarrow> ('k, 'v) fixed option" where
  "del_sib_l pa pc pk pv Leaf x = None"
| "del_sib_l pa pc pk pv (Node wl wa wc wk wv wr) x =
     (if col wl = BLACK \<and> col wr = BLACK
      then Some (Up (Node x pa pc pk pv (Node wl wa RED wk wv wr)))
      else if col wr = BLACK
      then (case wl of Leaf \<Rightarrow> None
            | Node wll wla wlc wlk wlv wlr \<Rightarrow>
                Some (Done (Node (Node x pa BLACK pk pv wll) wla pc wlk wlv
                                 (Node wlr wa BLACK wk wv wr))))
      else Some (Done (Node (Node x pa BLACK pk pv wl) wa pc wk wv (paint BLACK wr))))"

fun del_sib_r ::
  "('k, 'v) tree \<Rightarrow> addr \<Rightarrow> color \<Rightarrow> 'k \<Rightarrow> 'v \<Rightarrow> ('k, 'v) tree \<Rightarrow> ('k, 'v) fixed option" where
  "del_sib_r Leaf pa pc pk pv x = None"
| "del_sib_r (Node wl wa wc wk wv wr) pa pc pk pv x =
     (if col wr = BLACK \<and> col wl = BLACK
      then Some (Up (Node (Node wl wa RED wk wv wr) pa pc pk pv x))
      else if col wl = BLACK
      then (case wr of Leaf \<Rightarrow> None
            | Node wrl wra wrc wrk wrv wrr \<Rightarrow>
                Some (Done (Node (Node wl wa BLACK wk wv wrl) wra pc wrk wrv
                                 (Node wrr pa BLACK pk pv x))))
      else Some (Done (Node (paint BLACK wl) wa pc wk wv (Node wr pa BLACK pk pv x))))"

text \<open>
  \<open>delete_fixup\<close> on the subtree \<open>x\<close> below the frames.  After case 1 the parent is RED, so
  case 2 is followed by the exit of the loop, which paints it BLACK.
\<close>

fun del_fix :: "('k, 'v) frame list \<Rightarrow> ('k, 'v) tree \<Rightarrow> ('k, 'v) tree option" where
  "del_fix [] x = Some (paint BLACK x)"
| "del_fix (LF pa pc pk pv w # fs) x =
     (if col x = RED then Some (plug (LF pa pc pk pv w # fs) (paint BLACK x))
      else if col w = RED then
        (case w of Leaf \<Rightarrow> None
         | Node wl wa wc wk wv wr \<Rightarrow>
             (case del_sib_l pa RED pk pv wl x of None \<Rightarrow> None
              | Some (Up t) \<Rightarrow> Some (plug (LF wa BLACK wk wv wr # fs) (paint BLACK t))
              | Some (Done t) \<Rightarrow> Some (paint BLACK (plug (LF wa BLACK wk wv wr # fs) t))))
      else
        (case del_sib_l pa pc pk pv w x of None \<Rightarrow> None
         | Some (Up t) \<Rightarrow> del_fix fs t
         | Some (Done t) \<Rightarrow> Some (paint BLACK (plug fs t))))"
| "del_fix (RF w pa pc pk pv # fs) x =
     (if col x = RED then Some (plug (RF w pa pc pk pv # fs) (paint BLACK x))
      else if col w = RED then
        (case w of Leaf \<Rightarrow> None
         | Node wl wa wc wk wv wr \<Rightarrow>
             (case del_sib_r wr pa RED pk pv x of None \<Rightarrow> None
              | Some (Up t) \<Rightarrow> Some (plug (RF wl wa BLACK wk wv # fs) (paint BLACK t))
              | Some (Done t) \<Rightarrow> Some (paint BLACK (plug (RF wl wa BLACK wk wv # fs) t))))
      else
        (case del_sib_r w pa pc pk pv x of None \<Rightarrow> None
         | Some (Up t) \<Rightarrow> del_fix fs t
         | Some (Done t) \<Rightarrow> Some (paint BLACK (plug fs t))))"

text \<open>The parent pointer of \<open>x\<close> (of the sentinel when \<open>x\<close> is \<open>Leaf\<close>) is the node above.\<close>

definition px :: "('k, 'v) rbtree \<Rightarrow> ('k, 'v) frame list \<Rightarrow> ('k, 'v) tree \<Rightarrow> bool" where
  "px s fs x \<longleftrightarrow> parent_of s (ptr (NIL s) x) = Some (cpar (NIL s) fs)"

subsection \<open>What erase keeps of the sentinel\<close>

text \<open>The fields of the sentinel but its parent pointer.\<close>

definition nil_fields :: "('k, 'v) rbtree \<Rightarrow> ('k \<times> 'v \<times> color \<times> addr \<times> addr) option" where
  "nil_fields s = map_option (\<lambda>n. (key n, val n, color n, left n, right n)) (mem s (NIL s))"

text \<open>What the pointer surgery of \<open>erase\<close> leaves alone.\<close>

definition dframe :: "('k, 'v) rbtree \<Rightarrow> ('k, 'v) rbtree \<Rightarrow> bool" where
  "dframe s s' \<longleftrightarrow>
     NIL s' = NIL s \<and> brk s' = brk s \<and> trace s' = trace s \<and>
     (\<forall>a. mem s a = None \<longrightarrow> mem s' a = None) \<and> nil_fields s' = nil_fields s"

subsection \<open>The in-order successor\<close>

text \<open>\<open>minimum\<close>: the descent along left links to the node without a left child.\<close>

fun split_min ::
  "('k, 'v) frame list \<Rightarrow> ('k, 'v) tree \<Rightarrow> ('k, 'v) frame list \<times> ('k, 'v) tree" where
  "split_min fs Leaf = (fs, Leaf)"
| "split_min fs (Node l a c k v r) =
     (if l = Leaf then (fs, Node l a c k v r) else split_min (LF a c k v r # fs) l)"

text \<open>
  The second half of the two-children case of \<open>erase\<close>: \<open>y\<close> takes the place of \<open>z\<close>.
\<close>

definition erase_replace :: "('k, 'v) rbtree \<Rightarrow> addr \<Rightarrow> addr \<Rightarrow> ('k, 'v) rbtree option" where
  "erase_replace s z y = do {
     s \<leftarrow> transplant s z y;
     zl \<leftarrow> left_of s z;
     s \<leftarrow> set_left s y zl;
     yl \<leftarrow> left_of s y;
     s \<leftarrow> set_parent s yl y;
     zc \<leftarrow> color_of s z;
     set_color s y zc
   }"

text \<open>
  The state between the two halves: \<open>y\<close> is cut out of the right subtree of \<open>z\<close> and owns
  the subtree \<open>yr\<close>; \<open>z\<close> still hangs in the tree with its left subtree \<open>l\<close>.
\<close>

definition mid_rep ::
  "('k, 'v) rbtree \<Rightarrow> ('k, 'v) frame list \<Rightarrow> ('k, 'v) tree \<Rightarrow> addr \<Rightarrow> color \<Rightarrow> 'k \<Rightarrow> 'v
     \<Rightarrow> addr \<Rightarrow> 'k \<Rightarrow> 'v \<Rightarrow> ('k, 'v) tree \<Rightarrow> bool" where
  "mid_rep s fs l z c k v y yk yv yr \<longleftrightarrow>
     crep (mem s) (NIL s) fs z \<and>
     (\<exists>zr. mem s z = Some \<lparr>key = k, val = v, color = c, parent = cpar (NIL s) fs,
                             left = ptr (NIL s) l, right = zr\<rparr>) \<and>
     rep (mem s) (NIL s) z l \<and>
     (\<exists>yc yp yl. mem s y = Some \<lparr>key = yk, val = yv, color = yc, parent = yp,
                                   left = yl, right = ptr (NIL s) yr\<rparr>) \<and>
     rep (mem s) (NIL s) y yr \<and>
     root s = croot fs z \<and>
     distinct (addrs l @ z # y # addrs yr @ caddrs fs) \<and>
     NIL s \<notin> set (addrs l @ z # y # addrs yr @ caddrs fs) \<and>
     color_of s (NIL s) = Some BLACK"

subsection \<open>erase on a tree\<close>

text \<open>
  \<open>erase k\<close> on a tree: the node with key \<open>k\<close> is replaced by its only child, or by its
  in-order successor \<open>y\<close>, which is replaced by its right child; when the node taken out of
  its place was BLACK the tree is rebalanced from the child that took the place.
\<close>

definition del_tree :: "'k::linorder \<Rightarrow> ('k, 'v) tree \<Rightarrow> ('k, 'v) tree option" where
  "del_tree k t =
     (case descend k [] t of
        (fs, Leaf) \<Rightarrow> Some t
      | (fs, Node l z c k' v r) \<Rightarrow>
          if l = Leaf then (if c = BLACK then del_fix fs r else Some (plug fs r))
          else if r = Leaf then (if c = BLACK then del_fix fs l else Some (plug fs l))
          else (case split_min [] r of
                  (fsy, Leaf) \<Rightarrow> None
                | (fsy, Node yl y yc yk yv yr) \<Rightarrow>
                    if yc = BLACK then del_fix (fsy @ RF l y c yk yv # fs) yr
                    else Some (plug (fsy @ RF l y c yk yv # fs) yr)))"

subsection \<open>Invariants of a tree below a hole\<close>

text \<open>The in-order sequence of the entries of a tree.\<close>

fun entries :: "('k, 'v) tree \<Rightarrow> ('k \<times> 'v) list" where
  "entries Leaf = []"
| "entries (Node l a c k v r) = entries l @ (k, v) # entries r"

fun fbh :: "('k, 'v) frame \<Rightarrow> nat" where
  "fbh f = (if fcol f = BLACK then 1 else 0)"

text \<open>
  The frames above a hole are balanced for a subtree of black height \<open>n\<close>, and free of
  RED-RED pairs for a subtree whose root has colour \<open>c\<close>.
\<close>

fun cinvh :: "('k, 'v) frame list \<Rightarrow> nat \<Rightarrow> bool" where
  "cinvh [] n = True"
| "cinvh (f # fs) n \<longleftrightarrow> bheight (fsib f) = n \<and> invh (fsib f) \<and> cinvh fs (n + fbh f)"

fun cinvc :: "('k, 'v) frame list \<Rightarrow> color \<Rightarrow> bool" where
  "cinvc [] c = True"
| "cinvc (f # fs) c \<longleftrightarrow>
     (fcol f = RED \<longrightarrow> c = BLACK \<and> col (fsib f) = BLACK) \<and> invc (fsib f) \<and> cinvc fs (fcol f)"

fun cleft :: "('k, 'v) frame list \<Rightarrow> ('k \<times> 'v) list" where
  "cleft [] = []"
| "cleft (LF a c k v r # fs) = cleft fs"
| "cleft (RF l a c k v # fs) = cleft fs @ entries l @ [(k, v)]"

fun cright :: "('k, 'v) frame list \<Rightarrow> ('k \<times> 'v) list" where
  "cright [] = []"
| "cright (LF a c k v r # fs) = (k, v) # entries r @ cright fs"
| "cright (RF l a c k v # fs) = cright fs"

fun ctop :: "('k, 'v) frame list \<Rightarrow> color \<Rightarrow> color" where
  "ctop [] c = c"
| "ctop (f # fs) c = ctop fs (fcol f)"

definition rootblack :: "('k, 'v) frame list \<Rightarrow> bool" where
  "rootblack fs \<longleftrightarrow> ctop fs BLACK = BLACK"

subsection \<open>Red-black search trees\<close>

definition sorted_keys :: "('k::linorder, 'v) tree \<Rightarrow> bool" where
  "sorted_keys t \<longleftrightarrow> sorted_wrt (<) (map fst (entries t))"

text \<open>The red-black invariants of the tree held by a state, with the search-tree order.\<close>

definition rbt :: "('k::linorder, 'v) tree \<Rightarrow> bool" where
  "rbt t \<longleftrightarrow> col t = BLACK \<and> invc t \<and> invh t \<and> sorted_keys t"

fun cbh :: "('k, 'v) frame list \<Rightarrow> nat" where
  "cbh [] = 0"
| "cbh (f # fs) = fbh f + cbh fs"

subsection \<open>The tree of race\_free\_rb\_tree.cpp\<close>

text \<open>
  race_free_rb_tree.cpp: every operation holds the tree-wide \<open>global_rw_lock\<close> from its first
  statement to its return; the descents take no node locks.
\<close>

partial_function (option) rf_lookup_loop ::
  "('k::linorder, 'v) rbtree \<Rightarrow> 'k \<Rightarrow> addr \<Rightarrow> 'v option option" where
  "rf_lookup_loop s k n =
     (if n \<noteq> NIL s then do {
        nk \<leftarrow> key_of s n;
        if k < nk then do {
          n \<leftarrow> left_of s n;
          rf_lookup_loop s k n
        } else if nk < k then do {
          n \<leftarrow> right_of s n;
          rf_lookup_loop s k n
        } else do {
          v \<leftarrow> val_of s n;
          Some (Some v)
        }
      } else Some None)"

definition rf_lookup ::
  "('k::linorder, 'v) rbtree \<Rightarrow> 'k \<Rightarrow> ('v option \<times> ('k, 'v) rbtree) option" where
  "rf_lookup s k = do {
     s \<leftarrow> lock_global_shared s;
     r \<leftarrow> rf_lookup_loop s k (root s);
     s \<leftarrow> unlock_global_shared s;
     Some (r, s)
   }"

text \<open>The statements of \<open>insert\<close> after the descent loop.\<close>

definition rf_insert_link ::
  "('k::linorder, 'v) rbtree \<Rightarrow> addr \<Rightarrow> addr \<Rightarrow> ('k, 'v) rbtree option" where
  "rf_insert_link s z y = do {
     s \<leftarrow> set_parent s z y;
     s \<leftarrow> (if y = NIL s then Some (s\<lparr>root := z\<rparr>)
          else do {
            zk \<leftarrow> key_of s z;
            yk \<leftarrow> key_of s y;
            if zk < yk then set_left s y z else set_right s y z
          });
     insert_fixup s z
   }"

partial_function (option) rf_insert_loop ::
  "('k::linorder, 'v) rbtree \<Rightarrow> 'k \<Rightarrow> 'v \<Rightarrow> addr \<Rightarrow> addr \<Rightarrow> addr
     \<Rightarrow> ('k, 'v) rbtree option" where
  "rf_insert_loop s k v z y x =
     (if x \<noteq> NIL s then do {
        xk \<leftarrow> key_of s x;
        if k < xk then do {
          next \<leftarrow> left_of s x;
          rf_insert_loop s k v z x next
        } else if xk < k then do {
          next \<leftarrow> right_of s x;
          rf_insert_loop s k v z x next
        } else do {
          s \<leftarrow> set_val s x v;
          delete_node s z
        }
      } else rf_insert_link s z y)"

definition rf_insert ::
  "('k::linorder, 'v) rbtree \<Rightarrow> 'k \<Rightarrow> 'v \<Rightarrow> ('k, 'v) rbtree option" where
  "rf_insert s k v = do {
     s \<leftarrow> lock_global_unique s;
     (z, s) \<leftarrow> Some (new_node s k v RED);
     s \<leftarrow> set_parent s z (NIL s);
     s \<leftarrow> set_right s z (NIL s);
     s \<leftarrow> set_left s z (NIL s);
     s \<leftarrow> rf_insert_loop s k v z (NIL s) (root s);
     unlock_global_unique s
   }"

definition rf_erase ::
  "('k::linorder, 'v) rbtree \<Rightarrow> 'k \<Rightarrow> (bool \<times> ('k, 'v) rbtree) option" where
  "rf_erase s k = do {
     s \<leftarrow> lock_global_unique s;
     (b, s) \<leftarrow> erase_body s k;
     s \<leftarrow> unlock_global_unique s;
     Some (b, s)
   }"

text \<open>What a search for \<open>k\<close> finds in a tree.\<close>

definition tree_lookup :: "'k::linorder \<Rightarrow> ('k, 'v) tree \<Rightarrow> 'v option" where
  "tree_lookup k t = (case snd (descend k [] t) of Leaf \<Rightarrow> None | Node l a c k' v r \<Rightarrow> Some v)"

subsection \<open>The tree of epoch\_based\_rb\_tree.cpp\<close>

text \<open>
  epoch_based_rb_tree.cpp (class \<open>SimpleConcurrentRBTree\<close>): the same operations under the same
  tree-wide lock, written out again as the file has them.
\<close>

partial_function (option) eb_lookup_loop ::
  "('k::linorder, 'v) rbtree \<Rightarrow> 'k \<Rightarrow> addr \<Rightarrow> 'v option option" where
  "eb_lookup_loop s k n =
     (if n \<noteq> NIL s then do {
        nk \<leftarrow> key_of s n;
        if k < nk then do {
          n \<leftarrow> left_of s n;
          eb_lookup_loop s k n
        } else if nk < k then do {
          n \<leftarrow> right_of s n;
          eb_lookup_loop s k n
        } else do {
          v \<leftarrow> val_of s n;
          Some (Some v)
        }
      } else Some None)"

definition eb_lookup ::
  "('k::linorder, 'v) rbtree \<Rightarrow> 'k \<Rightarrow> ('v option \<times> ('k, 'v) rbtree) option" where
  "eb_lookup s k = do {
     s \<leftarrow> lock_global_shared s;
     r \<leftarrow> eb_lookup_loop s k (root s);
     s \<leftarrow> unlock_global_shared s;
     Some (r, s)
   }"

text \<open>The statements of \<open>insert\<close> after the descent loop.\<close>

definition eb_insert_link ::
  "('k::linorder, 'v) rbtree \<Rightarrow> addr \<Rightarrow> addr \<Rightarrow> ('k, 'v) rbtree option" where
  "eb_insert_link s z y = do {
     s \<leftarrow> set_parent s z y;
     s \<leftarrow> (if y = NIL s then Some (s\<lparr>root := z\<rparr>)
          else do {
            zk \<leftarrow> key_of s z;
            yk \<leftarrow> key_of s y;
            if zk < yk then set_left s y z else set_right s y z
          });
     insert_fixup s z
   }"

partial_function (option) eb_insert_loop ::
  "('k::linorder, 'v) rbtree \<Rightarrow> 'k \<Rightarrow> 'v \<Rightarrow> addr \<Rightarrow> addr \<Rightarrow> addr
     \<Rightarrow> ('k, 'v) rbtree option" where
  "eb_insert_loop s k v z y x =
     (if x \<noteq> NIL s then do {
        xk \<leftarrow> key_of s x;
        if k < xk then do {
          next \<leftarrow> left_of s x;
          eb_insert_loop s k v z x next
        } else if xk < k then do {
          next \<leftarrow> right_of s x;
          eb_insert_loop s k v z x next
        } else do {
          s \<leftarrow> set_val s x v;
          delete_node s z
        }
      } else eb_insert_link s z y)"

definition eb_insert ::
  "('k::linorder, 'v) rbtree \<Rightarrow> 'k \<Rightarrow> 'v \<Rightarrow> ('k, 'v) rbtree option" where
  "eb_insert s k v = do {
     s \<leftarrow> lock_global_unique s;
     (z, s) \<leftarrow> Some (new_node s k v RED);
     s \<leftarrow> set_parent s z (NIL s);
     s \<leftarrow> set_right s z (NIL s);
     s \<leftarrow> set_left s z (NIL s);
     s \<leftarrow> eb_insert_loop s k v z (NIL s) (root s);
     unlock_global_unique s
   }"

definition eb_erase ::
  "('k::linorder, 'v) rbtree \<Rightarrow> 'k \<Rightarrow> (bool \<times> ('k, 'v) rbtree) option" where
  "eb_erase s k = do {
     s \<leftarrow> lock_global_unique s;
     (b, s) \<leftarrow> erase_body s k;
     s \<leftarrow> unlock_global_unique s;
     Some (b, s)
   }"

subsection \<open>Sequences of calls\<close>

text \<open>The constructors of the other two classes: the same two statements.\<close>

definition rf_RBTree :: "'k \<Rightarrow> 'v \<Rightarrow> ('k, 'v) rbtree" where
  "rf_RBTree dk dv =
     (let (a, s) = new_node
            \<lparr>mem = Map.empty, root = 0, NIL = 0, brk = 1, trace = []\<rparr> dk dv BLACK
      in s\<lparr>NIL := a, root := a\<rparr>)"

definition SimpleConcurrentRBTree :: "'k \<Rightarrow> 'v \<Rightarrow> ('k, 'v) rbtree" where
  "SimpleConcurrentRBTree dk dv =
     (let (a, s) = new_node
            \<lparr>mem = Map.empty, root = 0, NIL = 0, brk = 1, trace = []\<rparr> dk dv BLACK
      in s\<lparr>NIL := a, root := a\<rparr>)"

text \<open>A client that calls the public operations one after the other, and what each call returns.\<close>

datatype ('k, 'v) operation = Insert 'k 'v | Erase 'k | Lookup 'k | Validate

datatype 'v outcome = Inserted | Erased bool | Found "'v option" | Valid bool

fun apply_op ::
  "('k::linorder, 'v) rbtree \<Rightarrow> ('k, 'v) operation \<Rightarrow> ('v outcome \<times> ('k, 'v) rbtree) option" where
  "apply_op s (Insert k v) = map_option (\<lambda>s'. (Inserted, s')) (insert_rb s k v)"
| "apply_op s (Erase k) = map_option (\<lambda>(b, s'). (Erased b, s')) (erase s k)"
| "apply_op s (Lookup k) = map_option (\<lambda>(r, s'). (Found r, s')) (lookup s k)"
| "apply_op s Validate = map_option (\<lambda>b. (Valid b, s)) (validate s)"

fun rf_apply_op ::
  "('k::linorder, 'v) rbtree \<Rightarrow> ('k, 'v) operation \<Rightarrow> ('v outcome \<times> ('k, 'v) rbtree) option" where
  "rf_apply_op s (Insert k v) = map_option (\<lambda>s'. (Inserted, s')) (rf_insert s k v)"
| "rf_apply_op s (Erase k) = map_option (\<lambda>(b, s'). (Erased b, s')) (rf_erase s k)"
| "rf_apply_op s (Lookup k) = map_option (\<lambda>(r, s'). (Found r, s')) (rf_lookup s k)"
| "rf_apply_op s Validate = map_option (\<lambda>b. (Valid b, s)) (validate s)"

text \<open>
  \<open>SimpleConcurrentRBTree::validate\<close> holds \<open>global_rw_lock\<close> in shared mode around the check;
  \<open>validate\<close> of the other two classes takes no lock.
\<close>

definition eb_validate :: "('k::linorder, 'v) rbtree \<Rightarrow> (bool \<times> ('k, 'v) rbtree) option" where
  "eb_validate s = do {
     s \<leftarrow> lock_global_shared s;
     (ok, bh) \<leftarrow> validate_rec s (root s) 0 (- 1);
     s \<leftarrow> unlock_global_shared s;
     Some (ok, s)
   }"

fun eb_apply_op ::
  "('k::linorder, 'v) rbtree \<Rightarrow> ('k, 'v) operation \<Rightarrow> ('v outcome \<times> ('k, 'v) rbtree) option" where
  "eb_apply_op s (Insert k v) = map_option (\<lambda>s'. (Inserted, s')) (eb_insert s k v)"
| "eb_apply_op s (Erase k) = map_option (\<lambda>(b, s'). (Erased b, s')) (eb_erase s k)"
| "eb_apply_op s (Lookup k) = map_option (\<lambda>(r, s'). (Found r, s')) (eb_lookup s k)"
| "eb_apply_op s Validate = map_option (\<lambda>(b, s'). (Valid b, s')) (eb_validate s)"

fun run_with ::
  "(('k, 'v) rbtree \<Rightarrow> ('k, 'v) operation \<Rightarrow> ('v outcome \<times> ('k, 'v) rbtree) option)
     \<Rightarrow> ('k, 'v) rbtree \<Rightarrow> ('k, 'v) operation list
     \<Rightarrow> ('v outcome list \<times> ('k, 'v) rbtree) option" where
  "run_with f s [] = Some ([], s)"
| "run_with f s (p # ps) = do {
     (r, s) \<leftarrow> f s p;
     (rs, s) \<leftarrow> run_with f s ps;
     Some (r # rs, s)
   }"

definition run_ops ::
  "('k::linorder, 'v) rbtree \<Rightarrow> ('k, 'v) operation list
     \<Rightarrow> ('v outcome list \<times> ('k, 'v) rbtree) option" where
  "run_ops = run_with apply_op"

definition rf_run_ops ::
  "('k::linorder, 'v) rbtree \<Rightarrow> ('k, 'v) operation list
     \<Rightarrow> ('v outcome list \<times> ('k, 'v) rbtree) option" where
  "rf_run_ops = run_with rf_apply_op"

definition eb_run_ops ::
  "('k::linorder, 'v) rbtree \<Rightarrow> ('k, 'v) operation list
     \<Rightarrow> ('v outcome list \<times> ('k, 'v) rbtree) option" where
  "eb_run_ops = run_with eb_apply_op"

text \<open>
  The value a key is bound to after a sequence of calls, read from the latest call backwards:
  the value of the most recent \<open>insert\<close> of the key, unless an \<open>erase\<close> of the key came later.
\<close>

fun recent :: "('k, 'v) operation list \<Rightarrow> 'k \<Rightarrow> 'v option" where
  "recent [] k = None"
| "recent (Insert k' v # ps) k = (if k' = k then Some v else recent ps k)"
| "recent (Erase k' # ps) k = (if k' = k then None else recent ps k)"
| "recent (Lookup k' # ps) k = recent ps k"
| "recent (Validate # ps) k = recent ps k"

text \<open>The tree, and the next free address, after a call.\<close>

fun abs_step :: "('k::linorder, 'v) tree \<times> addr \<Rightarrow> ('k, 'v) operation \<Rightarrow> ('k, 'v) tree \<times> addr" where
  "abs_step (t, b) (Insert k v) = (ins_tree b k v t, Suc b)"
| "abs_step (t, b) (Erase k) = (case del_tree k t of None \<Rightarrow> t | Some T \<Rightarrow> T, b)"
| "abs_step (t, b) (Lookup k) = (t, b)"
| "abs_step (t, b) Validate = (t, b)"

fun abs_out :: "('k::linorder, 'v) tree \<Rightarrow> ('k, 'v) operation \<Rightarrow> 'v outcome" where
  "abs_out t (Insert k v) = Inserted"
| "abs_out t (Erase k) = Erased (snd (descend k [] t) \<noteq> Leaf)"
| "abs_out t (Lookup k) = Found (tree_lookup k t)"
| "abs_out t Validate = Valid True"

fun abs_run ::
  "('k::linorder, 'v) tree \<times> addr \<Rightarrow> ('k, 'v) operation list
     \<Rightarrow> 'v outcome list \<times> ('k, 'v) tree \<times> addr" where
  "abs_run tb [] = ([], tb)"
| "abs_run tb (p # ps) =
     (let (rs, tb') = abs_run (abs_step tb p) ps in (abs_out (fst tb) p # rs, tb'))"

definition wf :: "('k::linorder, 'v) rbtree \<Rightarrow> ('k, 'v) tree \<Rightarrow> bool" where
  "wf s t \<longleftrightarrow> hrep s [] t \<and> fresh s \<and> rbt t"

text \<open>What every call keeps of the state, besides the tree.\<close>

definition kept :: "('k, 'v) rbtree \<Rightarrow> ('k, 'v) rbtree \<Rightarrow> bool" where
  "kept s s' \<longleftrightarrow> NIL s' = NIL s \<and> nil_fields s' = nil_fields s"

subsection \<open>Trees by their links alone\<close>

text \<open>
  \<open>shape h nil p t\<close>: followed along the \<open>left\<close> and \<open>right\<close> links only, the nodes reachable
  from the pointer \<open>p\<close> in the memory \<open>h\<close> unfold to the finite tree \<open>t\<close>, with \<open>nil\<close> for the
  sentinel.  Nothing is asked of the parent pointers or of the colours.
\<close>

fun shape :: "(addr \<Rightarrow> ('k, 'v) node option) \<Rightarrow> addr \<Rightarrow> addr \<Rightarrow> ('k, 'v) tree \<Rightarrow> bool" where
  "shape h nil p Leaf \<longleftrightarrow> p = nil"
| "shape h nil p (Node l a c k v r) \<longleftrightarrow>
     p = a \<and> a \<noteq> nil \<and>
     (case h a of None \<Rightarrow> False
      | Some n \<Rightarrow> key n = k \<and> val n = v \<and> color n = c \<and>
                  shape h nil (left n) l \<and> shape h nil (right n) r)"

text \<open>
  The colour the code reads through a child link: the colour of the child, or the colour
  \<open>nc\<close> the sentinel holds when there is no child.  No RED node with a RED child, read so.
\<close>

fun child_color :: "color \<Rightarrow> ('k, 'v) tree \<Rightarrow> color" where
  "child_color nc Leaf = nc"
| "child_color nc (Node l a c k v r) = c"

fun no_red_red :: "color \<Rightarrow> ('k, 'v) tree \<Rightarrow> bool" where
  "no_red_red nc Leaf = True"
| "no_red_red nc (Node l a c k v r) \<longleftrightarrow>
     (c = RED \<longrightarrow> child_color nc l = BLACK \<and> child_color nc r = BLACK) \<and>
     no_red_red nc l \<and> no_red_red nc r"

subsection \<open>The lock operations of the deadlock-safe lookup\<close>

text \<open>The nodes a search for \<open>k\<close> visits, from the root down.\<close>

fun search_path :: "'k::linorder \<Rightarrow> ('k, 'v) tree \<Rightarrow> addr list" where
  "search_path k Leaf = []"
| "search_path k (Node l a c k' v r) =
     a # (if k < k' then search_path k l else if k' < k then search_path k r else [])"

text \<open>
  The lock operations of one move of the deadlock-safe descent from the node \<open>cur\<close> to its
  child \<open>nxt\<close>.  When \<open>cur\<close> has the smaller \<open>lock_id\<close>: the child is locked, then the parent
  released.  Otherwise: both are locked in the order of their \<open>lock_id\<close>, the child first;
  then the parent's own lock is released and the child is locked for the cursor; the two
  locks taken in order are released at the end of the block.
\<close>

definition ordered_step :: "addr \<Rightarrow> addr \<Rightarrow> lock_event list" where
  "ordered_step cur nxt =
     (if lock_id cur < lock_id nxt then [LockShared nxt, UnlockShared cur]
      else [LockShared nxt, LockShared cur, UnlockShared cur, LockShared nxt,
            UnlockShared nxt, UnlockShared cur])"

text \<open>
  The lock operations of a descent along a path: one move per edge, and the release of the
  last node's lock when the function returns.
\<close>

fun ordered_descent :: "addr list \<Rightarrow> lock_event list" where
  "ordered_descent [] = []"
| "ordered_descent [a] = [UnlockShared a]"
| "ordered_descent (a # b # p) = ordered_step a b @ ordered_descent (b # p)"

text \<open>The lock operations of a whole lookup: nothing on the empty tree.\<close>

definition lb_events :: "addr list \<Rightarrow> lock_event list" where
  "lb_events p = (case p of [] \<Rightarrow> [] | a # q \<Rightarrow> LockShared a # ordered_descent p)"

subsection \<open>Example states\<close>

text \<open>The tree that \<open>example_tree\<close> holds.\<close>

definition example_abs :: "(int, int) tree" where
  "example_abs = Node (Node Leaf 3 RED 1 10 Leaf) 2 BLACK 2 20 (Node Leaf 4 RED 3 30 Leaf)"

text \<open>A state whose root (key 1) is RED.\<close>

definition red_root_tree :: "(int, int) rbtree" where
  "red_root_tree =
     \<lparr>mem = [1 \<mapsto> \<lparr>key = 0, val = 0, color = BLACK, parent = 0, left = 0, right = 0\<rparr>,
             2 \<mapsto> \<lparr>key = 1, val = 10, color = RED, parent = 1, left = 1, right = 1\<rparr>],
      root = 2, NIL = 1, brk = 3, trace = []\<rparr>"

text \<open>A state whose sentinel is RED, under a BLACK root (key 1).\<close>

definition red_nil_tree :: "(int, int) rbtree" where
  "red_nil_tree =
     \<lparr>mem = [1 \<mapsto> \<lparr>key = 0, val = 0, color = RED, parent = 0, left = 0, right = 0\<rparr>,
             2 \<mapsto> \<lparr>key = 1, val = 10, color = BLACK, parent = 1, left = 1, right = 1\<rparr>],
      root = 2, NIL = 1, brk = 3, trace = []\<rparr>"

text \<open>
  A state whose in-order key sequence is 3, 7, 5, 8: the node with key 7 is the right child of
  the node with key 3, in the left subtree of the root (key 5).
\<close>

definition bad_order_tree :: "(int, int) rbtree" where
  "bad_order_tree =
     \<lparr>mem = [1 \<mapsto> \<lparr>key = 0, val = 0, color = BLACK, parent = 0, left = 0, right = 0\<rparr>,
             2 \<mapsto> \<lparr>key = 5, val = 50, color = BLACK, parent = 1, left = 3, right = 4\<rparr>,
             3 \<mapsto> \<lparr>key = 3, val = 30, color = BLACK, parent = 2, left = 1, right = 5\<rparr>,
             4 \<mapsto> \<lparr>key = 8, val = 80, color = BLACK, parent = 2, left = 1, right = 1\<rparr>,
             5 \<mapsto> \<lparr>key = 7, val = 70, color = RED, parent = 3, left = 1, right = 1\<rparr>],
      root = 2, NIL = 1, brk = 6, trace = []\<rparr>"

definition bad_order_abs :: "(int, int) tree" where
  "bad_order_abs =
     Node (Node Leaf 3 BLACK 3 30 (Node Leaf 5 RED 7 70 Leaf)) 2 BLACK 5 50
          (Node Leaf 4 BLACK 8 80 Leaf)"

text \<open>
  A state with increasing keys and unequal counts of BLACK nodes: the BLACK root (key 2) has
  a BLACK left child (key 1) and no right child.
\<close>

definition lopsided_tree :: "(int, int) rbtree" where
  "lopsided_tree =
     \<lparr>mem = [1 \<mapsto> \<lparr>key = 0, val = 0, color = BLACK, parent = 0, left = 0, right = 0\<rparr>,
             2 \<mapsto> \<lparr>key = 2, val = 20, color = BLACK, parent = 1, left = 3, right = 1\<rparr>,
             3 \<mapsto> \<lparr>key = 1, val = 10, color = BLACK, parent = 2, left = 1, right = 1\<rparr>],
      root = 2, NIL = 1, brk = 4, trace = []\<rparr>"

definition lopsided_abs :: "(int, int) tree" where
  "lopsided_abs = Node (Node Leaf 3 BLACK 1 10 Leaf) 2 BLACK 2 20 Leaf"

text \<open>
  The state after \<open>insert(1, 10); insert(2, 20); insert(3, 30)\<close> on a new tree, with an empty
  record of lock operations: the left rotation of the third call has made the second node
  (address 3) the root, above the first node (address 2) and the third (address 4).
\<close>

definition rotated_tree :: "(int, int) rbtree" where
  "rotated_tree =
     \<lparr>mem = [1 \<mapsto> \<lparr>key = 0, val = 0, color = BLACK, parent = 0, left = 0, right = 0\<rparr>,
             2 \<mapsto> \<lparr>key = 1, val = 10, color = RED, parent = 3, left = 1, right = 1\<rparr>,
             3 \<mapsto> \<lparr>key = 2, val = 20, color = BLACK, parent = 1, left = 2, right = 4\<rparr>,
             4 \<mapsto> \<lparr>key = 3, val = 30, color = RED, parent = 3, left = 1, right = 1\<rparr>],
      root = 3, NIL = 1, brk = 5, trace = []\<rparr>"

definition rotated_abs :: "(int, int) tree" where
  "rotated_abs = Node (Node Leaf 2 RED 1 10 Leaf) 3 BLACK 2 20 (Node Leaf 4 RED 3 30 Leaf)"

section \<open>Lock traces\<close>

subsection \<open>Basic facts about the primitive operations\<close>

lemma log_event_simps [simp]:
  "mem (log_event s e) = mem s" "root (log_event s e) = root s" "NIL (log_event s e) = NIL s"
  "brk (log_event s e) = brk s" "trace (log_event s e) = trace s @ [e]"
  by (simp_all add: log_event_def)














lemma new_node_simps [simp]:
  "fst (new_node s k v c) = brk s"
  "trace (snd (new_node s k v c)) = trace s"
  "root (snd (new_node s k v c)) = root s"
  "NIL (snd (new_node s k v c)) = NIL s"
  "brk (snd (new_node s k v c)) = Suc (brk s)"
  by (simp_all add: new_node_def)





lemma lock_all_live:
  "(\<forall>n\<in>set ns. mem s n \<noteq> None) \<Longrightarrow>
     lock_all s ns = Some (s\<lparr>trace := trace s @ map LockShared ns\<rparr>)"
proof (induction ns arbitrary: s)
  case Nil
  then show ?case by simp
next
  case (Cons n ns)
  from Cons.prems obtain a where a: "mem s n = Some a" by auto
  have "lock_all (log_event s (LockShared n)) ns =
          Some ((log_event s (LockShared n))\<lparr>trace := trace (log_event s (LockShared n)) @ map LockShared ns\<rparr>)"
    using Cons.prems by (intro Cons.IH) simp
  then show ?case using a by (simp add: lock_shared_def log_event_def)
qed

lemma unlock_all_live:
  "(\<forall>n\<in>set ns. mem s n \<noteq> None) \<Longrightarrow>
     unlock_all s ns = Some (s\<lparr>trace := trace s @ map UnlockShared ns\<rparr>)"
proof (induction ns arbitrary: s)
  case Nil
  then show ?case by simp
next
  case (Cons n ns)
  from Cons.prems obtain a where a: "mem s n = Some a" by auto
  have "unlock_all (log_event s (UnlockShared n)) ns =
          Some ((log_event s (UnlockShared n))\<lparr>trace := trace (log_event s (UnlockShared n)) @ map UnlockShared ns\<rparr>)"
    using Cons.prems by (intro Cons.IH) simp
  then show ?case using a by (simp add: unlock_shared_def log_event_def)
qed

lemma strict_sorted_remdups_adj:
  "sorted xs \<Longrightarrow> sorted_wrt (<) (remdups_adj (xs::nat list))"
proof (induction xs rule: remdups_adj.induct)
  case (3 x y xs)
  show ?case
  proof (cases "x = y")
    case True
    with 3 show ?thesis by simp
  next
    case False
    have "\<forall>z\<in>set (y # xs). x < z" using "3.prems" False by auto
    with 3 False show ?thesis by simp
  qed
qed simp_all

lemma guard_order:
  "sorted_wrt (<) (map lock_id (remdups_adj (sort_key lock_id nodes)))
   \<and> distinct (remdups_adj (sort_key lock_id nodes))
   \<and> set (remdups_adj (sort_key lock_id nodes)) = set nodes"
proof -
  have id: "lock_id = (\<lambda>x. x)" by (rule ext) (simp add: lock_id_def)
  have s: "sorted (sort_key (\<lambda>x. x) nodes)" using sorted_sort_key[of "\<lambda>x. x" nodes] by simp
  have "sorted_wrt (<) (remdups_adj (sort_key (\<lambda>x. x) nodes))"
    by (rule strict_sorted_remdups_adj[OF s])
  then show ?thesis unfolding id by (simp add: strict_sorted_iff)
qed

lemma OrderedLockGuard_live:
  assumes "\<forall>n\<in>set nodes. mem s n \<noteq> None"
  shows "OrderedLockGuard s nodes =
     Some (s\<lparr>trace := trace s @ map LockShared (remdups_adj (sort_key lock_id nodes))\<rparr>,
           remdups_adj (sort_key lock_id nodes))"
proof -
  have "\<forall>n\<in>set (remdups_adj (sort_key lock_id nodes)). mem s n \<noteq> None"
    using assms guard_order[of nodes] by simp
  from lock_all_live[OF this] show ?thesis by (simp add: OrderedLockGuard_def Let_def)
qed

text \<open>
  Claim C3.  \<open>UpgradeLock\<close> on the sentinel of a new tree: the constructor holds the mutex
  in shared mode; \<open>upgrade()\<close> is \<open>unlock_shared\<close> followed by \<open>lock_unique\<close>, and in the
  state between the two the thread holds the mutex in no mode.
\<close>

theorem upgrade_unlocked_window:
  "\<exists>s1 s2 s3. UpgradeLock (RBTree (0::int) (0::int)) 1 = Some s1 \<and>
      unlock_shared s1 1 = Some s2 \<and> lock_unique s2 1 = Some s3 \<and> upgrade s1 1 = Some s3 \<and>
      held (trace s1) = [1] \<and> held (trace s2) = [] \<and> held (trace s3) = [1]"
  by (simp add: UpgradeLock_def upgrade_def lock_shared_def unlock_shared_def lock_unique_def
      RBTree_def new_node_def log_event_def held_def)

text \<open>
  Claim C4.  Inserting key 2 into the tree that holds key 1 (node 2, the sentinel is node 1):
  the new node 3 becomes the right child of node 2, but the only exclusive lock the writer
  takes is on the sentinel's mutex; the shared lock on node 2 is released during the
  descent, before the link is written.
\<close>

theorem insert_upgrades_sentinel_lock:
  "do { s \<leftarrow> insert_rb (RBTree (0::int) (0::int)) 1 10;
        s' \<leftarrow> insert_rb (s\<lparr>trace := []\<rparr>) 2 20;
        Some (NIL s', root s', right_of s' 2, trace s') }
   = Some (1, 2, Some 3,
       [LockWriters, LockShared 2, LockShared 1, UnlockShared 2,
        UnlockShared 1, LockUnique 1, UnlockUnique 1, UnlockWriters])"
  by code_simp

section \<open>Frames of the representation\<close>

lemma frame_ok_refl [simp]: "frame_ok s s"
  by (simp add: frame_ok_def)

lemma frame_ok_trans: "frame_ok s s1 \<Longrightarrow> frame_ok s1 s2 \<Longrightarrow> frame_ok s s2"
  by (simp add: frame_ok_def)

lemma rep_frame:
  "(\<And>a. a \<in> set (addrs t) \<Longrightarrow> h' a = h a) \<Longrightarrow> rep h' nil par t = rep h nil par t"
  by (induction t arbitrary: par) auto

lemma rep_upd_other [simp]:
  "a \<notin> set (addrs t) \<Longrightarrow> rep (h(a := n)) nil par t = rep h nil par t"
  by (rule rep_frame) auto

lemma crep_frame:
  "(\<And>a. a \<in> set (caddrs fs) \<Longrightarrow> h' a = h a) \<Longrightarrow> crep h' nil fs p = crep h nil fs p"
proof (induction fs arbitrary: p)
  case Nil
  then show ?case by simp
next
  case (Cons f fs)
  have 1: "crep h' nil fs a = crep h nil fs a" for a
    by (rule Cons.IH) (simp add: Cons.prems)
  have 2: "rep h' nil a (fsib f) = rep h nil a (fsib f)" for a
    by (rule rep_frame) (simp add: Cons.prems)
  have 3: "h' (faddr f) = h (faddr f)" by (simp add: Cons.prems)
  show ?case using 1 2 3 by (cases f) simp_all
qed

lemma crep_upd_other [simp]:
  "a \<notin> set (caddrs fs) \<Longrightarrow> crep (h(a := n)) nil fs p = crep h nil fs p"
  by (rule crep_frame) auto

lemma ptr_in_addrs: "t \<noteq> Leaf \<Longrightarrow> ptr nil t \<in> set (addrs t)"
  by (cases t) auto

lemma ptr_cases: "ptr nil t = nil \<or> ptr nil t \<in> set (addrs t)"
  by (cases t) auto

text \<open>Moving the focus one level up.\<close>

lemma hrep_up: "hrep s (f # fs) t \<longleftrightarrow> hrep s fs (fill f t)"
  by (cases f) (auto simp: hrep_def)

lemma hrep_plug: "hrep s fs t \<longleftrightarrow> hrep s [] (plug fs t)"
  by (induction fs arbitrary: t) (simp_all add: hrep_up)

text \<open>Reading the node at the focus.\<close>

lemma hrep_Node_mem:
  "hrep s fs (Node l a c k v r) \<Longrightarrow>
     mem s a = Some \<lparr>key = k, val = v, color = c, parent = cpar (NIL s) fs,
                     left = ptr (NIL s) l, right = ptr (NIL s) r\<rparr>"
  by (simp add: hrep_def)

section \<open>Rotations\<close>

lemmas heap_defs = key_of_def val_of_def color_of_def parent_of_def left_of_def right_of_def
  set_val_def set_color_def set_parent_def set_left_def set_right_def

lemma hrep_set_color:
  assumes "hrep s fs (Node l a c k v r)"
  shows "\<exists>s'. set_color s a c' = Some s' \<and> hrep s' fs (Node l a c' k v r) \<and> frame_ok s s'"
  using assms by (auto simp: hrep_def heap_defs frame_ok_def)

lemma hrep_set_val:
  assumes "hrep s fs (Node l a c k v r)"
  shows "\<exists>s'. set_val s a v' = Some s' \<and> hrep s' fs (Node l a c k v' r) \<and> frame_ok s s'"
  using assms by (auto simp: hrep_def heap_defs frame_ok_def)

lemma cpar_eq_nil: "nil \<notin> set (caddrs fs) \<Longrightarrow> cpar nil fs = nil \<longleftrightarrow> fs = []"
  by (cases fs) auto

lemma ptr_notin_addrsD: "ptr nil t \<notin> set (addrs t) \<Longrightarrow> ptr nil t = nil"
  by (cases t) auto

lemma hrep_left_rotate_Cons:
  assumes "hrep s (f # fs') (Node al x cx kx vx (Node be y cy ky vy ga))"
  shows "ptr (NIL s) (fsib f) \<noteq> x"
proof -
  have ne: "fsib f \<noteq> Leaf \<Longrightarrow> ptr (NIL s) (fsib f) \<noteq> x"
    using assms by (cases "fsib f") (auto simp: hrep_def)
  have ne': "NIL s \<noteq> x" using assms by (auto simp: hrep_def)
  show nx: "ptr (NIL s) (fsib f) \<noteq> x"
    using ne ne' by (cases "fsib f") auto
qed

lemma the_SomeI: "f \<noteq> None \<Longrightarrow> P (the f) \<Longrightarrow> \<exists>s'. f = Some s' \<and> P s'"
  by auto

lemma hrep_left_rotate:
  assumes "hrep s fs (Node al x cx kx vx (Node be y cy ky vy ga))"
  shows "\<exists>s'. left_rotate s x = Some s' \<and>
           hrep s' fs (Node (Node al x cx kx vx be) y cy ky vy ga) \<and> frame_ok s s'"
proof (cases fs)
  case Nil
  with assms show ?thesis
    by (cases be)
      ((clarsimp simp: hrep_def), (simp add: left_rotate_def heap_defs frame_ok_def insert_absorb))+
next
  case (Cons f fs')
  show ?thesis
  proof (cases f)
    case (LF p pc pk pv pr)
    with Cons assms show ?thesis
      by (cases be)
        ((clarsimp simp: hrep_def), (simp add: left_rotate_def heap_defs frame_ok_def insert_absorb))+
  next
    case (RF pl p pc pk pv)
    with Cons assms show ?thesis
      by (cases be; cases pl)
        ((clarsimp simp: hrep_def), (simp add: left_rotate_def heap_defs frame_ok_def insert_absorb))+
  qed
qed

lemma hrep_right_rotate:
  assumes "hrep s fs (Node (Node al x cx kx vx be) y cy ky vy ga)"
  shows "\<exists>s'. right_rotate s y = Some s' \<and>
           hrep s' fs (Node al x cx kx vx (Node be y cy ky vy ga)) \<and> frame_ok s s'"
proof (cases fs)
  case Nil
  with assms show ?thesis
    by (cases be)
      ((clarsimp simp: hrep_def), (simp add: right_rotate_def heap_defs frame_ok_def insert_absorb))+
next
  case (Cons f fs')
  show ?thesis
  proof (cases f)
    case (RF pl p pc pk pv)
    with Cons assms show ?thesis
      by (cases be)
        ((clarsimp simp: hrep_def), (simp add: right_rotate_def heap_defs frame_ok_def insert_absorb))+
  next
    case (LF p pc pk pv pr)
    with Cons assms show ?thesis
      by (cases be; cases pr)
        ((clarsimp simp: hrep_def), (simp add: right_rotate_def heap_defs frame_ok_def insert_absorb))+
  qed
qed

section \<open>The steps of insert\_fixup\<close>

lemma ins_recolor_step_L:
  assumes h: "hrep s (p # LF ga gc gk gv (Node ul ua RED uk uv ur) # fs) (Node l z c k v r)"
    and p: "fcol p = RED"
    and K: "\<And>s'. hrep s' fs (Node (fill (fpaint BLACK p) (Node l z c k v r)) ga RED gk gv
                              (Node ul ua BLACK uk uv ur)) \<Longrightarrow> frame_ok s s'
               \<Longrightarrow> P (insert_fixup s' ga)"
  shows "P (insert_fixup s z)"
  apply (subst insert_fixup.simps)
  using h p
  apply (cases p)
   apply (clarsimp simp: hrep_def)
   apply (simp add: heap_defs grandparent_of_def)
   apply (rule K)
    apply (simp add: hrep_def heap_defs Int_Un_distrib Int_Un_distrib2 Int_commute)
   apply (simp add: frame_ok_def)
  apply (clarsimp simp: hrep_def)
  apply (simp add: heap_defs grandparent_of_def)
  apply (rule K)
   apply (simp add: hrep_def heap_defs Int_Un_distrib Int_Un_distrib2 Int_commute)
  apply (simp add: frame_ok_def)
  done

lemmas disj_simps = Int_Un_distrib Int_Un_distrib2 Int_commute

lemma left_rotate_cps:
  assumes "hrep s fs (Node al x cx kx vx (Node be y cy ky vy ga))"
    and "\<And>s'. hrep s' fs (Node (Node al x cx kx vx be) y cy ky vy ga) \<Longrightarrow> frame_ok s s'
           \<Longrightarrow> P (f s')"
  shows "P (left_rotate s x \<bind> f)"
  using hrep_left_rotate[OF assms(1)] assms(2) by auto

lemma right_rotate_cps:
  assumes "hrep s fs (Node (Node al x cx kx vx be) y cy ky vy ga)"
    and "\<And>s'. hrep s' fs (Node al x cx kx vx (Node be y cy ky vy ga)) \<Longrightarrow> frame_ok s s'
           \<Longrightarrow> P (f s')"
  shows "P (right_rotate s y \<bind> f)"
  using hrep_right_rotate[OF assms(1)] assms(2) by auto

lemma hrep_col_ptr:
  "hrep s fs t \<Longrightarrow> color_of s (ptr (NIL s) t) = Some (col t)"
  by (cases t) (auto simp: hrep_def heap_defs)

lemma hrep_sib_col:
  "hrep s (f # fs) t \<Longrightarrow> color_of s (ptr (NIL s) (fsib f)) = Some (col (fsib f))"
  by (cases f; cases "fsib f") (auto simp: hrep_def heap_defs)

lemma hrep_sib_ne:
  "hrep s (f # fs) t \<Longrightarrow> ptr (NIL s) (fsib f) \<noteq> faddr f"
  by (cases f; cases "fsib f") (auto simp: hrep_def heap_defs)

lemma hrep_sib_ne_focus:
  "hrep s (f # fs) (Node l z c k v r) \<Longrightarrow> ptr (NIL s) (fsib f) \<noteq> z"
  by (cases f; cases "fsib f") (auto simp: hrep_def heap_defs)

lemma ins_rotate_step_LL:
  assumes h: "hrep s (LF pa RED pk pv pr # LF ga gc gk gv u # fs) (Node l z c k v r)"
    and u: "col u = BLACK"
    and K: "\<And>s'. hrep s' (LF pa BLACK pk pv (Node pr ga RED gk gv u) # fs) (Node l z c k v r)
               \<Longrightarrow> frame_ok s s' \<Longrightarrow> P (insert_fixup s' z)"
  shows "P (insert_fixup s z)"
proof -
  have uc: "color_of s (ptr (NIL s) u) = Some BLACK"
    using hrep_sib_col[of s "LF ga gc gk gv u" fs "fill (LF pa RED pk pv pr) (Node l z c k v r)"] h u
    by (simp add: hrep_up)
  have une: "ptr (NIL s) u \<noteq> pa"
    using h by (cases u) (auto simp: hrep_def)
  have pne: "ptr (NIL s) pr \<noteq> z"
    using hrep_sib_ne_focus[OF h] by simp
  show ?thesis
    apply (subst insert_fixup.simps)
    using h uc une pne
    apply (clarsimp simp: hrep_def color_of_def)
    apply (simp add: heap_defs grandparent_of_def)
    apply (rule right_rotate_cps[where fs = fs and al = "Node l z c k v r" and x = pa and cx = BLACK
          and kx = pk and vx = pv and be = pr and cy = RED and ky = gk and vy = gv and ga = u])
     apply (simp add: hrep_def heap_defs disj_simps)
    apply (rule K)
     apply (simp add: hrep_up)
    apply (erule frame_ok_trans[rotated])
    apply (simp add: frame_ok_def)
    done
qed

lemma ins_rotate_step_RR:
  assumes h: "hrep s (RF pl pa RED pk pv # RF u ga gc gk gv # fs) (Node l z c k v r)"
    and u: "col u = BLACK"
    and K: "\<And>s'. hrep s' (RF (Node u ga RED gk gv pl) pa BLACK pk pv # fs) (Node l z c k v r)
               \<Longrightarrow> frame_ok s s' \<Longrightarrow> P (insert_fixup s' z)"
  shows "P (insert_fixup s z)"
proof -
  have uc: "color_of s (ptr (NIL s) u) = Some BLACK"
    using hrep_sib_col[of s "RF u ga gc gk gv" fs "fill (RF pl pa RED pk pv) (Node l z c k v r)"] h u
    by (simp add: hrep_up)
  have une: "ptr (NIL s) u \<noteq> pa"
    using h by (cases u) (auto simp: hrep_def)
  have pne: "ptr (NIL s) pl \<noteq> z"
    using hrep_sib_ne_focus[OF h] by simp
  show ?thesis
    apply (subst insert_fixup.simps)
    using h uc une pne
    apply (clarsimp simp: hrep_def color_of_def)
    apply (simp add: heap_defs grandparent_of_def)
    apply (rule left_rotate_cps[where fs = fs and ga = "Node l z c k v r" and y = pa and cy = BLACK
          and ky = pk and vy = pv and be = pl and cx = RED and kx = gk and vx = gv and al = u])
     apply (simp add: hrep_def heap_defs disj_simps)
    apply (rule K)
     apply (simp add: hrep_up)
    apply (erule frame_ok_trans[rotated])
    apply (simp add: frame_ok_def)
    done
qed

lemma ins_rotate_step_LR:
  assumes h: "hrep s (RF pl pa RED pk pv # LF ga gc gk gv u # fs) (Node zl z zc zk zv zr)"
    and u: "col u = BLACK"
    and K: "\<And>s'. hrep s' (LF z BLACK zk zv (Node zr ga RED gk gv u) # fs) (Node pl pa RED pk pv zl)
               \<Longrightarrow> frame_ok s s' \<Longrightarrow> P (insert_fixup s' pa)"
  shows "P (insert_fixup s z)"
proof -
  have uc: "color_of s (ptr (NIL s) u) = Some BLACK"
    using hrep_sib_col[of s "LF ga gc gk gv u" fs "fill (RF pl pa RED pk pv) (Node zl z zc zk zv zr)"] h u
    by (simp add: hrep_up)
  have une: "ptr (NIL s) u \<noteq> pa"
    using h by (cases u) (auto simp: hrep_def)
  show ?thesis
    apply (subst insert_fixup.simps)
    using h uc une
    apply (clarsimp simp: hrep_def color_of_def)
    apply (simp add: heap_defs grandparent_of_def)
    apply (rule left_rotate_cps[where fs = "LF ga gc gk gv u # fs" and al = pl and x = pa and cx = RED
          and kx = pk and vx = pv and be = zl and y = z and cy = zc and ky = zk and vy = zv and ga = zr])
     apply (simp add: hrep_def heap_defs disj_simps)
    subgoal for n1 n2 s1
      apply (thin_tac "mem s _ = _")+
      apply (thin_tac "rep (mem s) _ _ _")+
      apply (thin_tac "crep (mem s) _ _ _")
      apply (clarsimp simp: hrep_def color_of_def)
      apply (rule right_rotate_cps[where fs = fs and al = "Node pl pa RED pk pv zl" and x = z
            and cx = BLACK and kx = zk and vx = zv and be = zr and cy = RED and ky = gk and vy = gv
            and ga = u])
       apply (simp add: hrep_def heap_defs disj_simps)
      apply (rule K)
       apply (simp add: hrep_up)
      apply (erule frame_ok_trans[rotated])
      apply (erule frame_ok_trans)
      apply (simp add: frame_ok_def)
      done
    done
qed

lemma ins_rotate_step_RL:
  assumes h: "hrep s (LF pa RED pk pv pr # RF u ga gc gk gv # fs) (Node zl z zc zk zv zr)"
    and u: "col u = BLACK"
    and K: "\<And>s'. hrep s' (RF (Node u ga RED gk gv zl) z BLACK zk zv # fs) (Node zr pa RED pk pv pr)
               \<Longrightarrow> frame_ok s s' \<Longrightarrow> P (insert_fixup s' pa)"
  shows "P (insert_fixup s z)"
proof -
  have uc: "color_of s (ptr (NIL s) u) = Some BLACK"
    using hrep_sib_col[of s "RF u ga gc gk gv" fs "fill (LF pa RED pk pv pr) (Node zl z zc zk zv zr)"] h u
    by (simp add: hrep_up)
  have une: "ptr (NIL s) u \<noteq> pa"
    using h by (cases u) (auto simp: hrep_def)
  show ?thesis
    apply (subst insert_fixup.simps)
    using h uc une
    apply (clarsimp simp: hrep_def color_of_def)
    apply (simp add: heap_defs grandparent_of_def)
    apply (rule right_rotate_cps[where fs = "RF u ga gc gk gv # fs" and ga = pr and y = pa and cy = RED
          and ky = pk and vy = pv and be = zr and x = z and cx = zc and kx = zk and vx = zv and al = zl])
     apply (simp add: hrep_def heap_defs disj_simps)
    subgoal for n1 n2 s1
      apply (thin_tac "mem s _ = _")+
      apply (thin_tac "rep (mem s) _ _ _")+
      apply (thin_tac "crep (mem s) _ _ _")
      apply (clarsimp simp: hrep_def color_of_def)
      apply (rule left_rotate_cps[where fs = fs and ga = "Node zr pa RED pk pv pr" and y = z
            and cy = BLACK and ky = zk and vy = zv and be = zl and cx = RED and kx = gk and vx = gv
            and al = u])
       apply (simp add: hrep_def heap_defs disj_simps)
      apply (rule K)
       apply (simp add: hrep_up)
      apply (erule frame_ok_trans[rotated])
      apply (erule frame_ok_trans)
      apply (simp add: frame_ok_def)
      done
    done
qed

lemma ins_recolor_step_R:
  assumes h: "hrep s (p # RF (Node ul ua RED uk uv ur) ga gc gk gv # fs) (Node l z c k v r)"
    and p: "fcol p = RED"
    and K: "\<And>s'. hrep s' fs (Node (Node ul ua BLACK uk uv ur) ga RED gk gv
                              (fill (fpaint BLACK p) (Node l z c k v r))) \<Longrightarrow> frame_ok s s'
               \<Longrightarrow> P (insert_fixup s' ga)"
  shows "P (insert_fixup s z)"
  apply (subst insert_fixup.simps)
  using h p
  apply (cases p)
   apply (clarsimp simp: hrep_def)
   apply (simp add: heap_defs grandparent_of_def)
   apply (rule K)
    apply (simp add: hrep_def heap_defs disj_simps)
   apply (simp add: frame_ok_def)
  apply (clarsimp simp: hrep_def)
  apply (simp add: heap_defs grandparent_of_def)
  apply (rule K)
   apply (simp add: hrep_def heap_defs disj_simps)
  apply (simp add: frame_ok_def)
  done

lemma plug_Node_ex:
  "\<exists>l' a' c' k' v' r'. plug fs (Node l a c k v r) = Node l' a' c' k' v' r'"
proof (induction fs arbitrary: l a c k v r)
  case Nil
  then show ?case by simp
next
  case (Cons f fs)
  then show ?case by (cases f) simp_all
qed

lemma hrep_root_paint:
  assumes h: "hrep s fs (Node l a c k v r)"
    and K: "\<And>s'. hrep s' [] (paint BLACK (plug fs (Node l a c k v r))) \<Longrightarrow> frame_ok s s'
               \<Longrightarrow> P (Some s')"
  shows "P (set_color s (root s) BLACK)"
proof -
  obtain l' a' c' k' v' r' where pl: "plug fs (Node l a c k v r) = Node l' a' c' k' v' r'"
    using plug_Node_ex[of fs l a c k v r] by blast
  from h have h': "hrep s [] (Node l' a' c' k' v' r')"
    using hrep_plug pl by metis
  then have r: "root s = a'" by (simp add: hrep_def)
  from hrep_set_color[OF h', of BLACK] obtain s' where
    "set_color s a' BLACK = Some s'" "hrep s' [] (Node l' a' BLACK k' v' r')" "frame_ok s s'"
    by blast
  with K pl r show ?thesis by simp
qed

lemma ins_exit_Nil:
  assumes h: "hrep s [] (Node l z c k v r)"
    and K: "\<And>s'. hrep s' [] (Node l z BLACK k v r) \<Longrightarrow> frame_ok s s' \<Longrightarrow> P (Some s')"
  shows "P (insert_fixup s z)"
proof -
  have e: "insert_fixup s z = set_color s (root s) BLACK"
    apply (subst insert_fixup.simps)
    using h
    apply (clarsimp simp: hrep_def color_of_def)
    apply (simp add: heap_defs)
    done
  show ?thesis unfolding e
    by (rule hrep_root_paint[OF h]) (simp add: K)
qed

lemma ins_exit_black:
  assumes h: "hrep s (p # fs) (Node l z c k v r)"
    and p: "fcol p = BLACK"
    and K: "\<And>s'. hrep s' [] (paint BLACK (plug (p # fs) (Node l z c k v r))) \<Longrightarrow> frame_ok s s'
               \<Longrightarrow> P (Some s')"
  shows "P (insert_fixup s z)"
proof -
  have e: "insert_fixup s z = set_color s (root s) BLACK"
    apply (subst insert_fixup.simps)
    using h p
    apply (cases p)
     apply (clarsimp simp: hrep_def color_of_def)
     apply (simp add: heap_defs)
    apply (clarsimp simp: hrep_def color_of_def)
    apply (simp add: heap_defs)
    done
  show ?thesis unfolding e
    by (rule hrep_root_paint[OF h]) (rule K)
qed

section \<open>insert\_fixup on a tree\<close>

lemma yields_Some [simp]: "yields (Some x) Q \<longleftrightarrow> Q x"
  by (simp add: yields_def)

lemma yields_None [simp]: "\<not> yields None Q"
  by (simp add: yields_def)

lemma yields_mono: "yields r Q \<Longrightarrow> (\<And>x. Q x \<Longrightarrow> Q' x) \<Longrightarrow> yields r Q'"
  by (auto simp: yields_def)

lemma col_RED_Node: "col t = RED \<Longrightarrow> \<exists>l a k v r. t = Node l a RED k v r"
  by (cases t) auto

theorem insert_fixup_refine:
  assumes "hrep s fs t" and "t \<noteq> Leaf" and "fs \<noteq> [] \<Longrightarrow> fcol (last fs) = BLACK"
  shows "yields (insert_fixup s (ptr (NIL s) t))
           (\<lambda>s'. hrep s' [] (paint BLACK (ins_fix fs t)) \<and> frame_ok s s')"
  using assms
proof (induction fs t arbitrary: s rule: ins_fix.induct[case_names rec nil single])
  case (rec p g fs t)
  from \<open>t \<noteq> Leaf\<close> obtain l z c k v r where t: "t = Node l z c k v r" by (cases t) auto
  note h = rec.prems(1)[unfolded t]
  have last': "fs \<noteq> [] \<Longrightarrow> fcol (last fs) = BLACK" using rec.prems(3) by simp
  define T where "T = paint BLACK (ins_fix (p # g # fs) t)"
  define P where "P = (\<lambda>r. yields r (\<lambda>s'. hrep s' [] T \<and> frame_ok s s'))"
  have exit: "P (insert_fixup s1 z1)"
    if "hrep s1 (p1 # fs1) (Node l1 z1 c1 k1 v1 r1)" "fcol p1 = BLACK" "frame_ok s s1"
      "paint BLACK (plug (p1 # fs1) (Node l1 z1 c1 k1 v1 r1)) = T" for s1 p1 fs1 l1 z1 c1 k1 v1 r1
    apply (rule ins_exit_black[OF that(1,2)])
    unfolding P_def using that(3,4) by (auto dest: frame_ok_trans)
  have "P (insert_fixup s z)"
  proof (cases "fcol p")
    case BLACK
    show ?thesis
      by (rule exit[OF h BLACK]) (use BLACK in \<open>simp_all add: T_def t\<close>)
  next
    case RED
    show ?thesis
    proof (cases "col (fsib g)")
      case uRED: RED
      from col_RED_Node[OF uRED] obtain ul ua uk uv ur where u: "fsib g = Node ul ua RED uk uv ur"
        by blast
      define t' where "t' = fill (fpaint RED (sibpaint BLACK g)) (fill (fpaint BLACK p) t)"
      have t'ne: "t' \<noteq> Leaf" unfolding t'_def by (cases g) auto
      have fixeq: "T = paint BLACK (ins_fix fs t')"
        using RED uRED by (simp add: t'_def T_def)
      have IH: "P (insert_fixup s' (ptr (NIL s') t'))" if "hrep s' fs t'" "frame_ok s s'" for s'
        using rec.IH[OF RED uRED, of s'] t'ne last' that unfolding t'_def[symmetric] P_def fixeq
        by (auto simp: yields_def dest: frame_ok_trans)
      show ?thesis
      proof (cases g)
        case (LF ga gc gk gv u')
        with u have g: "g = LF ga gc gk gv (Node ul ua RED uk uv ur)" by simp
        have t'': "t' = Node (fill (fpaint BLACK p) (Node l z c k v r)) ga RED gk gv
                              (Node ul ua BLACK uk uv ur)"
          unfolding t'_def g t by simp
        show ?thesis
          apply (rule ins_recolor_step_L[OF h[unfolded g] RED])
          subgoal for s'
            using IH[of s'] unfolding t'' by simp
          done
      next
        case (RF u' ga gc gk gv)
        with u have g: "g = RF (Node ul ua RED uk uv ur) ga gc gk gv" by simp
        have t'': "t' = Node (Node ul ua BLACK uk uv ur) ga RED gk gv
                              (fill (fpaint BLACK p) (Node l z c k v r))"
          unfolding t'_def g t by simp
        show ?thesis
          apply (rule ins_recolor_step_R[OF h[unfolded g] RED])
          subgoal for s'
            using IH[of s'] unfolding t'' by simp
          done
      qed
    next
      case uBLACK: BLACK
      have fixeq: "T = paint BLACK (plug fs (ins_rot p g t))"
        using RED uBLACK by (simp add: T_def)
      show ?thesis
      proof (cases g)
        case g: (LF ga gc gk gv u)
        have ub: "col u = BLACK" using uBLACK g by simp
        show ?thesis
        proof (cases p)
          case p: (LF pa pc pk pv pr)
          have pc: "pc = RED" using RED p by simp
          show ?thesis
            apply (rule ins_rotate_step_LL[OF h[unfolded g p pc] ub])
            apply (erule exit)
            by (simp_all add: fixeq p g t)
        next
          case p: (RF pl pa pc pk pv)
          have pc: "pc = RED" using RED p by simp
          show ?thesis
            apply (rule ins_rotate_step_LR[OF h[unfolded g p pc] ub])
            apply (erule exit)
            by (simp_all add: fixeq p g t pc)
        qed
      next
        case g: (RF u ga gc gk gv)
        have ub: "col u = BLACK" using uBLACK g by simp
        show ?thesis
        proof (cases p)
          case p: (RF pl pa pc pk pv)
          have pc: "pc = RED" using RED p by simp
          show ?thesis
            apply (rule ins_rotate_step_RR[OF h[unfolded g p pc] ub])
            apply (erule exit)
            by (simp_all add: fixeq p g t)
        next
          case p: (LF pa pc pk pv pr)
          have pc: "pc = RED" using RED p by simp
          show ?thesis
            apply (rule ins_rotate_step_RL[OF h[unfolded g p pc] ub])
            apply (erule exit)
            by (simp_all add: fixeq p g t pc)
        qed
      qed
    qed
  qed
  then show ?case unfolding P_def T_def t by simp
next
  case (nil t)
  from \<open>t \<noteq> Leaf\<close> obtain l z c k v r where t: "t = Node l z c k v r" by (cases t) auto
  show ?case unfolding t
    apply (simp only: ptr.simps)
    apply (rule ins_exit_Nil[OF nil.prems(1)[unfolded t]])
    apply simp
    done
next
  case (single p t)
  from \<open>t \<noteq> Leaf\<close> obtain l z c k v r where t: "t = Node l z c k v r" by (cases t) auto
  have b: "fcol p = BLACK" using single.prems(3) by simp
  show ?case unfolding t
    apply (simp only: ptr.simps)
    apply (rule ins_exit_black[OF single.prems(1)[unfolded t] b])
    apply simp
    done
qed

section \<open>The descent of insert\<close>

lemma untouched_refl [simp]: "untouched s s"
  by (simp add: untouched_def)

lemma untouched_log [simp]: "untouched s (log_event s' e) = untouched s s'"
  by (simp add: untouched_def)

lemma hrep_log_event [simp]: "hrep (log_event s e) fs t = hrep s fs t"
  by (simp add: hrep_def heap_defs)

lemma hrep_untouched: "untouched s s' \<Longrightarrow> hrep s' fs t = hrep s fs t"
  by (simp add: hrep_def heap_defs untouched_def)

lemma hrep_ptr_live: "hrep s fs t \<Longrightarrow> mem s (ptr (NIL s) t) \<noteq> None"
  by (cases t) (auto simp: hrep_def heap_defs)

lemma insert_loop_refine:
  assumes "hrep s fs t"
    and KL: "\<And>s' fs'. descend k fs t = (fs', Leaf) \<Longrightarrow> hrep s' fs' Leaf \<Longrightarrow> untouched s s'
               \<Longrightarrow> P (insert_link s' z (cpar (NIL s') fs') (NIL s'))"
    and KD: "\<And>s' fs' l x c v' r. descend k fs t = (fs', Node l x c k v' r)
               \<Longrightarrow> hrep s' fs' (Node l x c k v' r) \<Longrightarrow> untouched s s'
               \<Longrightarrow> P (do { s \<leftarrow> upgrade s' x; s \<leftarrow> set_val s x v; s \<leftarrow> delete_node s z;
                          s \<leftarrow> unlock_unique s x; unlock_writers s })"
  shows "P (insert_loop s k v z (cpar (NIL s) fs) (ptr (NIL s) t))"
  using assms
proof (induction t arbitrary: s fs)
  case Leaf
  show ?case
    apply (subst insert_loop.simps)
    using Leaf.prems(2)[where s' = s and fs' = fs] Leaf.prems(1) by simp
next
  case (Node l a c k' v' r)
  note h = Node.prems(1)
  have ne: "a \<noteq> NIL s" using h by (auto simp: hrep_def)
  have ma: "mem s a = Some \<lparr>key = k', val = v', color = c, parent = cpar (NIL s) fs,
                     left = ptr (NIL s) l, right = ptr (NIL s) r\<rparr>"
    using hrep_Node_mem[OF h] .
  consider (lt) "k < k'" | (gt) "\<not> k < k'" "k' < k" | (eq) "k = k'" by fastforce
  then show ?case
  proof cases
    case lt
    have h': "hrep s (LF a c k' v' r # fs) l" using h by (simp add: hrep_up)
    from hrep_ptr_live[OF h'] obtain n where n: "mem s (ptr (NIL s) l) = Some n" by auto
    define s2 where "s2 = log_event (log_event s (LockShared (ptr (NIL s) l))) (UnlockShared a)"
    have h2: "hrep s2 (LF a c k' v' r # fs) l" unfolding s2_def using h' by simp
    have u2: "untouched s s2" unfolding s2_def by simp
    have "P (insert_loop s2 k v z (cpar (NIL s2) (LF a c k' v' r # fs)) (ptr (NIL s2) l))"
      apply (rule Node.IH(1)[OF h2])
      subgoal
        apply (rule Node.prems(2))
        using lt u2 by (simp_all add: untouched_def)
      subgoal
        apply (rule Node.prems(3))
        using lt u2 by (simp_all add: untouched_def)
      done
    then show ?thesis
      apply (subst insert_loop.simps)
      using ne ma lt n
      by (simp add: heap_defs UpgradeLock_def lock_shared_def unlock_shared_def s2_def)
  next
    case gt
    have h': "hrep s (RF l a c k' v' # fs) r" using h by (simp add: hrep_up)
    from hrep_ptr_live[OF h'] obtain n where n: "mem s (ptr (NIL s) r) = Some n" by auto
    define s2 where "s2 = log_event (log_event s (LockShared (ptr (NIL s) r))) (UnlockShared a)"
    have h2: "hrep s2 (RF l a c k' v' # fs) r" unfolding s2_def using h' by simp
    have u2: "untouched s s2" unfolding s2_def by simp
    have "P (insert_loop s2 k v z (cpar (NIL s2) (RF l a c k' v' # fs)) (ptr (NIL s2) r))"
      apply (rule Node.IH(2)[OF h2])
      subgoal
        apply (rule Node.prems(2))
        using gt u2 by (simp_all add: untouched_def)
      subgoal
        apply (rule Node.prems(3))
        using gt u2 by (simp_all add: untouched_def)
      done
    then show ?thesis
      apply (subst insert_loop.simps)
      using ne ma gt n
      by (simp add: heap_defs UpgradeLock_def lock_shared_def unlock_shared_def s2_def)
  next
    case eq
    show ?thesis
      apply (subst insert_loop.simps)
      using ne ma eq Node.prems(3)[where s' = s and fs' = fs and l = l and x = a and c = c and v' = v' and r = r] h
      by (simp add: heap_defs)
  qed
qed

section \<open>insert on a tree\<close>

lemma descend_dir_ok:
  "descend k fs t = (fs', t') \<Longrightarrow> list_all (dir_ok k) fs \<Longrightarrow> list_all (dir_ok k) fs'"
  by (induction t arbitrary: fs) (auto split: if_splits)

lemma descend_last:
  "descend k fs t = (fs', t') \<Longrightarrow> fs \<noteq> [] \<Longrightarrow> fs' \<noteq> [] \<and> last fs' = last fs"
  by (induction t arbitrary: fs) (auto split: if_splits)

lemma descend_last_col:
  "descend k [] t = (fs', t') \<Longrightarrow> fs' \<noteq> [] \<Longrightarrow> fcol (last fs') = col t"
  by (cases t) (auto split: if_splits dest: descend_last)

lemma descend_plug: "descend k fs t = (fs', t') \<Longrightarrow> plug fs' t' = plug fs t"
  by (induction t arbitrary: fs) (auto split: if_splits)

lemma descend_key:
  "descend k fs t = (fs', Node l x c k' v' r) \<Longrightarrow> k' = k"
  by (induction t arbitrary: fs) (auto split: if_splits)

lemma hrep_nil_live: "hrep s fs t \<Longrightarrow> \<exists>n. mem s (NIL s) = Some n \<and> color n = BLACK"
  by (auto simp: hrep_def heap_defs)

lemma insert_link_refine:
  assumes h: "hrep s fs Leaf"
    and z: "mem s z = Some \<lparr>key = k, val = v, color = RED, parent = NIL s,
                             left = NIL s, right = NIL s\<rparr>"
    and zn: "z \<notin> set (caddrs fs)" "z \<noteq> NIL s"
    and d: "list_all (dir_ok k) fs"
    and b: "fs \<noteq> [] \<Longrightarrow> fcol (last fs) = BLACK"
  shows "yields (insert_link s z (cpar (NIL s) fs) (NIL s))
           (\<lambda>s'. hrep s' [] (paint BLACK (ins_fix fs (Node Leaf z RED k v Leaf)))
                \<and> NIL s' = NIL s \<and> brk s' = brk s \<and> mem s' (NIL s) = mem s (NIL s)
                \<and> (\<forall>a. mem s' a = None \<longleftrightarrow> mem s a = None)
                \<and> trace s' = trace s @ [UnlockShared (NIL s), LockUnique (NIL s),
                                         UnlockUnique (NIL s), UnlockWriters])"
proof -
  from hrep_nil_live[OF h] obtain nn where nn: "mem s (NIL s) = Some nn" "color nn = BLACK"
    by blast
  define s0 where "s0 = log_event (log_event s (UnlockShared (NIL s))) (LockUnique (NIL s))"
  have up: "upgrade s (NIL s) = Some s0"
    using nn by (simp add: upgrade_def unlock_shared_def lock_unique_def s0_def)
  have "\<exists>s1. (do { sa \<leftarrow> set_parent s0 z (cpar (NIL s) fs);
                   (if cpar (NIL s) fs = NIL sa then Some (sa\<lparr>root := z\<rparr>)
                    else do {
                      zk \<leftarrow> key_of sa z;
                      yk \<leftarrow> key_of sa (cpar (NIL s) fs);
                      if zk < yk then set_left sa (cpar (NIL s) fs) z
                      else set_right sa (cpar (NIL s) fs) z
                    }) }) = Some s1
          \<and> hrep s1 fs (Node Leaf z RED k v Leaf) \<and> frame_ok s0 s1"
  proof (cases fs)
    case Nil
    then show ?thesis
      using h z zn nn
      by (clarsimp simp: hrep_def s0_def heap_defs frame_ok_def)
  next
    case (Cons f fs')
    show ?thesis
    proof (cases f)
      case (LF a c yk yv r)
      show ?thesis
        using h z zn nn d unfolding Cons LF
        apply (clarsimp simp: hrep_def s0_def color_of_def)
        apply (simp add: heap_defs frame_ok_def)
        done
    next
      case (RF l a c yk yv)
      have nk: "\<not> k < yk" using d unfolding Cons RF by auto
      show ?thesis
        using h z zn nn nk unfolding Cons RF
        apply (clarsimp simp: hrep_def s0_def color_of_def)
        apply (simp add: heap_defs frame_ok_def)
        done
    qed
  qed
  then obtain s1 where s1: "(do { sa \<leftarrow> set_parent s0 z (cpar (NIL s) fs);
                   (if cpar (NIL s) fs = NIL sa then Some (sa\<lparr>root := z\<rparr>)
                    else do {
                      zk \<leftarrow> key_of sa z;
                      yk \<leftarrow> key_of sa (cpar (NIL s) fs);
                      if zk < yk then set_left sa (cpar (NIL s) fs) z
                      else set_right sa (cpar (NIL s) fs) z
                    }) }) = Some s1"
    and h1: "hrep s1 fs (Node Leaf z RED k v Leaf)" and f1: "frame_ok s0 s1"
    by blast
  from insert_fixup_refine[OF h1 _ b] obtain s2 where
    s2: "insert_fixup s1 z = Some s2"
    and h2: "hrep s2 [] (paint BLACK (ins_fix fs (Node Leaf z RED k v Leaf)))"
    and f2: "frame_ok s1 s2"
    by (auto simp: yields_def)
  have n1: "NIL s1 = NIL s" and n2: "NIL s2 = NIL s"
    using f1 f2 by (simp_all add: frame_ok_def s0_def)
  have m2: "mem s2 (NIL s) = Some nn"
    using f1 f2 nn by (simp add: frame_ok_def s0_def)
  have nil0: "NIL s0 = NIL s" by (simp add: s0_def)
  show ?thesis
    unfolding insert_link_def
    apply (simp only: up bind.bind_lunit)
    apply (subst (1) bind_assoc[symmetric])
    apply (simp only: s1 bind.bind_lunit)
    using s2 m2 n2 f1 f2 h2 nn(1)
    apply (simp add: unlock_unique_def unlock_writers_def frame_ok_def s0_def)
    done
qed

lemma addrs_plug: "set (addrs (plug fs t)) = set (addrs t) \<union> set (caddrs fs)"
proof (induction fs arbitrary: t)
  case Nil
  then show ?case by simp
next
  case (Cons f fs)
  show ?case by (cases f) (auto simp: Cons.IH)
qed

lemma rep_live: "rep h nil par t \<Longrightarrow> a \<in> set (addrs t) \<Longrightarrow> h a \<noteq> None"
  by (induction t arbitrary: par) auto

lemma hrep_live: "hrep s [] t \<Longrightarrow> a \<in> set (addrs t) \<Longrightarrow> mem s a \<noteq> None"
  by (auto simp: hrep_def dest: rep_live)

lemma hrep_delete_other:
  "hrep s fs t \<Longrightarrow> z \<notin> set (addrs t) \<Longrightarrow> z \<notin> set (caddrs fs) \<Longrightarrow> z \<noteq> NIL s
     \<Longrightarrow> hrep (s\<lparr>mem := (mem s)(z := None)\<rparr>) fs t"
  by (simp add: hrep_def heap_defs)

lemma hrep_add_other:
  "hrep s fs t \<Longrightarrow> z \<notin> set (addrs t) \<Longrightarrow> z \<notin> set (caddrs fs) \<Longrightarrow> z \<noteq> NIL s
     \<Longrightarrow> hrep (s\<lparr>brk := b, mem := (mem s)(z \<mapsto> n), trace := tr\<rparr>) fs t"
  by (simp add: hrep_def heap_defs)

theorem insert_rb_refine:
  assumes h: "hrep s [] t" and f: "fresh s" and b: "col t = BLACK"
  shows "yields (insert_rb s k v)
           (\<lambda>s'. hrep s' [] (ins_tree (brk s) k v t) \<and> fresh s' \<and> NIL s' = NIL s
                \<and> brk s' = Suc (brk s) \<and> mem s' (NIL s) = mem s (NIL s))"
proof -
  define z where "z = brk s"
  from hrep_nil_live[OF h] obtain nn where nn: "mem s (NIL s) = Some nn" "color nn = BLACK"
    by blast
  have zd: "mem s z = None" using f by (simp add: fresh_def z_def)
  have zn: "z \<noteq> NIL s" using zd nn by auto
  have zt: "z \<notin> set (addrs t)" using hrep_live[OF h] zd by blast
  have rt: "root s = ptr (NIL s) t" using h by (simp add: hrep_def)
  have rl: "mem s (root s) \<noteq> None" unfolding rt using hrep_ptr_live[OF h] .
  define s1 where "s1 = s\<lparr>brk := Suc (brk s),
                          mem := (mem s)(z \<mapsto> \<lparr>key = k, val = v, color = RED, parent = NIL s,
                             left = NIL s, right = NIL s\<rparr>),
                          trace := trace s @ [LockWriters, LockShared (root s)]\<rparr>"
  have h1: "hrep s1 [] t" unfolding s1_def by (rule hrep_add_other[OF h zt _ zn]) simp
  have pre: "insert_rb s k v = insert_loop s1 k v z (NIL s1) (ptr (NIL s1) t)"
    using rl zn rt[symmetric]
    by (auto simp: insert_rb_def lock_writers_def new_node_def heap_defs UpgradeLock_def
        lock_shared_def log_event_def s1_def z_def)
  define Q where "Q = (\<lambda>s'. hrep s' [] (ins_tree (brk s) k v t) \<and> fresh s' \<and> NIL s' = NIL s
                \<and> brk s' = Suc (brk s) \<and> mem s' (NIL s) = mem s (NIL s))"
  define P where "P = (\<lambda>r. yields r Q)"
  have "P (insert_loop s1 k v z (NIL s1) (ptr (NIL s1) t))"
  proof (rule insert_loop_refine[OF h1, where P = P and k = k and v = v and z = z, simplified])
    fix s' fs'
    assume d: "descend k [] t = (fs', Leaf)" and h': "hrep s' fs' Leaf" and u: "untouched s1 s'"
    have zc: "z \<notin> set (caddrs fs')"
      using zt addrs_plug[of fs' Leaf] descend_plug[OF d] by simp
    have m: "mem s' z = Some \<lparr>key = k, val = v, color = RED, parent = NIL s',
                             left = NIL s', right = NIL s'\<rparr>"
      using u by (simp add: untouched_def s1_def)
    have zn': "z \<noteq> NIL s'" using u zn by (simp add: untouched_def s1_def)
    have dk: "list_all (dir_ok k) fs'" using descend_dir_ok[OF d] by simp
    have bl: "fs' \<noteq> [] \<Longrightarrow> fcol (last fs') = BLACK" using descend_last_col[OF d] b by simp
    have it: "ins_tree (brk s) k v t = paint BLACK (ins_fix fs' (Node Leaf z RED k v Leaf))"
      by (simp add: ins_tree_def d z_def)
    show "P (insert_link s' z (cpar (NIL s') fs') (NIL s'))"
      unfolding P_def
      apply (rule yields_mono[OF insert_link_refine[OF h' m zc zn' dk bl]])
      using u f zn unfolding Q_def it
      by (auto simp: untouched_def s1_def fresh_def z_def)
  next
    fix s' fs' l x c v' r
    assume d: "descend k [] t = (fs', Node l x c k v' r)"
      and h': "hrep s' fs' (Node l x c k v' r)" and u: "untouched s1 s'"
    have it: "ins_tree (brk s) k v t = plug fs' (Node l x c k v r)"
      by (simp add: ins_tree_def d)
    have pl: "plug fs' (Node l x c k v' r) = t" using descend_plug[OF d] by simp
    have zc: "z \<notin> set (caddrs fs')" "z \<notin> set (addrs (Node l x c k v' r))"
      using zt addrs_plug[of fs' "Node l x c k v' r"] unfolding pl by auto
    have zn': "z \<noteq> NIL s'" using u zn by (simp add: untouched_def s1_def)
    have xz: "x \<noteq> z" using zc(2) by simp
    have xn: "x \<noteq> NIL s'" using h' by (simp add: hrep_def)
    have mx: "mem s' x = Some \<lparr>key = k, val = v', color = c, parent = cpar (NIL s') fs',
                     left = ptr (NIL s') l, right = ptr (NIL s') r\<rparr>"
      using hrep_Node_mem[OF h'] .
    have mz: "mem s' z \<noteq> None" using u by (simp add: untouched_def s1_def)
    have xs: "mem s x \<noteq> None" using mx u xz by (simp add: untouched_def s1_def)
    define sF where "sF = s'\<lparr>mem := (mem s')(x \<mapsto> \<lparr>key = k, val = v, color = c,
                     parent = cpar (NIL s') fs', left = ptr (NIL s') l, right = ptr (NIL s') r\<rparr>,
                     z := None),
                   trace := trace s' @ [UnlockShared x, LockUnique x, UnlockUnique x, UnlockWriters]\<rparr>"
    have run: "(do { s \<leftarrow> upgrade s' x; s \<leftarrow> set_val s x v; s \<leftarrow> delete_node s z;
                  s \<leftarrow> unlock_unique s x; unlock_writers s }) = Some sF"
      using mx mz xz
      by (auto simp: upgrade_def unlock_shared_def lock_unique_def heap_defs delete_node_def
          unlock_unique_def unlock_writers_def log_event_def sF_def)
    have hF: "hrep sF fs' (Node l x c k v r)"
      using h' zc zn' xz unfolding sF_def
      apply (clarsimp simp: hrep_def color_of_def)
      done
    show "P (do { s \<leftarrow> upgrade s' x; s \<leftarrow> set_val s x v; s \<leftarrow> delete_node s z;
                  s \<leftarrow> unlock_unique s x; unlock_writers s })"
      unfolding run P_def Q_def it
      using hF u f zn xn zn' xs
      by (auto simp: hrep_plug[of _ fs'] sF_def untouched_def s1_def fresh_def z_def)
  qed
  then show ?thesis unfolding pre P_def Q_def .
qed

section \<open>validate\<close>

lemma ptr_nil_iff: "nil \<notin> set (addrs t) \<Longrightarrow> ptr nil t = nil \<longleftrightarrow> t = Leaf"
  by (cases t) auto

lemma rep_col:
  "rep h nil par t \<Longrightarrow> map_option color (h nil) = Some BLACK
     \<Longrightarrow> map_option color (h (ptr nil t)) = Some (col t)"
  by (cases t) auto

lemma color_neq_RED [simp]: "c \<noteq> RED \<longleftrightarrow> c = BLACK"
  by (cases c) auto

lemma color_neq_BLACK [simp]: "c \<noteq> BLACK \<longleftrightarrow> c = RED"
  by (cases c) auto

lemma validate_rec_rep:
  assumes "rep (mem s) (NIL s) par t" "NIL s \<notin> set (addrs t)"
    "color_of s (NIL s) = Some BLACK" "0 \<le> b"
  shows "\<exists>ok tg'. validate_rec s (ptr (NIL s) t) b tg = Some (ok, tg')
           \<and> (ok \<longleftrightarrow> invc t \<and> invh t \<and> ord_local t \<and> (tg \<noteq> - 1 \<longrightarrow> tg = b + int (bheight t)))
           \<and> (ok \<longrightarrow> tg' = b + int (bheight t))"
  using assms
proof (induction t arbitrary: par b tg)
  case Leaf
  then show ?case
    by (subst validate_rec.simps) (auto simp: Let_def)
next
  case (Node l a c k v r)
  define b' where "b' = (if c = BLACK then b + 1 else b)"
  have b': "0 \<le> b'" using Node.prems(4) by (simp add: b'_def)
  have ma: "mem s a = Some \<lparr>key = k, val = v, color = c, parent = par,
                     left = ptr (NIL s) l, right = ptr (NIL s) r\<rparr>"
    and rl: "rep (mem s) (NIL s) a l" and rr: "rep (mem s) (NIL s) a r"
    using Node.prems(1) by simp_all
  have nl: "NIL s \<notin> set (addrs l)" and nr: "NIL s \<notin> set (addrs r)" and na: "a \<noteq> NIL s"
    using Node.prems(2) by auto
  note nb = Node.prems(3)
  from Node.IH(1)[OF rl nl nb b', of tg] obtain ok1 tg1 where
    v1: "validate_rec s (ptr (NIL s) l) b' tg = Some (ok1, tg1)"
    and ok1: "ok1 \<longleftrightarrow> invc l \<and> invh l \<and> ord_local l \<and> (tg \<noteq> - 1 \<longrightarrow> tg = b' + int (bheight l))"
    and tg1: "ok1 \<Longrightarrow> tg1 = b' + int (bheight l)"
    by blast
  from Node.IH(2)[OF rr nr nb b', of tg1] obtain ok2 tg2 where
    v2: "validate_rec s (ptr (NIL s) r) b' tg1 = Some (ok2, tg2)"
    and ok2: "ok2 \<longleftrightarrow> invc r \<and> invh r \<and> ord_local r \<and> (tg1 \<noteq> - 1 \<longrightarrow> tg1 = b' + int (bheight r))"
    and tg2: "ok2 \<Longrightarrow> tg2 = b' + int (bheight r)"
    by blast
  have cl: "color_of s (ptr (NIL s) l) = Some (col l)"
    using rep_col[OF rl] nb by (simp add: color_of_def)
  have cr: "color_of s (ptr (NIL s) r) = Some (col r)"
    using rep_col[OF rr] nb by (simp add: color_of_def)
  have kl: "l \<noteq> Leaf \<Longrightarrow> key_of s (ptr (NIL s) l) = Some (case l of Node ll la lc lk lv lr \<Rightarrow> lk)"
    using rl by (cases l) (auto simp: key_of_def)
  have kr: "r \<noteq> Leaf \<Longrightarrow> key_of s (ptr (NIL s) r) = Some (case r of Node ll la lc lk lv lr \<Rightarrow> lk)"
    using rr by (cases r) (auto simp: key_of_def)
  have bh: "b + int (bheight (Node l a c k v r)) = b' + int (bheight l)"
    by (simp add: b'_def)
  have ne1: "ok1 \<Longrightarrow> tg1 \<noteq> - 1" using tg1 b' by simp
  have res: "validate_rec s a b tg =
      (if c = RED \<and> (col l = RED \<or> col r = RED) then Some (False, tg)
       else if l \<noteq> Leaf \<and> k < (case l of Node ll la lc lk lv lr \<Rightarrow> lk) then Some (False, tg)
       else if r \<noteq> Leaf \<and> (case r of Node ll la lc lk lv lr \<Rightarrow> lk) < k then Some (False, tg)
       else if ok1 then Some (ok2, tg2) else Some (False, tg1))"
    apply (subst validate_rec.simps)
    using na ma cl cr kl kr v1 v2
    by (auto simp: color_of_def left_of_def right_of_def key_of_def ptr_nil_iff[OF nl]
        ptr_nil_iff[OF nr] Let_def b'_def)
  define loc where "loc \<longleftrightarrow> \<not> (c = RED \<and> (col l = RED \<or> col r = RED))
       \<and> \<not> (l \<noteq> Leaf \<and> k < (case l of Node ll la lc lk lv lr \<Rightarrow> lk))
       \<and> \<not> (r \<noteq> Leaf \<and> (case r of Node ll la lc lk lv lr \<Rightarrow> lk) < k)"
  have res': "validate_rec s a b tg =
      (if \<not> loc then Some (False, tg) else if ok1 then Some (ok2, tg2) else Some (False, tg1))"
    unfolding res loc_def by (cases "col l"; cases "col r"; cases c; simp)
  have inv: "invc (Node l a c k v r) \<and> ord_local (Node l a c k v r)
       \<longleftrightarrow> loc \<and> invc l \<and> invc r \<and> ord_local l \<and> ord_local r"
    unfolding loc_def by (cases l; cases r) auto
  have ih: "invh (Node l a c k v r) \<longleftrightarrow> bheight l = bheight r \<and> invh l \<and> invh r"
    by simp
  show ?case
  proof (cases "loc \<and> ok1")
    case False
    then show ?thesis
      unfolding ptr.simps res' bh using inv ok1 by auto
  next
    case True
    then have l: loc and o1: ok1 by auto
    have t1: "tg1 = b' + int (bheight l)" using tg1 o1 by simp
    have o2: "ok2 \<longleftrightarrow> invc r \<and> invh r \<and> ord_local r \<and> bheight l = bheight r"
      using ok2 ne1[OF o1] unfolding t1 by auto
    show ?thesis
      unfolding ptr.simps res' bh ih using l o1 inv ok1 o2 tg2 by auto
  qed
qed

theorem validate_refine:
  assumes "hrep s [] t"
  shows "validate s = Some (invc t \<and> invh t \<and> ord_local t)"
proof -
  have r: "rep (mem s) (NIL s) (NIL s) t" and n: "NIL s \<notin> set (addrs t)"
    and c: "color_of s (NIL s) = Some BLACK" and rt: "root s = ptr (NIL s) t"
    using assms by (simp_all add: hrep_def)
  from validate_rec_rep[OF r n c, of 0 "- 1"] show ?thesis
    unfolding validate_def rt by auto
qed

section \<open>The loop body of delete\_fixup\<close>

lemma delete_fixup_unfold:
  "delete_fixup s x = do {
     xc \<leftarrow> (if x \<noteq> root s then color_of s x else Some RED);
     if x \<noteq> root s \<and> xc = BLACK then do {
       xp \<leftarrow> parent_of s x;
       xpl \<leftarrow> left_of s xp;
       if x = xpl then do {
         w \<leftarrow> right_of s xp;
         wc \<leftarrow> color_of s w;
         (s, w) \<leftarrow> del_red_sibling_l s x w wc;
         del_black_sibling_l s x w
       } else do {
         w \<leftarrow> left_of s xp;
         wc \<leftarrow> color_of s w;
         (s, w) \<leftarrow> del_red_sibling_r s x w wc;
         del_black_sibling_r s x w
       }
     } else set_color s x BLACK
   }"
  unfolding del_red_sibling_l_def del_black_sibling_l_def del_red_sibling_r_def
    del_black_sibling_r_def del_near_red_l_def del_far_red_l_def del_near_red_r_def
    del_far_red_r_def
  by (rule delete_fixup.simps)

section \<open>Leaving the loop of delete\_fixup\<close>

lemma hrep_swap: "hrep s (LF a c k v r # fs) l \<longleftrightarrow> hrep s (RF l a c k v # fs) r"
  by (simp add: hrep_up)

lemma hrep_reads:
  assumes "hrep s fs (Node l a c k v r)"
  shows "left_of s a = Some (ptr (NIL s) l)" "right_of s a = Some (ptr (NIL s) r)"
    "color_of s a = Some c" "parent_of s a = Some (cpar (NIL s) fs)"
    "key_of s a = Some k" "val_of s a = Some v"
  using hrep_Node_mem[OF assms] by (simp_all add: heap_defs)

lemma px_Node: "hrep s fs x \<Longrightarrow> x \<noteq> Leaf \<Longrightarrow> px s fs x"
  by (cases x) (auto simp: px_def dest: hrep_reads(4))

lemma px_frame:
  assumes "px s fs x" "frame_ok s s'" "hrep s' fs' x" "cpar (NIL s) fs' = cpar (NIL s) fs"
  shows "px s' fs' x"
proof (cases x)
  case Leaf
  then show ?thesis using assms by (simp add: px_def frame_ok_def parent_of_def)
next
  case (Node l a c k v r)
  then show ?thesis using px_Node[OF assms(3)] by simp
qed

lemma croot_in: "croot fs a = a \<or> croot fs a \<in> set (caddrs fs)"
proof (induction fs arbitrary: a)
  case Nil
  then show ?case by simp
next
  case (Cons f fs)
  show ?case using Cons[of "faddr f"] by auto
qed

lemma hrep_not_root: "hrep s (f # fs) x \<Longrightarrow> ptr (NIL s) x \<noteq> root s"
proof -
  assume h: "hrep s (f # fs) x"
  have r: "root s = croot fs (faddr f)" using h by (simp add: hrep_def)
  have "croot fs (faddr f) \<in> set (caddrs (f # fs))"
    using croot_in[of fs "faddr f"] by auto
  moreover have "ptr (NIL s) x \<notin> set (caddrs (f # fs))"
    using h ptr_cases[of "NIL s" x] by (auto simp: hrep_def)
  ultimately show ?thesis unfolding r by metis
qed

lemma hrep_is_root: "hrep s [] x \<Longrightarrow> root s = ptr (NIL s) x"
  by (simp add: hrep_def)

lemma set_color_ex:
  "hrep s fs (Node l a c k v r) \<Longrightarrow>
     \<exists>s'. set_color s a c' = Some s' \<and> hrep s' fs (Node l a c' k v r) \<and> frame_ok s s'"
  by (rule hrep_set_color)

text \<open>Leaving the loop: \<open>x\<close> is the root, or \<open>x\<close> is RED.\<close>

lemma del_exit_root:
  assumes h: "hrep s [] x"
  shows "\<exists>s'. delete_fixup s (ptr (NIL s) x) = Some s' \<and> hrep s' [] (paint BLACK x)
            \<and> frame_ok s s'"
proof (cases x)
  case Leaf
  from hrep_nil_live[OF h] obtain n where n: "mem s (NIL s) = Some n" "color n = BLACK" by blast
  have e: "s\<lparr>mem := (mem s)(NIL s \<mapsto> n\<lparr>color := BLACK\<rparr>)\<rparr> = s"
    using n by (simp add: fun_upd_idem)
  show ?thesis
    apply (subst delete_fixup_unfold)
    using h n e unfolding Leaf
    by (simp add: hrep_is_root[OF h, unfolded Leaf] set_color_def)
next
  case (Node l a c k v r)
  from hrep_set_color[OF h[unfolded Node], of BLACK] obtain s' where
    s': "set_color s a BLACK = Some s'" "hrep s' [] (Node l a BLACK k v r)" "frame_ok s s'"
    by blast
  show ?thesis
    apply (subst delete_fixup_unfold)
    using s' unfolding Node
    by (simp add: hrep_is_root[OF h, unfolded Node])
qed

lemma del_exit_red:
  assumes h: "hrep s fs x" and c: "col x = RED"
  shows "\<exists>s'. delete_fixup s (ptr (NIL s) x) = Some s' \<and> hrep s' fs (paint BLACK x)
            \<and> frame_ok s s'"
proof -
  from c obtain l a k v r where x: "x = Node l a RED k v r" using col_RED_Node by blast
  from hrep_set_color[OF h[unfolded x], of BLACK] obtain s' where
    s': "set_color s a BLACK = Some s'" "hrep s' fs (Node l a BLACK k v r)" "frame_ok s s'"
    by blast
  show ?thesis
    apply (subst delete_fixup_unfold)
    using s' hrep_reads(3)[OF h[unfolded x]] unfolding x
    by auto
qed

section \<open>The cases of delete\_fixup\<close>

lemma frame_ok_NIL: "frame_ok s s' \<Longrightarrow> NIL s' = NIL s"
  by (simp add: frame_ok_def)

lemma px_D: "px s (f # fs) x \<Longrightarrow> parent_of s (ptr (NIL s) x) = Some (faddr f)"
  by (simp add: px_def)

lemma del_enter_l:
  assumes h: "hrep s (LF pa pc pk pv w # fs) x" and p: "px s (LF pa pc pk pv w # fs) x"
    and cx: "col x = BLACK"
  shows "delete_fixup s (ptr (NIL s) x) = do {
           (s', w') \<leftarrow> del_red_sibling_l s (ptr (NIL s) x) (ptr (NIL s) w) (col w);
           del_black_sibling_l s' (ptr (NIL s) x) w' }"
proof -
  have hp: "hrep s fs (Node x pa pc pk pv w)" using h by (simp add: hrep_up)
  note r = hrep_reads[OF hp]
  show ?thesis
    apply (subst delete_fixup_unfold)
    using hrep_not_root[OF h] hrep_col_ptr[OF h] px_D[OF p] r(1,2) hrep_sib_col[OF h] cx
    by simp
qed

lemma del_red_sibling_l_step:
  assumes h: "hrep s (LF pa pc pk pv (Node wl wa RED wk wv wr) # fs) x"
    and p: "px s (LF pa pc pk pv (Node wl wa RED wk wv wr) # fs) x"
  shows "\<exists>s'. del_red_sibling_l s (ptr (NIL s) x) wa RED = Some (s', ptr (NIL s) wl)
           \<and> hrep s' (LF pa RED pk pv wl # LF wa BLACK wk wv wr # fs) x
           \<and> px s' (LF pa RED pk pv wl # LF wa BLACK wk wv wr # fs) x \<and> frame_ok s s'"
proof -
  from hrep_set_color[OF h[unfolded hrep_swap], of BLACK] obtain s1 where
    s1: "set_color s wa BLACK = Some s1"
    and h1: "hrep s1 (RF x pa pc pk pv # fs) (Node wl wa BLACK wk wv wr)"
    and f1: "frame_ok s s1" by blast
  have p1: "px s1 (LF pa pc pk pv (Node wl wa BLACK wk wv wr) # fs) x"
    by (rule px_frame[OF p f1]) (use h1 in \<open>simp_all add: hrep_up\<close>)
  have h1p: "hrep s1 fs (Node x pa pc pk pv (Node wl wa BLACK wk wv wr))"
    using h1 by (simp add: hrep_up)
  from hrep_set_color[OF h1p, of RED] obtain s2 where
    s2: "set_color s1 pa RED = Some s2"
    and h2: "hrep s2 fs (Node x pa RED pk pv (Node wl wa BLACK wk wv wr))"
    and f2: "frame_ok s1 s2" by blast
  have p2: "px s2 (LF pa RED pk pv (Node wl wa BLACK wk wv wr) # fs) x"
    by (rule px_frame[OF p1 f2]) (use h2 in \<open>simp_all add: hrep_up\<close>)
  from hrep_left_rotate[OF h2] obtain s3 where
    s3: "left_rotate s2 pa = Some s3"
    and h3: "hrep s3 fs (Node (Node x pa RED pk pv wl) wa BLACK wk wv wr)"
    and f3: "frame_ok s2 s3" by blast
  have h3': "hrep s3 (LF pa RED pk pv wl # LF wa BLACK wk wv wr # fs) x"
    using h3 by (simp add: hrep_up)
  have p3: "px s3 (LF pa RED pk pv wl # LF wa BLACK wk wv wr # fs) x"
    by (rule px_frame[OF p2 f3 h3']) simp
  note n = frame_ok_NIL[OF f1] frame_ok_NIL[OF f2] frame_ok_NIL[OF f3]
  have h3p: "hrep s3 (LF wa BLACK wk wv wr # fs) (Node x pa RED pk pv wl)"
    using h3 by (simp add: hrep_up)
  note r3 = hrep_reads[OF h3p]
  have f: "frame_ok s s3" using f1 f2 f3 by (blast intro: frame_ok_trans)
  show ?thesis
    unfolding del_red_sibling_l_def
    using s1 s2 s3 px_D[OF p1] px_D[OF p2] px_D[OF p3] r3(2) h3' p3 f n
    by simp
qed

lemma del_black_sibling_l_choice:
  assumes h: "hrep s (LF pa pc pk pv (Node wl wa wc wk wv wr) # fs) x"
  shows "del_black_sibling_l s (ptr (NIL s) x) wa =
          (if col wl = BLACK \<and> col wr = BLACK then do {
             s1 \<leftarrow> set_color s wa RED;
             xp \<leftarrow> parent_of s1 (ptr (NIL s) x);
             delete_fixup s1 xp
           } else do {
             (s', w') \<leftarrow> del_near_red_l s (ptr (NIL s) x) wa (col wr);
             del_far_red_l s' (ptr (NIL s) x) w'
           })"
proof -
  note h' = h[unfolded hrep_swap]
  note r = hrep_reads[OF h']
  have cl: "color_of s (ptr (NIL s) wl) = Some (col wl)"
    using hrep_col_ptr[of s "LF wa wc wk wv wr # RF x pa pc pk pv # fs" wl] h'
    by (simp add: hrep_up)
  have cr: "color_of s (ptr (NIL s) wr) = Some (col wr)"
    using hrep_col_ptr[of s "RF wl wa wc wk wv # RF x pa pc pk pv # fs" wr] h'
    by (simp add: hrep_up)
  show ?thesis
    unfolding del_black_sibling_l_def
    using r(1,2) cl cr by (cases "col wl"; cases "col wr"; simp)
qed

lemma del_case2_l:
  assumes h: "hrep s (LF pa pc pk pv (Node wl wa wc wk wv wr) # fs) x"
    and p: "px s (LF pa pc pk pv (Node wl wa wc wk wv wr) # fs) x"
  shows "\<exists>s'. do { s1 \<leftarrow> set_color s wa RED; xp \<leftarrow> parent_of s1 (ptr (NIL s) x);
                    delete_fixup s1 xp } = delete_fixup s' pa
           \<and> hrep s' fs (Node x pa pc pk pv (Node wl wa RED wk wv wr)) \<and> frame_ok s s'"
proof -
  from hrep_set_color[OF h[unfolded hrep_swap], of RED] obtain s1 where
    s1: "set_color s wa RED = Some s1"
    and h1: "hrep s1 (RF x pa pc pk pv # fs) (Node wl wa RED wk wv wr)"
    and f1: "frame_ok s s1" by blast
  have p1: "px s1 (LF pa pc pk pv (Node wl wa RED wk wv wr) # fs) x"
    by (rule px_frame[OF p f1]) (use h1 in \<open>simp_all add: hrep_up\<close>)
  show ?thesis
    using s1 px_D[OF p1] h1 f1 frame_ok_NIL[OF f1] by (auto simp: hrep_up)
qed

lemma del_near_red_l_step:
  assumes h: "hrep s (LF pa pc pk pv (Node (Node wll wla wlc wlk wlv wlr) wa wc wk wv wr) # fs) x"
    and p: "px s (LF pa pc pk pv (Node (Node wll wla wlc wlk wlv wlr) wa wc wk wv wr) # fs) x"
  shows "\<exists>s'. del_near_red_l s (ptr (NIL s) x) wa BLACK = Some (s', wla)
           \<and> hrep s' (LF pa pc pk pv (Node wll wla BLACK wlk wlv (Node wlr wa RED wk wv wr)) # fs) x
           \<and> px s' (LF pa pc pk pv (Node wll wla BLACK wlk wlv (Node wlr wa RED wk wv wr)) # fs) x
           \<and> frame_ok s s'"
proof -
  have h0: "hrep s (LF wa wc wk wv wr # RF x pa pc pk pv # fs) (Node wll wla wlc wlk wlv wlr)"
    using h by (simp add: hrep_up)
  note r0 = hrep_reads[OF h[unfolded hrep_swap]]
  from hrep_set_color[OF h0, of BLACK] obtain s1 where
    s1: "set_color s wla BLACK = Some s1"
    and h1: "hrep s1 (LF wa wc wk wv wr # RF x pa pc pk pv # fs) (Node wll wla BLACK wlk wlv wlr)"
    and f1: "frame_ok s s1" by blast
  have h1w: "hrep s1 (RF x pa pc pk pv # fs) (Node (Node wll wla BLACK wlk wlv wlr) wa wc wk wv wr)"
    using h1 by (simp add: hrep_up)
  from hrep_set_color[OF h1w, of RED] obtain s2 where
    s2: "set_color s1 wa RED = Some s2"
    and h2: "hrep s2 (RF x pa pc pk pv # fs) (Node (Node wll wla BLACK wlk wlv wlr) wa RED wk wv wr)"
    and f2: "frame_ok s1 s2" by blast
  from hrep_right_rotate[OF h2] obtain s3 where
    s3: "right_rotate s2 wa = Some s3"
    and h3: "hrep s3 (RF x pa pc pk pv # fs) (Node wll wla BLACK wlk wlv (Node wlr wa RED wk wv wr))"
    and f3: "frame_ok s2 s3" by blast
  have f: "frame_ok s s3" using f1 f2 f3 by (blast intro: frame_ok_trans)
  have h3': "hrep s3 (LF pa pc pk pv (Node wll wla BLACK wlk wlv (Node wlr wa RED wk wv wr)) # fs) x"
    using h3 by (simp add: hrep_up)
  have p3: "px s3 (LF pa pc pk pv (Node wll wla BLACK wlk wlv (Node wlr wa RED wk wv wr)) # fs) x"
    by (rule px_frame[OF p f h3']) simp
  note n = frame_ok_NIL[OF f1] frame_ok_NIL[OF f2] frame_ok_NIL[OF f3]
  have h3p: "hrep s3 fs (Node x pa pc pk pv (Node wll wla BLACK wlk wlv (Node wlr wa RED wk wv wr)))"
    using h3 by (simp add: hrep_up)
  note r3 = hrep_reads[OF h3p]
  show ?thesis
    unfolding del_near_red_l_def
    using r0(1) s1 s2 s3 px_D[OF p3] r3(2) h3' p3 f n
    by simp
qed

lemma del_far_red_l_step:
  assumes h: "hrep s (LF pa pc pk pv (Node wl wa wc wk wv (Node wrl wra wrc wrk wrv wrr)) # fs) x"
    and p: "px s (LF pa pc pk pv (Node wl wa wc wk wv (Node wrl wra wrc wrk wrv wrr)) # fs) x"
  shows "\<exists>s'. del_far_red_l s (ptr (NIL s) x) wa = delete_fixup s' (root s')
           \<and> hrep s' fs (Node (Node x pa BLACK pk pv wl) wa pc wk wv
                               (Node wrl wra BLACK wrk wrv wrr))
           \<and> frame_ok s s'"
proof -
  have h0p: "hrep s fs (Node x pa pc pk pv (Node wl wa wc wk wv (Node wrl wra wrc wrk wrv wrr)))"
    using h by (simp add: hrep_up)
  note r0 = hrep_reads[OF h0p]
  from hrep_set_color[OF h[unfolded hrep_swap], of pc] obtain s1 where
    s1: "set_color s wa pc = Some s1"
    and h1: "hrep s1 (RF x pa pc pk pv # fs) (Node wl wa pc wk wv (Node wrl wra wrc wrk wrv wrr))"
    and f1: "frame_ok s s1" by blast
  have p1: "px s1 (LF pa pc pk pv (Node wl wa pc wk wv (Node wrl wra wrc wrk wrv wrr)) # fs) x"
    by (rule px_frame[OF p f1]) (use h1 in \<open>simp_all add: hrep_up\<close>)
  have h1p: "hrep s1 fs (Node x pa pc pk pv (Node wl wa pc wk wv (Node wrl wra wrc wrk wrv wrr)))"
    using h1 by (simp add: hrep_up)
  from hrep_set_color[OF h1p, of BLACK] obtain s2 where
    s2: "set_color s1 pa BLACK = Some s2"
    and h2: "hrep s2 fs (Node x pa BLACK pk pv (Node wl wa pc wk wv (Node wrl wra wrc wrk wrv wrr)))"
    and f2: "frame_ok s1 s2" by blast
  have p2: "px s2 (LF pa BLACK pk pv (Node wl wa pc wk wv (Node wrl wra wrc wrk wrv wrr)) # fs) x"
    by (rule px_frame[OF p1 f2]) (use h2 in \<open>simp_all add: hrep_up\<close>)
  have h2w: "hrep s2 (RF x pa BLACK pk pv # fs) (Node wl wa pc wk wv (Node wrl wra wrc wrk wrv wrr))"
    using h2 by (simp add: hrep_up)
  note r2 = hrep_reads[OF h2w]
  have h2r: "hrep s2 (RF wl wa pc wk wv # RF x pa BLACK pk pv # fs) (Node wrl wra wrc wrk wrv wrr)"
    using h2 by (simp add: hrep_up)
  from hrep_set_color[OF h2r, of BLACK] obtain s3 where
    s3: "set_color s2 wra BLACK = Some s3"
    and h3: "hrep s3 (RF wl wa pc wk wv # RF x pa BLACK pk pv # fs) (Node wrl wra BLACK wrk wrv wrr)"
    and f3: "frame_ok s2 s3" by blast
  have h3p: "hrep s3 fs (Node x pa BLACK pk pv (Node wl wa pc wk wv (Node wrl wra BLACK wrk wrv wrr)))"
    using h3 by (simp add: hrep_up)
  have p3: "px s3 (LF pa BLACK pk pv (Node wl wa pc wk wv (Node wrl wra BLACK wrk wrv wrr)) # fs) x"
    by (rule px_frame[OF p2 f3]) (use h3p in \<open>simp_all add: hrep_up\<close>)
  from hrep_left_rotate[OF h3p] obtain s4 where
    s4: "left_rotate s3 pa = Some s4"
    and h4: "hrep s4 fs (Node (Node x pa BLACK pk pv wl) wa pc wk wv (Node wrl wra BLACK wrk wrv wrr))"
    and f4: "frame_ok s3 s4" by blast
  have f: "frame_ok s s4" using f1 f2 f3 f4 by (blast intro: frame_ok_trans)
  note n = frame_ok_NIL[OF f1] frame_ok_NIL[OF f2] frame_ok_NIL[OF f3]
  show ?thesis
    unfolding del_far_red_l_def
    using px_D[OF p] r0(3) s1 px_D[OF p1] s2 r2(2) s3 px_D[OF p3] s4 h4 f n
    by (auto)
qed

lemma hrep_swap_r: "hrep s (RF l a c k v # fs) r \<longleftrightarrow> hrep s (LF a c k v r # fs) l"
  by (simp add: hrep_up)

lemma hrep_children_ne:
  assumes "hrep s fs (Node l a c k v r)" "l \<noteq> Leaf \<or> r \<noteq> Leaf"
  shows "ptr (NIL s) l \<noteq> ptr (NIL s) r"
  using assms by (cases l; cases r) (auto simp: hrep_def)

lemma del_enter_r:
  assumes h: "hrep s (RF w pa pc pk pv # fs) x" and p: "px s (RF w pa pc pk pv # fs) x"
    and cx: "col x = BLACK" and w: "w \<noteq> Leaf"
  shows "delete_fixup s (ptr (NIL s) x) = do {
           (s', w') \<leftarrow> del_red_sibling_r s (ptr (NIL s) x) (ptr (NIL s) w) (col w);
           del_black_sibling_r s' (ptr (NIL s) x) w' }"
proof -
  have hp: "hrep s fs (Node w pa pc pk pv x)" using h by (simp add: hrep_up)
  note r = hrep_reads[OF hp]
  have ne: "ptr (NIL s) x \<noteq> ptr (NIL s) w" using hrep_children_ne[OF hp] w by auto
  show ?thesis
    apply (subst delete_fixup_unfold)
    using hrep_not_root[OF h] hrep_col_ptr[OF h] px_D[OF p] r(1,2) hrep_sib_col[OF h] cx ne
    by simp
qed

lemma del_red_sibling_r_step:
  assumes h: "hrep s (RF (Node wl wa RED wk wv wr) pa pc pk pv # fs) x"
    and p: "px s (RF (Node wl wa RED wk wv wr) pa pc pk pv # fs) x"
  shows "\<exists>s'. del_red_sibling_r s (ptr (NIL s) x) wa RED = Some (s', ptr (NIL s) wr)
           \<and> hrep s' (RF wr pa RED pk pv # RF wl wa BLACK wk wv # fs) x
           \<and> px s' (RF wr pa RED pk pv # RF wl wa BLACK wk wv # fs) x \<and> frame_ok s s'"
proof -
  from hrep_set_color[OF h[unfolded hrep_swap_r], of BLACK] obtain s1 where
    s1: "set_color s wa BLACK = Some s1"
    and h1: "hrep s1 (LF pa pc pk pv x # fs) (Node wl wa BLACK wk wv wr)"
    and f1: "frame_ok s s1" by blast
  have p1: "px s1 (RF (Node wl wa BLACK wk wv wr) pa pc pk pv # fs) x"
    by (rule px_frame[OF p f1]) (use h1 in \<open>simp_all add: hrep_up\<close>)
  have h1p: "hrep s1 fs (Node (Node wl wa BLACK wk wv wr) pa pc pk pv x)"
    using h1 by (simp add: hrep_up)
  from hrep_set_color[OF h1p, of RED] obtain s2 where
    s2: "set_color s1 pa RED = Some s2"
    and h2: "hrep s2 fs (Node (Node wl wa BLACK wk wv wr) pa RED pk pv x)"
    and f2: "frame_ok s1 s2" by blast
  have p2: "px s2 (RF (Node wl wa BLACK wk wv wr) pa RED pk pv # fs) x"
    by (rule px_frame[OF p1 f2]) (use h2 in \<open>simp_all add: hrep_up\<close>)
  from hrep_right_rotate[OF h2] obtain s3 where
    s3: "right_rotate s2 pa = Some s3"
    and h3: "hrep s3 fs (Node wl wa BLACK wk wv (Node wr pa RED pk pv x))"
    and f3: "frame_ok s2 s3" by blast
  have h3': "hrep s3 (RF wr pa RED pk pv # RF wl wa BLACK wk wv # fs) x"
    using h3 by (simp add: hrep_up)
  have p3: "px s3 (RF wr pa RED pk pv # RF wl wa BLACK wk wv # fs) x"
    by (rule px_frame[OF p2 f3 h3']) simp
  note n = frame_ok_NIL[OF f1] frame_ok_NIL[OF f2] frame_ok_NIL[OF f3]
  have h3p: "hrep s3 (RF wl wa BLACK wk wv # fs) (Node wr pa RED pk pv x)"
    using h3 by (simp add: hrep_up)
  note r3 = hrep_reads[OF h3p]
  have f: "frame_ok s s3" using f1 f2 f3 by (blast intro: frame_ok_trans)
  show ?thesis
    unfolding del_red_sibling_r_def
    using s1 s2 s3 px_D[OF p1] px_D[OF p2] px_D[OF p3] r3(1) h3' p3 f n
    by simp
qed

lemma del_black_sibling_r_choice:
  assumes h: "hrep s (RF (Node wl wa wc wk wv wr) pa pc pk pv # fs) x"
  shows "del_black_sibling_r s (ptr (NIL s) x) wa =
          (if col wr = BLACK \<and> col wl = BLACK then do {
             s1 \<leftarrow> set_color s wa RED;
             xp \<leftarrow> parent_of s1 (ptr (NIL s) x);
             delete_fixup s1 xp
           } else do {
             (s', w') \<leftarrow> del_near_red_r s (ptr (NIL s) x) wa (col wl);
             del_far_red_r s' (ptr (NIL s) x) w'
           })"
proof -
  note h' = h[unfolded hrep_swap_r]
  note r = hrep_reads[OF h']
  have cl: "color_of s (ptr (NIL s) wl) = Some (col wl)"
    using hrep_col_ptr[of s "LF wa wc wk wv wr # LF pa pc pk pv x # fs" wl] h'
    by (simp add: hrep_up)
  have cr: "color_of s (ptr (NIL s) wr) = Some (col wr)"
    using hrep_col_ptr[of s "RF wl wa wc wk wv # LF pa pc pk pv x # fs" wr] h'
    by (simp add: hrep_up)
  show ?thesis
    unfolding del_black_sibling_r_def
    using r(1,2) cl cr by (cases "col wl"; cases "col wr"; simp)
qed

lemma del_case2_r:
  assumes h: "hrep s (RF (Node wl wa wc wk wv wr) pa pc pk pv # fs) x"
    and p: "px s (RF (Node wl wa wc wk wv wr) pa pc pk pv # fs) x"
  shows "\<exists>s'. do { s1 \<leftarrow> set_color s wa RED; xp \<leftarrow> parent_of s1 (ptr (NIL s) x);
                    delete_fixup s1 xp } = delete_fixup s' pa
           \<and> hrep s' fs (Node (Node wl wa RED wk wv wr) pa pc pk pv x) \<and> frame_ok s s'"
proof -
  from hrep_set_color[OF h[unfolded hrep_swap_r], of RED] obtain s1 where
    s1: "set_color s wa RED = Some s1"
    and h1: "hrep s1 (LF pa pc pk pv x # fs) (Node wl wa RED wk wv wr)"
    and f1: "frame_ok s s1" by blast
  have p1: "px s1 (RF (Node wl wa RED wk wv wr) pa pc pk pv # fs) x"
    by (rule px_frame[OF p f1]) (use h1 in \<open>simp_all add: hrep_up\<close>)
  show ?thesis
    using s1 px_D[OF p1] h1 f1 frame_ok_NIL[OF f1] by (auto simp: hrep_up)
qed

lemma del_near_red_r_step:
  assumes h: "hrep s (RF (Node wl wa wc wk wv (Node wrl wra wrc wrk wrv wrr)) pa pc pk pv # fs) x"
    and p: "px s (RF (Node wl wa wc wk wv (Node wrl wra wrc wrk wrv wrr)) pa pc pk pv # fs) x"
  shows "\<exists>s'. del_near_red_r s (ptr (NIL s) x) wa BLACK = Some (s', wra)
           \<and> hrep s' (RF (Node (Node wl wa RED wk wv wrl) wra BLACK wrk wrv wrr) pa pc pk pv # fs) x
           \<and> px s' (RF (Node (Node wl wa RED wk wv wrl) wra BLACK wrk wrv wrr) pa pc pk pv # fs) x
           \<and> frame_ok s s'"
proof -
  have h0: "hrep s (RF wl wa wc wk wv # LF pa pc pk pv x # fs) (Node wrl wra wrc wrk wrv wrr)"
    using h by (simp add: hrep_up)
  note r0 = hrep_reads[OF h[unfolded hrep_swap_r]]
  from hrep_set_color[OF h0, of BLACK] obtain s1 where
    s1: "set_color s wra BLACK = Some s1"
    and h1: "hrep s1 (RF wl wa wc wk wv # LF pa pc pk pv x # fs) (Node wrl wra BLACK wrk wrv wrr)"
    and f1: "frame_ok s s1" by blast
  have h1w: "hrep s1 (LF pa pc pk pv x # fs) (Node wl wa wc wk wv (Node wrl wra BLACK wrk wrv wrr))"
    using h1 by (simp add: hrep_up)
  from hrep_set_color[OF h1w, of RED] obtain s2 where
    s2: "set_color s1 wa RED = Some s2"
    and h2: "hrep s2 (LF pa pc pk pv x # fs) (Node wl wa RED wk wv (Node wrl wra BLACK wrk wrv wrr))"
    and f2: "frame_ok s1 s2" by blast
  from hrep_left_rotate[OF h2] obtain s3 where
    s3: "left_rotate s2 wa = Some s3"
    and h3: "hrep s3 (LF pa pc pk pv x # fs) (Node (Node wl wa RED wk wv wrl) wra BLACK wrk wrv wrr)"
    and f3: "frame_ok s2 s3" by blast
  have f: "frame_ok s s3" using f1 f2 f3 by (blast intro: frame_ok_trans)
  have h3': "hrep s3 (RF (Node (Node wl wa RED wk wv wrl) wra BLACK wrk wrv wrr) pa pc pk pv # fs) x"
    using h3 by (simp add: hrep_up)
  have p3: "px s3 (RF (Node (Node wl wa RED wk wv wrl) wra BLACK wrk wrv wrr) pa pc pk pv # fs) x"
    by (rule px_frame[OF p f h3']) simp
  note n = frame_ok_NIL[OF f1] frame_ok_NIL[OF f2] frame_ok_NIL[OF f3]
  have h3p: "hrep s3 fs (Node (Node (Node wl wa RED wk wv wrl) wra BLACK wrk wrv wrr) pa pc pk pv x)"
    using h3 by (simp add: hrep_up)
  note r3 = hrep_reads[OF h3p]
  show ?thesis
    unfolding del_near_red_r_def
    using r0(2) s1 s2 s3 px_D[OF p3] r3(1) h3' p3 f n
    by simp
qed

lemma del_far_red_r_step:
  assumes h: "hrep s (RF (Node (Node wll wla wlc wlk wlv wlr) wa wc wk wv wr) pa pc pk pv # fs) x"
    and p: "px s (RF (Node (Node wll wla wlc wlk wlv wlr) wa wc wk wv wr) pa pc pk pv # fs) x"
  shows "\<exists>s'. del_far_red_r s (ptr (NIL s) x) wa = delete_fixup s' (root s')
           \<and> hrep s' fs (Node (Node wll wla BLACK wlk wlv wlr) wa pc wk wv
                               (Node wr pa BLACK pk pv x))
           \<and> frame_ok s s'"
proof -
  have h0p: "hrep s fs (Node (Node (Node wll wla wlc wlk wlv wlr) wa wc wk wv wr) pa pc pk pv x)"
    using h by (simp add: hrep_up)
  note r0 = hrep_reads[OF h0p]
  from hrep_set_color[OF h[unfolded hrep_swap_r], of pc] obtain s1 where
    s1: "set_color s wa pc = Some s1"
    and h1: "hrep s1 (LF pa pc pk pv x # fs) (Node (Node wll wla wlc wlk wlv wlr) wa pc wk wv wr)"
    and f1: "frame_ok s s1" by blast
  have p1: "px s1 (RF (Node (Node wll wla wlc wlk wlv wlr) wa pc wk wv wr) pa pc pk pv # fs) x"
    by (rule px_frame[OF p f1]) (use h1 in \<open>simp_all add: hrep_up\<close>)
  have h1p: "hrep s1 fs (Node (Node (Node wll wla wlc wlk wlv wlr) wa pc wk wv wr) pa pc pk pv x)"
    using h1 by (simp add: hrep_up)
  from hrep_set_color[OF h1p, of BLACK] obtain s2 where
    s2: "set_color s1 pa BLACK = Some s2"
    and h2: "hrep s2 fs (Node (Node (Node wll wla wlc wlk wlv wlr) wa pc wk wv wr) pa BLACK pk pv x)"
    and f2: "frame_ok s1 s2" by blast
  have p2: "px s2 (RF (Node (Node wll wla wlc wlk wlv wlr) wa pc wk wv wr) pa BLACK pk pv # fs) x"
    by (rule px_frame[OF p1 f2]) (use h2 in \<open>simp_all add: hrep_up\<close>)
  have h2w: "hrep s2 (LF pa BLACK pk pv x # fs) (Node (Node wll wla wlc wlk wlv wlr) wa pc wk wv wr)"
    using h2 by (simp add: hrep_up)
  note r2 = hrep_reads[OF h2w]
  have h2r: "hrep s2 (LF wa pc wk wv wr # LF pa BLACK pk pv x # fs) (Node wll wla wlc wlk wlv wlr)"
    using h2 by (simp add: hrep_up)
  from hrep_set_color[OF h2r, of BLACK] obtain s3 where
    s3: "set_color s2 wla BLACK = Some s3"
    and h3: "hrep s3 (LF wa pc wk wv wr # LF pa BLACK pk pv x # fs) (Node wll wla BLACK wlk wlv wlr)"
    and f3: "frame_ok s2 s3" by blast
  have h3p: "hrep s3 fs (Node (Node (Node wll wla BLACK wlk wlv wlr) wa pc wk wv wr) pa BLACK pk pv x)"
    using h3 by (simp add: hrep_up)
  have p3: "px s3 (RF (Node (Node wll wla BLACK wlk wlv wlr) wa pc wk wv wr) pa BLACK pk pv # fs) x"
    by (rule px_frame[OF p2 f3]) (use h3p in \<open>simp_all add: hrep_up\<close>)
  from hrep_right_rotate[OF h3p] obtain s4 where
    s4: "right_rotate s3 pa = Some s4"
    and h4: "hrep s4 fs (Node (Node wll wla BLACK wlk wlv wlr) wa pc wk wv (Node wr pa BLACK pk pv x))"
    and f4: "frame_ok s3 s4" by blast
  have f: "frame_ok s s4" using f1 f2 f3 f4 by (blast intro: frame_ok_trans)
  note n = frame_ok_NIL[OF f1] frame_ok_NIL[OF f2] frame_ok_NIL[OF f3]
  show ?thesis
    unfolding del_far_red_r_def
    using px_D[OF p] r0(3) s1 px_D[OF p1] s2 r2(1) s3 px_D[OF p3] s4 h4 f n
    by (auto)
qed

section \<open>delete\_fixup on a tree\<close>

lemma del_sib_l_Up:
  assumes h: "hrep s (LF pa pc pk pv w # fs) x" and p: "px s (LF pa pc pk pv w # fs) x"
    and d: "del_sib_l pa pc pk pv w x = Some (Up t)"
  shows "\<exists>s'. del_black_sibling_l s (ptr (NIL s) x) (ptr (NIL s) w) = delete_fixup s' (ptr (NIL s') t)
           \<and> hrep s' fs t \<and> t \<noteq> Leaf \<and> frame_ok s s'"
proof -
  from d obtain wl wa wc wk wv wr where w: "w = Node wl wa wc wk wv wr" by (cases w) auto
  have c: "col wl = BLACK \<and> col wr = BLACK"
    and t: "t = Node x pa pc pk pv (Node wl wa RED wk wv wr)"
    using d unfolding w by (auto split: if_splits tree.splits)
  from del_case2_l[OF h[unfolded w] p[unfolded w]] show ?thesis
    unfolding w ptr.simps del_black_sibling_l_choice[OF h[unfolded w]] t using c by auto
qed

lemma del_sib_l_Done:
  assumes h: "hrep s (LF pa pc pk pv w # fs) x" and p: "px s (LF pa pc pk pv w # fs) x"
    and d: "del_sib_l pa pc pk pv w x = Some (Done t)"
  shows "\<exists>s'. del_black_sibling_l s (ptr (NIL s) x) (ptr (NIL s) w) = delete_fixup s' (root s')
           \<and> hrep s' fs t \<and> frame_ok s s'"
proof -
  from d obtain wl wa wc wk wv wr where w: "w = Node wl wa wc wk wv wr" by (cases w) auto
  have c: "\<not> (col wl = BLACK \<and> col wr = BLACK)"
    using d unfolding w by (auto split: if_splits tree.splits)
  note ch = del_black_sibling_l_choice[OF h[unfolded w]]
  show ?thesis
  proof (cases "col wr")
    case BLACK
    with c d obtain wll wla wlc wlk wlv wlr where wl: "wl = Node wll wla wlc wlk wlv wlr"
      unfolding w by (cases wl) auto
    have t: "t = Node (Node x pa BLACK pk pv wll) wla pc wlk wlv (Node wlr wa BLACK wk wv wr)"
      using d c BLACK unfolding w wl by (auto split: if_splits)
    from del_near_red_l_step[OF h[unfolded w wl] p[unfolded w wl]] obtain s1 where
      s1: "del_near_red_l s (ptr (NIL s) x) wa BLACK = Some (s1, wla)"
      and h1: "hrep s1 (LF pa pc pk pv (Node wll wla BLACK wlk wlv (Node wlr wa RED wk wv wr)) # fs) x"
      and p1: "px s1 (LF pa pc pk pv (Node wll wla BLACK wlk wlv (Node wlr wa RED wk wv wr)) # fs) x"
      and f1: "frame_ok s s1" by blast
    from del_far_red_l_step[OF h1 p1] obtain s2 where
      s2: "del_far_red_l s1 (ptr (NIL s1) x) wla = delete_fixup s2 (root s2)"
      and h2: "hrep s2 fs t" and f2: "frame_ok s1 s2" unfolding t by blast
    show ?thesis
      unfolding w ptr.simps ch using c BLACK s1 s2 h2 frame_ok_trans[OF f1 f2] frame_ok_NIL[OF f1]
      by auto
  next
    case RED
    then obtain wrl wra wrk wrv wrr where wr: "wr = Node wrl wra RED wrk wrv wrr"
      using col_RED_Node by blast
    have t: "t = Node (Node x pa BLACK pk pv wl) wa pc wk wv (Node wrl wra BLACK wrk wrv wrr)"
      using d c unfolding w wr by (auto split: if_splits)
    from del_far_red_l_step[OF h[unfolded w wr] p[unfolded w wr]] obtain s2 where
      s2: "del_far_red_l s (ptr (NIL s) x) wa = delete_fixup s2 (root s2)"
      and h2: "hrep s2 fs t" and f2: "frame_ok s s2" unfolding t by blast
    show ?thesis
      unfolding w ptr.simps ch using c RED s2 h2 f2
      by (auto simp: del_near_red_l_def)
  qed
qed

lemma del_sib_r_Up:
  assumes h: "hrep s (RF w pa pc pk pv # fs) x" and p: "px s (RF w pa pc pk pv # fs) x"
    and d: "del_sib_r w pa pc pk pv x = Some (Up t)"
  shows "\<exists>s'. del_black_sibling_r s (ptr (NIL s) x) (ptr (NIL s) w) = delete_fixup s' (ptr (NIL s') t)
           \<and> hrep s' fs t \<and> t \<noteq> Leaf \<and> frame_ok s s'"
proof -
  from d obtain wl wa wc wk wv wr where w: "w = Node wl wa wc wk wv wr" by (cases w) auto
  have c: "col wr = BLACK \<and> col wl = BLACK"
    and t: "t = Node (Node wl wa RED wk wv wr) pa pc pk pv x"
    using d unfolding w by (auto split: if_splits tree.splits)
  from del_case2_r[OF h[unfolded w] p[unfolded w]] show ?thesis
    unfolding w ptr.simps del_black_sibling_r_choice[OF h[unfolded w]] t using c by auto
qed

lemma del_sib_r_Done:
  assumes h: "hrep s (RF w pa pc pk pv # fs) x" and p: "px s (RF w pa pc pk pv # fs) x"
    and d: "del_sib_r w pa pc pk pv x = Some (Done t)"
  shows "\<exists>s'. del_black_sibling_r s (ptr (NIL s) x) (ptr (NIL s) w) = delete_fixup s' (root s')
           \<and> hrep s' fs t \<and> frame_ok s s'"
proof -
  from d obtain wl wa wc wk wv wr where w: "w = Node wl wa wc wk wv wr" by (cases w) auto
  have c: "\<not> (col wr = BLACK \<and> col wl = BLACK)"
    using d unfolding w by (auto split: if_splits tree.splits)
  note ch = del_black_sibling_r_choice[OF h[unfolded w]]
  show ?thesis
  proof (cases "col wl")
    case BLACK
    with c d obtain wrl wra wrc wrk wrv wrr where wr: "wr = Node wrl wra wrc wrk wrv wrr"
      unfolding w by (cases wr) auto
    have t: "t = Node (Node wl wa BLACK wk wv wrl) wra pc wrk wrv (Node wrr pa BLACK pk pv x)"
      using d c BLACK unfolding w wr by (auto split: if_splits)
    from del_near_red_r_step[OF h[unfolded w wr] p[unfolded w wr]] obtain s1 where
      s1: "del_near_red_r s (ptr (NIL s) x) wa BLACK = Some (s1, wra)"
      and h1: "hrep s1 (RF (Node (Node wl wa RED wk wv wrl) wra BLACK wrk wrv wrr) pa pc pk pv # fs) x"
      and p1: "px s1 (RF (Node (Node wl wa RED wk wv wrl) wra BLACK wrk wrv wrr) pa pc pk pv # fs) x"
      and f1: "frame_ok s s1" by blast
    from del_far_red_r_step[OF h1 p1] obtain s2 where
      s2: "del_far_red_r s1 (ptr (NIL s1) x) wra = delete_fixup s2 (root s2)"
      and h2: "hrep s2 fs t" and f2: "frame_ok s1 s2" unfolding t by blast
    show ?thesis
      unfolding w ptr.simps ch using c BLACK s1 s2 h2 frame_ok_trans[OF f1 f2] frame_ok_NIL[OF f1]
      by auto
  next
    case RED
    then obtain wll wla wlk wlv wlr where wl: "wl = Node wll wla RED wlk wlv wlr"
      using col_RED_Node by blast
    have t: "t = Node (Node wll wla BLACK wlk wlv wlr) wa pc wk wv (Node wr pa BLACK pk pv x)"
      using d c unfolding w wl by (auto split: if_splits)
    from del_far_red_r_step[OF h[unfolded w wl] p[unfolded w wl]] obtain s2 where
      s2: "del_far_red_r s (ptr (NIL s) x) wa = delete_fixup s2 (root s2)"
      and h2: "hrep s2 fs t" and f2: "frame_ok s s2" unfolding t by blast
    show ?thesis
      unfolding w ptr.simps ch using c RED s2 h2 f2
      by (auto simp: del_near_red_r_def)
  qed
qed

lemma del_finish_root:
  assumes "hrep s fs t" "frame_ok s0 s"
  shows "\<exists>s'. delete_fixup s (root s) = Some s' \<and> hrep s' [] (paint BLACK (plug fs t))
            \<and> frame_ok s0 s'"
proof -
  have h: "hrep s [] (plug fs t)" using assms(1) hrep_plug by blast
  from del_exit_root[OF h] show ?thesis
    unfolding hrep_is_root[OF h] using assms(2) by (blast intro: frame_ok_trans)
qed

lemma del_finish_red:
  assumes "hrep s fs t" "col t = RED" "frame_ok s0 s"
  shows "\<exists>s'. delete_fixup s (ptr (NIL s) t) = Some s' \<and> hrep s' [] (plug fs (paint BLACK t))
            \<and> frame_ok s0 s'"
proof -
  from del_exit_red[OF assms(1,2)] obtain s' where
    "delete_fixup s (ptr (NIL s) t) = Some s'" "hrep s' fs (paint BLACK t)" "frame_ok s s'"
    by blast
  then show ?thesis using assms(3) hrep_plug[of s' fs] by (blast intro: frame_ok_trans)
qed

theorem delete_fixup_refine:
  assumes "del_fix fs x = Some T" "hrep s fs x" "px s fs x"
  shows "\<exists>s'. delete_fixup s (ptr (NIL s) x) = Some s' \<and> hrep s' [] T \<and> frame_ok s s'"
  using assms
proof (induction fs arbitrary: x s T)
  case Nil
  then show ?case using del_exit_root[of s x] by simp
next
  case (Cons f fs)
  note d = Cons.prems(1) and h = Cons.prems(2) and p = Cons.prems(3)
  show ?case
  proof (cases "col x")
    case RED
    have T: "T = plug (f # fs) (paint BLACK x)" using d RED by (cases f) auto
    show ?thesis unfolding T by (rule del_finish_red[OF h RED frame_ok_refl])
  next
    case BLACK
    show ?thesis
    proof (cases f)
      case (LF pa pc pk pv w)
      note en = del_enter_l[OF h[unfolded LF] p[unfolded LF] BLACK]
      show ?thesis
      proof (cases "col w")
        case wR: RED
        then obtain wl wa wk wv wr where w: "w = Node wl wa RED wk wv wr"
          using col_RED_Node by blast
        from del_red_sibling_l_step[OF h[unfolded LF w] p[unfolded LF w]] obtain s1 where
          s1: "del_red_sibling_l s (ptr (NIL s) x) wa RED = Some (s1, ptr (NIL s) wl)"
          and h1: "hrep s1 (LF pa RED pk pv wl # LF wa BLACK wk wv wr # fs) x"
          and p1: "px s1 (LF pa RED pk pv wl # LF wa BLACK wk wv wr # fs) x"
          and f1: "frame_ok s s1" by blast
        have e: "delete_fixup s (ptr (NIL s) x) = del_black_sibling_l s1 (ptr (NIL s1) x) (ptr (NIL s1) wl)"
          unfolding en w using s1 frame_ok_NIL[OF f1] by simp
        from d BLACK obtain r where r: "del_sib_l pa RED pk pv wl x = Some r"
          unfolding LF w by (auto split: option.splits)
        show ?thesis
        proof (cases r)
          case (Up t)
          have T: "T = plug (LF wa BLACK wk wv wr # fs) (paint BLACK t)"
            using d BLACK r Up unfolding LF w by simp
          have ct: "col t = RED" using r Up by (cases wl) (auto split: if_splits tree.splits)
          from del_sib_l_Up[OF h1 p1 r[unfolded Up]] obtain s2 where
            s2: "del_black_sibling_l s1 (ptr (NIL s1) x) (ptr (NIL s1) wl) = delete_fixup s2 (ptr (NIL s2) t)"
            and h2: "hrep s2 (LF wa BLACK wk wv wr # fs) t" and f2: "frame_ok s1 s2" by blast
          show ?thesis unfolding e s2 T
            by (rule del_finish_red[OF h2 ct frame_ok_trans[OF f1 f2]])
        next
          case (Done t)
          have T: "T = paint BLACK (plug (LF wa BLACK wk wv wr # fs) t)"
            using d BLACK r Done unfolding LF w by simp
          from del_sib_l_Done[OF h1 p1 r[unfolded Done]] obtain s2 where
            s2: "del_black_sibling_l s1 (ptr (NIL s1) x) (ptr (NIL s1) wl) = delete_fixup s2 (root s2)"
            and h2: "hrep s2 (LF wa BLACK wk wv wr # fs) t" and f2: "frame_ok s1 s2" by blast
          show ?thesis unfolding e s2 T
            by (rule del_finish_root[OF h2 frame_ok_trans[OF f1 f2]])
        qed
      next
        case wB: BLACK
        have e: "delete_fixup s (ptr (NIL s) x) = del_black_sibling_l s (ptr (NIL s) x) (ptr (NIL s) w)"
          unfolding en using wB by (simp add: del_red_sibling_l_def)
        from d BLACK wB obtain r where r: "del_sib_l pa pc pk pv w x = Some r"
          unfolding LF by (auto split: option.splits)
        show ?thesis
        proof (cases r)
          case (Up t)
          have T: "del_fix fs t = Some T" using d BLACK wB r Up unfolding LF by simp
          from del_sib_l_Up[OF h[unfolded LF] p[unfolded LF] r[unfolded Up]] obtain s2 where
            s2: "del_black_sibling_l s (ptr (NIL s) x) (ptr (NIL s) w) = delete_fixup s2 (ptr (NIL s2) t)"
            and h2: "hrep s2 fs t" and tn: "t \<noteq> Leaf" and f2: "frame_ok s s2" by blast
          from Cons.IH[OF T h2 px_Node[OF h2 tn]] show ?thesis
            unfolding e s2 using f2 by (blast intro: frame_ok_trans)
        next
          case (Done t)
          have T: "T = paint BLACK (plug fs t)" using d BLACK wB r Done unfolding LF by simp
          from del_sib_l_Done[OF h[unfolded LF] p[unfolded LF] r[unfolded Done]] obtain s2 where
            s2: "del_black_sibling_l s (ptr (NIL s) x) (ptr (NIL s) w) = delete_fixup s2 (root s2)"
            and h2: "hrep s2 fs t" and f2: "frame_ok s s2" by blast
          show ?thesis unfolding e s2 T by (rule del_finish_root[OF h2 f2])
        qed
      qed
    next
      case (RF w pa pc pk pv)
      have wn: "w \<noteq> Leaf" using d BLACK unfolding RF by (cases w) auto
      note en = del_enter_r[OF h[unfolded RF] p[unfolded RF] BLACK wn]
      show ?thesis
      proof (cases "col w")
        case wR: RED
        then obtain wl wa wk wv wr where w: "w = Node wl wa RED wk wv wr"
          using col_RED_Node by blast
        from del_red_sibling_r_step[OF h[unfolded RF w] p[unfolded RF w]] obtain s1 where
          s1: "del_red_sibling_r s (ptr (NIL s) x) wa RED = Some (s1, ptr (NIL s) wr)"
          and h1: "hrep s1 (RF wr pa RED pk pv # RF wl wa BLACK wk wv # fs) x"
          and p1: "px s1 (RF wr pa RED pk pv # RF wl wa BLACK wk wv # fs) x"
          and f1: "frame_ok s s1" by blast
        have e: "delete_fixup s (ptr (NIL s) x) = del_black_sibling_r s1 (ptr (NIL s1) x) (ptr (NIL s1) wr)"
          unfolding en w using s1 frame_ok_NIL[OF f1] by simp
        from d BLACK obtain r where r: "del_sib_r wr pa RED pk pv x = Some r"
          unfolding RF w by (auto split: option.splits)
        show ?thesis
        proof (cases r)
          case (Up t)
          have T: "T = plug (RF wl wa BLACK wk wv # fs) (paint BLACK t)"
            using d BLACK r Up unfolding RF w by simp
          have ct: "col t = RED" using r Up by (cases wr) (auto split: if_splits tree.splits)
          from del_sib_r_Up[OF h1 p1 r[unfolded Up]] obtain s2 where
            s2: "del_black_sibling_r s1 (ptr (NIL s1) x) (ptr (NIL s1) wr) = delete_fixup s2 (ptr (NIL s2) t)"
            and h2: "hrep s2 (RF wl wa BLACK wk wv # fs) t" and f2: "frame_ok s1 s2" by blast
          show ?thesis unfolding e s2 T
            by (rule del_finish_red[OF h2 ct frame_ok_trans[OF f1 f2]])
        next
          case (Done t)
          have T: "T = paint BLACK (plug (RF wl wa BLACK wk wv # fs) t)"
            using d BLACK r Done unfolding RF w by simp
          from del_sib_r_Done[OF h1 p1 r[unfolded Done]] obtain s2 where
            s2: "del_black_sibling_r s1 (ptr (NIL s1) x) (ptr (NIL s1) wr) = delete_fixup s2 (root s2)"
            and h2: "hrep s2 (RF wl wa BLACK wk wv # fs) t" and f2: "frame_ok s1 s2" by blast
          show ?thesis unfolding e s2 T
            by (rule del_finish_root[OF h2 frame_ok_trans[OF f1 f2]])
        qed
      next
        case wB: BLACK
        have e: "delete_fixup s (ptr (NIL s) x) = del_black_sibling_r s (ptr (NIL s) x) (ptr (NIL s) w)"
          unfolding en using wB by (simp add: del_red_sibling_r_def)
        from d BLACK wB obtain r where r: "del_sib_r w pa pc pk pv x = Some r"
          unfolding RF by (auto split: option.splits)
        show ?thesis
        proof (cases r)
          case (Up t)
          have T: "del_fix fs t = Some T" using d BLACK wB r Up unfolding RF by simp
          from del_sib_r_Up[OF h[unfolded RF] p[unfolded RF] r[unfolded Up]] obtain s2 where
            s2: "del_black_sibling_r s (ptr (NIL s) x) (ptr (NIL s) w) = delete_fixup s2 (ptr (NIL s2) t)"
            and h2: "hrep s2 fs t" and tn: "t \<noteq> Leaf" and f2: "frame_ok s s2" by blast
          from Cons.IH[OF T h2 px_Node[OF h2 tn]] show ?thesis
            unfolding e s2 using f2 by (blast intro: frame_ok_trans)
        next
          case (Done t)
          have T: "T = paint BLACK (plug fs t)" using d BLACK wB r Done unfolding RF by simp
          from del_sib_r_Done[OF h[unfolded RF] p[unfolded RF] r[unfolded Done]] obtain s2 where
            s2: "del_black_sibling_r s (ptr (NIL s) x) (ptr (NIL s) w) = delete_fixup s2 (root s2)"
            and h2: "hrep s2 fs t" and f2: "frame_ok s s2" by blast
          show ?thesis unfolding e s2 T by (rule del_finish_root[OF h2 f2])
        qed
      qed
    qed
  qed
qed

section \<open>transplant\<close>

lemma dframe_refl [simp]: "dframe s s"
  by (simp add: dframe_def)

lemma dframe_trans: "dframe s s1 \<Longrightarrow> dframe s1 s2 \<Longrightarrow> dframe s s2"
  by (auto simp: dframe_def nil_fields_def)

lemma frame_ok_dframe: "frame_ok s s' \<Longrightarrow> dframe s s'"
  by (simp add: frame_ok_def dframe_def nil_fields_def)

lemma transplant_child_r:
  assumes h: "hrep s fs (Node l u c k v r)"
  shows "\<exists>s'. transplant s u (ptr (NIL s) r) = Some s' \<and> hrep s' fs r \<and> px s' fs r
           \<and> mem s' u = mem s u \<and> dframe s s' \<and> (\<forall>a. mem s' a = None \<longleftrightarrow> mem s a = None)"
proof (cases fs)
  case Nil
  show ?thesis
    using h unfolding Nil
    by (cases r; clarsimp simp: hrep_def color_of_def px_def;
        simp add: transplant_def heap_defs dframe_def nil_fields_def disj_simps)
next
  case (Cons f fs')
  show ?thesis
  proof (cases f)
    case (LF a ac ak av ar)
    show ?thesis
      using h unfolding Cons LF
      by (cases r; clarsimp simp: hrep_def color_of_def px_def;
          simp add: transplant_def heap_defs dframe_def nil_fields_def disj_simps)
  next
    case (RF al a ac ak av)
    have ne: "ptr (NIL s) al \<noteq> u"
      using h unfolding Cons RF by (cases al) (auto simp: hrep_def)
    show ?thesis
      using h ne unfolding Cons RF
      by (cases r; clarsimp simp: hrep_def color_of_def px_def;
          simp add: transplant_def heap_defs dframe_def nil_fields_def disj_simps)
  qed
qed

lemma transplant_child_l:
  assumes h: "hrep s fs (Node l u c k v r)"
  shows "\<exists>s'. transplant s u (ptr (NIL s) l) = Some s' \<and> hrep s' fs l \<and> px s' fs l
           \<and> mem s' u = mem s u \<and> dframe s s' \<and> (\<forall>a. mem s' a = None \<longleftrightarrow> mem s a = None)"
proof (cases fs)
  case Nil
  show ?thesis
    using h unfolding Nil
    by (cases l; clarsimp simp: hrep_def color_of_def px_def;
        simp add: transplant_def heap_defs dframe_def nil_fields_def disj_simps)
next
  case (Cons f fs')
  show ?thesis
  proof (cases f)
    case (LF a ac ak av ar)
    show ?thesis
      using h unfolding Cons LF
      by (cases l; clarsimp simp: hrep_def color_of_def px_def;
          simp add: transplant_def heap_defs dframe_def nil_fields_def disj_simps)
  next
    case (RF al a ac ak av)
    have ne: "ptr (NIL s) al \<noteq> u"
      using h unfolding Cons RF by (cases al) (auto simp: hrep_def)
    show ?thesis
      using h ne unfolding Cons RF
      by (cases l; clarsimp simp: hrep_def color_of_def px_def;
          simp add: transplant_def heap_defs dframe_def nil_fields_def disj_simps)
  qed
qed

section \<open>The in-order successor\<close>

lemma erase_successor_unfold:
  "erase_successor s z = do {
     zr \<leftarrow> right_of s z;
     y \<leftarrow> minimum s zr;
     y_original \<leftarrow> color_of s y;
     x \<leftarrow> right_of s y;
     yp \<leftarrow> parent_of s y;
     s1 \<leftarrow> (if yp = z then set_parent s x y
          else do {
            yr \<leftarrow> right_of s y;
            s1 \<leftarrow> transplant s y yr;
            zr \<leftarrow> right_of s1 z;
            s1 \<leftarrow> set_right s1 y zr;
            yr \<leftarrow> right_of s1 y;
            set_parent s1 yr y
          });
     s1 \<leftarrow> erase_replace s1 z y;
     Some (s1, y_original, x)
   }"
  unfolding erase_successor_def erase_replace_def by simp

lemma erase_find_refine:
  "hrep s fs t \<Longrightarrow> erase_find s k (ptr (NIL s) t) = Some (ptr (NIL s) (snd (descend k fs t)))"
proof (induction t arbitrary: fs)
  case Leaf
  then show ?case by (subst erase_find.simps) simp
next
  case (Node l a c k' v r)
  note h = Node.prems
  note rd = hrep_reads[OF h]
  have na: "a \<noteq> NIL s" using h by (simp add: hrep_def)
  have hl: "hrep s (LF a c k' v r # fs) l" and hr: "hrep s (RF l a c k' v # fs) r"
    using h by (simp_all add: hrep_up)
  show ?case
    apply (subst erase_find.simps)
    using na rd Node.IH(1)[OF hl] Node.IH(2)[OF hr]
    by auto
qed

lemma split_min_Node:
  "t \<noteq> Leaf \<Longrightarrow> \<exists>y yc yk yv yr. snd (split_min fs t) = Node Leaf y yc yk yv yr"
  by (induction t arbitrary: fs) auto

lemma split_min_plug: "split_min fs t = (fs', t') \<Longrightarrow> plug fs' t' = plug fs t"
  by (induction t arbitrary: fs) (auto split: if_splits)

lemma split_min_append: "\<exists>g. fst (split_min fs t) = g @ fs \<and> fst (split_min [] t) = g"
proof (induction t arbitrary: fs)
  case Leaf
  then show ?case by simp
next
  case (Node l a c k v r)
  show ?case
  proof (cases "l = Leaf")
    case True
    then show ?thesis by simp
  next
    case False
    from Node.IH(1)[of "LF a c k v r # fs"] obtain g where
      g: "fst (split_min (LF a c k v r # fs) l) = g @ LF a c k v r # fs"
      by auto
    from Node.IH(1)[of "[LF a c k v r]"] obtain g' where
      g': "fst (split_min [LF a c k v r] l) = g' @ [LF a c k v r]"
        "fst (split_min [] l) = g'"
      by auto
    from Node.IH(1)[of "LF a c k v r # fs"] g'(2) have
      "fst (split_min (LF a c k v r # fs) l) = g' @ LF a c k v r # fs" by auto
    then show ?thesis using False g' by simp
  qed
qed

lemma minimum_refine:
  "hrep s fs t \<Longrightarrow> t \<noteq> Leaf \<Longrightarrow>
     minimum s (ptr (NIL s) t) = Some (ptr (NIL s) (snd (split_min fs t)))"
proof (induction t arbitrary: fs)
  case Leaf
  then show ?case by simp
next
  case (Node l a c k v r)
  note h = Node.prems(1)
  note rd = hrep_reads[OF h]
  have hl: "hrep s (LF a c k v r # fs) l" using h by (simp add: hrep_up)
  have nl: "NIL s \<notin> set (addrs l)" using h by (simp add: hrep_def)
  show ?case
    apply (subst minimum.simps)
    using rd(1) Node.IH(1)[OF hl] ptr_nil_iff[OF nl]
    by auto
qed

lemma hrep_append: "hrep s (fs1 @ fs2) t \<longleftrightarrow> hrep s fs2 (plug fs1 t)"
  by (induction fs1 arbitrary: t) (simp_all add: hrep_up)

lemma plug_ne_Leaf: "fs \<noteq> [] \<Longrightarrow> plug fs t \<noteq> Leaf"
proof (induction fs arbitrary: t)
  case Nil
  then show ?case by simp
next
  case (Cons f fs)
  show ?case
  proof (cases fs)
    case Nil
    then show ?thesis by (cases f) auto
  next
    case (Cons g gs)
    then show ?thesis using Cons.IH[of "fill f t"] by simp
  qed
qed

lemma erase_replace_refine:
  assumes m: "mid_rep s fs l z c k v y yk yv yr" and l: "l \<noteq> Leaf"
  shows "\<exists>s'. erase_replace s z y = Some s' \<and> hrep s' fs (Node l y c yk yv yr) \<and> frame_ok s s'"
proof -
  from l obtain ll la lc lk lv lr where l': "l = Node ll la lc lk lv lr" by (cases l) auto
  show ?thesis
  proof (cases fs)
    case Nil
    show ?thesis
      using m unfolding Nil l'
      apply (clarsimp simp: mid_rep_def color_of_def)
      apply (simp add: erase_replace_def transplant_def heap_defs hrep_def frame_ok_def disj_simps)
      done
  next
    case (Cons f fs')
    show ?thesis
    proof (cases f)
      case (LF a ac ak av ar)
      show ?thesis
        using m unfolding Cons LF l'
        apply (clarsimp simp: mid_rep_def color_of_def)
        apply (simp add: erase_replace_def transplant_def heap_defs hrep_def frame_ok_def disj_simps)
        done
    next
      case (RF al a ac ak av)
      have ne: "ptr (NIL s) al \<noteq> z"
        using m unfolding Cons RF by (cases al) (auto simp: mid_rep_def)
      show ?thesis
        using m ne unfolding Cons RF l'
        apply (clarsimp simp: mid_rep_def color_of_def)
        apply (simp add: erase_replace_def transplant_def heap_defs hrep_def frame_ok_def disj_simps)
        done
    qed
  qed
qed

section \<open>The two-children case of erase\<close>

lemma split_min_snd: "snd (split_min fs t) = snd (split_min [] t)"
proof (induction t arbitrary: fs)
  case Leaf
  then show ?case by simp
next
  case (Node l a c k v r)
  show ?case using Node.IH(1)[of "LF a c k v r # fs"] Node.IH(1)[of "[LF a c k v r]"] by simp
qed

lemma caddrs_append: "set (caddrs (fs1 @ fs2)) = set (caddrs fs1) \<union> set (caddrs fs2)"
  by (induction fs1) auto

lemma succ_direct:
  assumes h: "hrep s fs (Node l z c k v (Node Leaf y yc yk yv yr))"
  shows "\<exists>s'. set_parent s (ptr (NIL s) yr) y = Some s' \<and> mid_rep s' fs l z c k v y yk yv yr
           \<and> parent_of s' (ptr (NIL s) yr) = Some y \<and> dframe s s'
           \<and> (\<forall>a. mem s' a = None \<longleftrightarrow> mem s a = None)"
  using h
  by (cases yr; clarsimp simp: hrep_def color_of_def;
      simp add: heap_defs mid_rep_def dframe_def nil_fields_def disj_simps)

lemma succ_far:
  assumes h: "hrep s fs (Node l z c k v (Node rl ra rc rk rv rr))"
    and my: "mem s y = Some \<lparr>key = yk, val = yv, color = yc, parent = yp, left = yl, right = yr0\<rparr>"
    and y: "y \<notin> set (addrs l)" "y \<noteq> z" "y \<notin> set (addrs (Node rl ra rc rk rv rr))"
      "y \<notin> set (caddrs fs)" "y \<noteq> NIL s"
  shows "\<exists>s'. do { zr \<leftarrow> right_of s z; s1 \<leftarrow> set_right s y zr; yr \<leftarrow> right_of s1 y;
                    set_parent s1 yr y } = Some s'
           \<and> mid_rep s' fs l z c k v y yk yv (Node rl ra rc rk rv rr) \<and> frame_ok s s'"
  using h my y
  apply (clarsimp simp: hrep_def color_of_def)
  apply (simp add: heap_defs mid_rep_def frame_ok_def disj_simps)
  done

lemma erase_successor_refine:
  assumes h: "hrep s fs (Node l z c k v r)" and l: "l \<noteq> Leaf"
    and sm: "split_min [] r = (fsy, Node Leaf y yc yk yv yr)"
  shows "\<exists>s'. erase_successor s z = Some (s', yc, ptr (NIL s) yr)
           \<and> hrep s' (fsy @ RF l y c yk yv # fs) yr \<and> px s' (fsy @ RF l y c yk yv # fs) yr
           \<and> mem s' z \<noteq> None \<and> z \<notin> set (addrs yr) \<and> z \<notin> set (caddrs (fsy @ RF l y c yk yv # fs))
           \<and> dframe s s' \<and> (\<forall>a. mem s' a = None \<longleftrightarrow> mem s a = None)"
proof -
  define Y where "Y = Node Leaf y yc yk yv yr"
  have pl: "plug fsy Y = r" using split_min_plug[OF sm] by (simp add: Y_def)
  have rn: "r \<noteq> Leaf" using sm by (cases r) auto
  have hr: "hrep s (RF l z c k v # fs) r" using h by (simp add: hrep_up)
  have hY: "hrep s (fsy @ RF l z c k v # fs) Y" using hr by (simp add: hrep_append pl)
  have mn: "minimum s (ptr (NIL s) r) = Some y"
    using minimum_refine[OF hr rn] split_min_snd[of "RF l z c k v # fs" r] sm by simp
  note rz = hrep_reads[OF h]
  note ry = hrep_reads[OF hY[unfolded Y_def]]
  have zl: "mem s z \<noteq> None" using hrep_Node_mem[OF h] by simp
  have dz: "z \<notin> set (addrs r)" "z \<notin> set (addrs l)" "z \<notin> set (caddrs fs)"
      "distinct (addrs r)" "set (addrs l) \<inter> set (addrs r) = {}"
      "set (addrs r) \<inter> set (caddrs fs) = {}"
    using h by (auto simp: hrep_def)
  have ar: "set (addrs r) = insert y (set (addrs yr) \<union> set (caddrs fsy))"
    using addrs_plug[of fsy Y] unfolding pl by (auto simp: Y_def)
  have dY: "y \<notin> set (addrs yr)" "y \<notin> set (caddrs fsy)"
    using hY by (auto simp: hrep_def Y_def caddrs_append)
  have yn: "y \<noteq> NIL s" using hY by (auto simp: hrep_def Y_def)
  have zc: "z \<notin> set (addrs yr)" "z \<notin> set (caddrs (fsy @ RF l y c yk yv # fs))"
    using dz ar by (auto simp: caddrs_append)
  show ?thesis
  proof (cases fsy)
    case Nil
    have r: "r = Node Leaf y yc yk yv yr" using pl Nil by (simp add: Y_def)
    from succ_direct[OF h[unfolded r]] obtain s1 where
      s1: "set_parent s (ptr (NIL s) yr) y = Some s1"
      and m1: "mid_rep s1 fs l z c k v y yk yv yr"
      and p1: "parent_of s1 (ptr (NIL s) yr) = Some y" and d1: "dframe s s1"
      and e1: "\<forall>a. mem s1 a = None \<longleftrightarrow> mem s a = None" by blast
    from erase_replace_refine[OF m1 l] obtain s2 where
      s2: "erase_replace s1 z y = Some s2" and h2: "hrep s2 fs (Node l y c yk yv yr)"
      and f2: "frame_ok s1 s2" by blast
    have n1: "NIL s1 = NIL s" using d1 by (simp add: dframe_def)
    have h2': "hrep s2 ([] @ RF l y c yk yv # fs) yr" using h2 by (simp add: hrep_up)
    have px1: "px s1 (RF l y c yk yv # fs) yr" using p1 n1 by (simp add: px_def)
    have p2: "px s2 ([] @ RF l y c yk yv # fs) yr" by (rule px_frame[OF px1 f2 h2']) simp
    have d2: "dframe s s2" using d1 frame_ok_dframe[OF f2] by (rule dframe_trans)
    have e2: "\<forall>a. mem s2 a = None \<longleftrightarrow> mem s a = None" using e1 f2 by (simp add: frame_ok_def)
    have zl2: "mem s2 z \<noteq> None" using zl by (simp add: e2)
    have run: "erase_successor s z = Some (s2, yc, ptr (NIL s) yr)"
      unfolding erase_successor_unfold
      using rz(2) mn ry(2,3,4) s1 s2 unfolding Nil
      by simp
    show ?thesis
      unfolding Nil
      by (intro exI[of _ s2] conjI) (rule run h2' p2 zl2 zc[unfolded Nil] d2 e2)+
  next
    case (Cons g gs)
    have yp: "cpar (NIL s) (fsy @ RF l z c k v # fs) = faddr g" unfolding Cons by simp
    have gz: "faddr g \<noteq> z" using dz(1) ar unfolding Cons by auto
    from transplant_child_r[OF hY[unfolded Y_def]] obtain s1 where
      s1: "transplant s y (ptr (NIL s) yr) = Some s1"
      and h1: "hrep s1 (fsy @ RF l z c k v # fs) yr"
      and p1: "px s1 (fsy @ RF l z c k v # fs) yr"
      and m1: "mem s1 y = mem s y" and d1: "dframe s s1"
      and e1: "\<forall>a. mem s1 a = None \<longleftrightarrow> mem s a = None" by blast
    have n1: "NIL s1 = NIL s" using d1 by (simp add: dframe_def)
    define R where "R = plug fsy yr"
    have Rn: "R \<noteq> Leaf" unfolding R_def by (rule plug_ne_Leaf) (simp add: Cons)
    then obtain rl ra rc rk rv rr where R: "R = Node rl ra rc rk rv rr" by (cases R) auto
    have h1': "hrep s1 fs (Node l z c k v R)" using h1 by (simp add: hrep_append hrep_up R_def)
    have aR: "set (addrs R) = set (addrs yr) \<union> set (caddrs fsy)"
      unfolding R_def by (rule addrs_plug)
    have my: "mem s1 y = Some \<lparr>key = yk, val = yv, color = yc, parent = faddr g,
                 left = NIL s1, right = ptr (NIL s1) yr\<rparr>"
      using hrep_Node_mem[OF hY[unfolded Y_def]] m1 n1 yp by simp
    have yy: "y \<notin> set (addrs l)" "y \<noteq> z" "y \<notin> set (addrs R)" "y \<notin> set (caddrs fs)" "y \<noteq> NIL s1"
      using dz ar dY aR yn n1 by auto
    from succ_far[OF h1'[unfolded R] my yy(1,2) yy(3)[unfolded R] yy(4,5)] obtain s2 where
      s2: "do { zr \<leftarrow> right_of s1 z; s' \<leftarrow> set_right s1 y zr; yr \<leftarrow> right_of s' y;
                set_parent s' yr y } = Some s2"
      and m2: "mid_rep s2 fs l z c k v y yk yv R" and f2: "frame_ok s1 s2"
      unfolding R by blast
    from erase_replace_refine[OF m2 l] obtain s3 where
      s3: "erase_replace s2 z y = Some s3" and h3: "hrep s3 fs (Node l y c yk yv R)"
      and f3: "frame_ok s2 s3" by blast
    have f13: "frame_ok s1 s3" using f2 f3 by (rule frame_ok_trans)
    have h3': "hrep s3 (fsy @ RF l y c yk yv # fs) yr"
      using h3 by (simp add: hrep_append hrep_up R_def)
    have p3: "px s3 (fsy @ RF l y c yk yv # fs) yr"
      by (rule px_frame[OF p1 f13 h3']) (simp add: Cons)
    have d3: "dframe s s3" using d1 frame_ok_dframe[OF f13] by (rule dframe_trans)
    have e3: "\<forall>a. mem s3 a = None \<longleftrightarrow> mem s a = None" using e1 f13 by (simp add: frame_ok_def)
    have zl3: "mem s3 z \<noteq> None" using zl by (simp add: e3)
    have run: "erase_successor s z = Some (s3, yc, ptr (NIL s) yr)"
      unfolding erase_successor_unfold
      using rz(2) mn ry(2,3,4) yp gz s1 s2 s3
      by simp
    show ?thesis
      by (intro exI[of _ s3] conjI) (rule run h3' p3 zl3 zc d3 e3)+
  qed
qed

section \<open>erase on a tree\<close>

lemma px_delete_other:
  "px s fs x \<Longrightarrow> ptr (NIL s) x \<noteq> z \<Longrightarrow> px (s\<lparr>mem := (mem s)(z := None)\<rparr>) fs x"
  by (simp add: px_def parent_of_def)

lemma erase_finish:
  assumes h: "hrep s1 F x" and p: "px s1 F x" and zl: "mem s1 z \<noteq> None"
    and zn: "z \<notin> set (addrs x)" "z \<notin> set (caddrs F)" "z \<noteq> NIL s1"
    and d: "(if yc = BLACK then del_fix F x else Some (plug F x)) = Some T"
  shows "\<exists>s'. (do { s \<leftarrow> delete_node s1 z;
                     s \<leftarrow> (if yc = BLACK then delete_fixup s (ptr (NIL s1) x) else Some s);
                     Some (True, s) }) = Some (True, s')
          \<and> hrep s' [] T \<and> NIL s' = NIL s1 \<and> brk s' = brk s1 \<and> nil_fields s' = nil_fields s1
          \<and> (\<forall>a. mem s1 a = None \<longrightarrow> mem s' a = None) \<and> trace s' = trace s1"
proof -
  define s2 where "s2 = s1\<lparr>mem := (mem s1)(z := None)\<rparr>"
  have del: "delete_node s1 z = Some s2" using zl by (auto simp: delete_node_def s2_def)
  have h2: "hrep s2 F x" unfolding s2_def by (rule hrep_delete_other[OF h zn])
  have pz: "ptr (NIL s1) x \<noteq> z" using zn ptr_cases[of "NIL s1" x] by auto
  have p2: "px s2 F x" unfolding s2_def by (rule px_delete_other[OF p pz])
  have n2: "NIL s2 = NIL s1" "brk s2 = brk s1" "trace s2 = trace s1"
    "nil_fields s2 = nil_fields s1" "\<forall>a. mem s1 a = None \<longrightarrow> mem s2 a = None"
    using zn(3) by (simp_all add: s2_def nil_fields_def)
  show ?thesis
  proof (cases yc)
    case BLACK
    with d have d': "del_fix F x = Some T" by simp
    from delete_fixup_refine[OF d' h2 p2] obtain s3 where
      s3: "delete_fixup s2 (ptr (NIL s2) x) = Some s3" and h3: "hrep s3 [] T"
      and f3: "frame_ok s2 s3" by blast
    have n3: "nil_fields s3 = nil_fields s1" "\<forall>a. mem s1 a = None \<longrightarrow> mem s3 a = None"
      "NIL s3 = NIL s1" "brk s3 = brk s1" "trace s3 = trace s1"
      using f3 n2 by (auto simp: frame_ok_def nil_fields_def)
    show ?thesis
      using BLACK del s3 h3 n3 n2(1)
      by (simp add: nil_fields_def)
  next
    case RED
    with d have T: "T = plug F x" by simp
    have h4: "hrep s2 [] T" using h2 unfolding T by (simp add: hrep_plug[of _ F])
    show ?thesis
      using RED del h4 n2
      by (simp add: nil_fields_def)
  qed
qed

theorem erase_body_refine:
  assumes h: "hrep s [] t" and d: "del_tree k t = Some T"
  shows "\<exists>s'. erase_body s k = Some (snd (descend k [] t) \<noteq> Leaf, s') \<and> hrep s' [] T
           \<and> NIL s' = NIL s \<and> brk s' = brk s \<and> nil_fields s' = nil_fields s
           \<and> (\<forall>a. mem s a = None \<longrightarrow> mem s' a = None)
           \<and> trace s' = trace s
           \<and> (snd (descend k [] t) = Leaf \<longrightarrow> s' = s)"
proof -
  define s0 where "s0 = s"
  have h0: "hrep s0 [] t" using h by (simp add: s0_def)
  have n0: "NIL s0 = NIL s" "brk s0 = brk s" "mem s0 = mem s" "root s0 = root s"
    "trace s0 = trace s" "nil_fields s0 = nil_fields s"
    by (simp_all add: s0_def nil_fields_def)
  obtain fs t' where dt: "descend k [] t = (fs, t')" by (cases "descend k [] t") auto
  have fnd: "erase_find s0 k (root s0) = Some (ptr (NIL s0) t')"
    using erase_find_refine[OF h0, of k] hrep_is_root[OF h0] dt by simp
  have st: "erase_body s k = do {
     z \<leftarrow> erase_find s0 k (root s0);
     if z = NIL s0 then Some (False, s0)
     else do {
       y_original \<leftarrow> color_of s0 z;
       zl \<leftarrow> left_of s0 z;
       (s1, y_original, x) \<leftarrow>
         (if zl = NIL s0 then do {
            x \<leftarrow> right_of s0 z;
            s1 \<leftarrow> transplant s0 z x;
            Some (s1, y_original, x)
          } else do {
            zr \<leftarrow> right_of s0 z;
            if zr = NIL s0 then do {
              x \<leftarrow> left_of s0 z;
              s1 \<leftarrow> transplant s0 z x;
              Some (s1, y_original, x)
            } else erase_successor s0 z
          });
       s1 \<leftarrow> delete_node s1 z;
       s1 \<leftarrow> (if y_original = BLACK then delete_fixup s1 x else Some s1);
       Some (True, s1)
     }
   }"
    unfolding erase_body_def s0_def by simp
  show ?thesis
  proof (cases t')
    case Leaf
    have T: "T = t" using d dt Leaf by (simp add: del_tree_def)
    show ?thesis
      unfolding st fnd dt Leaf T using h
      by (simp add: s0_def nil_fields_def)
  next
    case (Node l z c k' v r)
    have hz: "hrep s0 fs (Node l z c k' v r)"
      using h0 descend_plug[OF dt] unfolding Node by (simp add: hrep_plug[of _ fs])
    have zn: "z \<noteq> NIL s0" "z \<notin> set (addrs l)" "z \<notin> set (addrs r)" "z \<notin> set (caddrs fs)"
      "NIL s0 \<notin> set (addrs l)" "NIL s0 \<notin> set (addrs r)"
      using hz by (auto simp: hrep_def)
    note rz = hrep_reads[OF hz]
    have "\<exists>s1 yc x F. (do {
       y_original \<leftarrow> color_of s0 z;
       zl \<leftarrow> left_of s0 z;
       (if zl = NIL s0 then do {
            x \<leftarrow> right_of s0 z;
            s1 \<leftarrow> transplant s0 z x;
            Some (s1, y_original, x)
          } else do {
            zr \<leftarrow> right_of s0 z;
            if zr = NIL s0 then do {
              x \<leftarrow> left_of s0 z;
              s1 \<leftarrow> transplant s0 z x;
              Some (s1, y_original, x)
            } else erase_successor s0 z
          }) }) = Some (s1, yc, ptr (NIL s0) x)
        \<and> hrep s1 F x \<and> px s1 F x \<and> mem s1 z \<noteq> None \<and> z \<notin> set (addrs x) \<and> z \<notin> set (caddrs F)
        \<and> dframe s0 s1 \<and> (if yc = BLACK then del_fix F x else Some (plug F x)) = Some T"
    proof (cases "l = Leaf")
      case True
      from transplant_child_r[OF hz] obtain s1 where
        s1: "transplant s0 z (ptr (NIL s0) r) = Some s1" "hrep s1 fs r" "px s1 fs r"
          "mem s1 z = mem s0 z" "dframe s0 s1" by blast
      have zl: "mem s1 z \<noteq> None" using s1(4) hrep_Node_mem[OF hz] by simp
      have dd: "(if c = BLACK then del_fix fs r else Some (plug fs r)) = Some T"
        using d dt Node True by (simp add: del_tree_def)
      show ?thesis
        apply (rule exI[of _ s1], rule exI[of _ c], rule exI[of _ r], rule exI[of _ fs])
        using rz True s1 zl zn dd by simp
    next
      case False
      note ln = False
      show ?thesis
      proof (cases "r = Leaf")
        case True
        from transplant_child_l[OF hz] obtain s1 where
          s1: "transplant s0 z (ptr (NIL s0) l) = Some s1" "hrep s1 fs l" "px s1 fs l"
            "mem s1 z = mem s0 z" "dframe s0 s1" by blast
        have zl: "mem s1 z \<noteq> None" using s1(4) hrep_Node_mem[OF hz] by simp
        have dd: "(if c = BLACK then del_fix fs l else Some (plug fs l)) = Some T"
          using d dt Node True ln by (simp add: del_tree_def)
        show ?thesis
          apply (rule exI[of _ s1], rule exI[of _ c], rule exI[of _ l], rule exI[of _ fs])
          using rz True ln s1 zl zn dd ptr_nil_iff[OF zn(5)] by simp
      next
        case False
        from split_min_Node[OF False, of "[]"] obtain fsy y yc yk yv yr where
          sm: "split_min [] r = (fsy, Node Leaf y yc yk yv yr)"
          by (cases "split_min [] r") auto
        from erase_successor_refine[OF hz ln sm] obtain s1 where
          s1: "erase_successor s0 z = Some (s1, yc, ptr (NIL s0) yr)"
            "hrep s1 (fsy @ RF l y c yk yv # fs) yr" "px s1 (fsy @ RF l y c yk yv # fs) yr"
            "mem s1 z \<noteq> None" "z \<notin> set (addrs yr)" "z \<notin> set (caddrs (fsy @ RF l y c yk yv # fs))"
            "dframe s0 s1" by blast
        have dd: "(if yc = BLACK then del_fix (fsy @ RF l y c yk yv # fs) yr
                   else Some (plug (fsy @ RF l y c yk yv # fs) yr)) = Some T"
          using d dt Node False ln sm by (simp add: del_tree_def)
        show ?thesis
          apply (rule exI[of _ s1], rule exI[of _ yc], rule exI[of _ yr],
                 rule exI[of _ "fsy @ RF l y c yk yv # fs"])
          using rz False ln s1 dd ptr_nil_iff[OF zn(5)] ptr_nil_iff[OF zn(6)] by simp
      qed
    qed
    then obtain s1 yc x F where
      pre: "(do {
       y_original \<leftarrow> color_of s0 z;
       zl \<leftarrow> left_of s0 z;
       (if zl = NIL s0 then do {
            x \<leftarrow> right_of s0 z;
            s1 \<leftarrow> transplant s0 z x;
            Some (s1, y_original, x)
          } else do {
            zr \<leftarrow> right_of s0 z;
            if zr = NIL s0 then do {
              x \<leftarrow> left_of s0 z;
              s1 \<leftarrow> transplant s0 z x;
              Some (s1, y_original, x)
            } else erase_successor s0 z
          }) }) = Some (s1, yc, ptr (NIL s0) x)"
      and h1: "hrep s1 F x" and p1: "px s1 F x" and zl: "mem s1 z \<noteq> None"
      and zx: "z \<notin> set (addrs x)" "z \<notin> set (caddrs F)"
      and d1: "dframe s0 s1"
      and dd: "(if yc = BLACK then del_fix F x else Some (plug F x)) = Some T"
      by blast
    have n1: "NIL s1 = NIL s0" using d1 by (simp add: dframe_def)
    from erase_finish[OF h1 p1 zl zx _ dd] zn(1) n1 obtain s' where
      fin: "(do { s \<leftarrow> delete_node s1 z;
                     s \<leftarrow> (if yc = BLACK then delete_fixup s (ptr (NIL s1) x) else Some s);
                     Some (True, s) }) = Some (True, s')"
      and hF: "hrep s' [] T" and nF: "NIL s' = NIL s1" "brk s' = brk s1"
        "nil_fields s' = nil_fields s1" "\<forall>a. mem s1 a = None \<longrightarrow> mem s' a = None"
        "trace s' = trace s1"
      by auto
    have run: "erase_body s k = Some (True, s')"
      unfolding st fnd Node
      apply (simp add: zn(1))
      apply (subst bind_assoc[symmetric])
      apply (subst bind_assoc[symmetric])
      apply (simp only: pre)
      using fin[unfolded n1] apply simp
      done
    show ?thesis
      unfolding run dt Node
      using hF nF d1 n0 by (auto simp: dframe_def)
  qed
qed

theorem erase_refine:
  assumes h: "hrep s [] t" and d: "del_tree k t = Some T"
  shows "\<exists>s'. erase s k = Some (snd (descend k [] t) \<noteq> Leaf, s') \<and> hrep s' [] T
           \<and> NIL s' = NIL s \<and> brk s' = brk s \<and> nil_fields s' = nil_fields s
           \<and> (\<forall>a. mem s a = None \<longrightarrow> mem s' a = None)
           \<and> trace s' = trace s @ [LockWriters, UnlockWriters]
           \<and> (snd (descend k [] t) = Leaf \<longrightarrow> mem s' = mem s \<and> root s' = root s)"
proof -
  have h0: "hrep (log_event s LockWriters) [] t" using h by simp
  from erase_body_refine[OF h0 d] obtain s1 where
    s1: "erase_body (log_event s LockWriters) k = Some (snd (descend k [] t) \<noteq> Leaf, s1)"
    and h1: "hrep s1 [] T" and n1: "NIL s1 = NIL s" "brk s1 = brk s"
      "nil_fields s1 = nil_fields s" "\<forall>a. mem s a = None \<longrightarrow> mem s1 a = None"
      "trace s1 = trace s @ [LockWriters]"
      "snd (descend k [] t) = Leaf \<longrightarrow> s1 = log_event s LockWriters"
    by (auto simp: nil_fields_def)
  have e: "erase s k = Some (snd (descend k [] t) \<noteq> Leaf, log_event s1 UnlockWriters)"
    by (simp add: erase_def lock_writers_def unlock_writers_def s1)
  show ?thesis
    unfolding e using h1 n1 by (auto simp: nil_fields_def)
qed

section \<open>Invariants through insert\_fixup\<close>

lemma bheight_fill: "invh (fill f t) \<Longrightarrow> bheight (fill f t) = bheight t + fbh f"
  by (cases f) auto

lemma invh_fill: "invh (fill f t) \<longleftrightarrow> invh t \<and> bheight (fsib f) = bheight t \<and> invh (fsib f)"
  by (cases f) auto

lemma invh_plug: "invh (plug fs t) \<longleftrightarrow> invh t \<and> cinvh fs (bheight t)"
proof (induction fs arbitrary: t)
  case Nil
  then show ?case by simp
next
  case (Cons f fs)
  show ?case
    using bheight_fill[of f t] by (auto simp: Cons.IH invh_fill simp del: fbh.simps)
qed

lemma col_fill [simp]: "col (fill f t) = fcol f"
  by (cases f) auto

lemma invc_fill:
  "invc (fill f t) \<longleftrightarrow>
     (fcol f = RED \<longrightarrow> col t = BLACK \<and> col (fsib f) = BLACK) \<and> invc t \<and> invc (fsib f)"
  by (cases f) auto

lemma invc_plug: "invc (plug fs t) \<longleftrightarrow> invc t \<and> cinvc fs (col t)"
proof (induction fs arbitrary: t)
  case Nil
  then show ?case by simp
next
  case (Cons f fs)
  show ?case by (auto simp: Cons.IH invc_fill)
qed

lemma cinvc_BLACK: "cinvc fs c \<Longrightarrow> cinvc fs BLACK"
  by (cases fs) auto

lemma cinvc_under_black: "cinvc (f # fs) BLACK \<Longrightarrow> fcol f = BLACK \<Longrightarrow> cinvc (f # fs) c"
  by simp

lemma entries_fill:
  "entries (fill f t) = cleft [f] @ entries t @ cright [f]"
  by (cases f) auto

lemma cleft_Cons: "cleft (f # fs) = cleft fs @ cleft [f]"
  by (cases f) auto

lemma cright_Cons: "cright (f # fs) = cright [f] @ cright fs"
  by (cases f) auto

lemma entries_plug: "entries (plug fs t) = cleft fs @ entries t @ cright fs"
proof (induction fs arbitrary: t)
  case Nil
  then show ?case by simp
next
  case (Cons f fs)
  show ?case
    unfolding plug.simps Cons.IH entries_fill
    by (subst cleft_Cons, subst (2) cright_Cons) simp
qed

lemma col_plug: "col (plug fs t) = ctop fs (col t)"
  by (induction fs arbitrary: t) auto

lemma entries_paint [simp]: "entries (paint c t) = entries t"
  by (cases t) auto

lemma invh_paint [simp]: "invh (paint c t) = invh t"
  by (cases t) auto

lemma invc_paint_BLACK: "invc t \<Longrightarrow> invc (paint BLACK t)"
  by (cases t) auto

lemma col_paint_BLACK [simp]: "col (paint BLACK t) = BLACK"
  by (cases t) auto

lemma bheight_paint_RED_BLACK: "col t = RED \<Longrightarrow> bheight (paint BLACK t) = Suc (bheight t)"
  by (cases t) auto

lemma rootblack_Cons: "rootblack (f # g # fs) \<Longrightarrow> rootblack (g # fs)"
  by (simp add: rootblack_def)

lemma rootblack_tl2: "rootblack (f # g # fs) \<Longrightarrow> rootblack fs"
  by (cases fs) (simp_all add: rootblack_def)

lemma rootblack_single: "rootblack [f] \<Longrightarrow> fcol f = BLACK"
  by (simp add: rootblack_def)

text \<open>The rotations of \<open>insert_fixup\<close> on a RED node below a RED parent and a BLACK uncle.\<close>

lemma ins_rot_inv:
  assumes "col t = RED" "invc t" "invh t" "fcol p = RED" "fcol g = BLACK"
    "col (fsib p) = BLACK" "invc (fsib p)" "invh (fsib p)" "bheight (fsib p) = bheight t"
    "col (fsib g) = BLACK" "invc (fsib g)" "invh (fsib g)" "bheight (fsib g) = bheight t"
  shows "invc (ins_rot p g t) \<and> invh (ins_rot p g t) \<and> col (ins_rot p g t) = BLACK
         \<and> bheight (ins_rot p g t) = Suc (bheight t)
         \<and> entries (ins_rot p g t) = entries (fill g (fill p t))"
proof -
  from assms(1) obtain zl z zk zv zr where t: "t = Node zl z RED zk zv zr"
    using col_RED_Node by blast
  show ?thesis
    using assms unfolding t
    by (cases p; cases g) auto
qed

theorem ins_fix_inv:
  assumes "col t = RED" "invc t" "invh t" "cinvh fs (bheight t)" "cinvc fs BLACK" "rootblack fs"
  shows "invc (paint BLACK (ins_fix fs t)) \<and> invh (ins_fix fs t)
         \<and> entries (ins_fix fs t) = entries (plug fs t)"
  using assms
proof (induction fs t rule: ins_fix.induct[case_names rec nil single])
  case (rec p g fs t)
  show ?case
  proof (cases "fcol p")
    case BLACK
    have e: "ins_fix (p # g # fs) t = plug (p # g # fs) t" using BLACK by simp
    have "invc (plug (p # g # fs) t)"
      unfolding invc_plug using rec.prems(2,5) BLACK by simp
    moreover have "invh (plug (p # g # fs) t)"
      unfolding invh_plug using rec.prems(3,4) by simp
    ultimately show ?thesis unfolding e by (simp add: invc_paint_BLACK)
  next
    case RED
    have gB: "fcol g = BLACK" and cp: "col (fsib p) = BLACK" "invc (fsib p)"
      and cg: "invc (fsib g)" and cf: "cinvc fs BLACK"
      using rec.prems(5) RED by auto
    have hp: "bheight (fsib p) = bheight t" "invh (fsib p)"
      and hg: "bheight (fsib g) = bheight t" "invh (fsib g)"
      and hf: "cinvh fs (Suc (bheight t))"
      using rec.prems(4) RED gB by auto
    show ?thesis
    proof (cases "col (fsib g)")
      case uR: RED
      define t' where "t' = fill (fpaint RED (sibpaint BLACK g)) (fill (fpaint BLACK p) t)"
      have e: "ins_fix (p # g # fs) t = ins_fix fs t'" using RED uR by (simp add: t'_def)
      from uR obtain ul ua uk uv ur where u: "fsib g = Node ul ua RED uk uv ur"
        using col_RED_Node by blast
      have 1: "col t' = RED" unfolding t'_def by (cases g) auto
      have 2: "invc t'"
        unfolding t'_def using rec.prems(2) cp cg u by (cases g; cases p) auto
      have 3: "invh t'"
        unfolding t'_def using rec.prems(3) hp hg u by (cases g; cases p) auto
      have 4: "bheight t' = Suc (bheight t)"
        unfolding t'_def using hp hg u by (cases g; cases p) auto
      have 5: "entries (plug fs t') = entries (plug (p # g # fs) t)"
        unfolding t'_def using u by (cases g; cases p) (auto simp: entries_plug)
      from rec.IH[OF RED uR, folded t'_def, OF 1 2 3 _ cf rootblack_tl2[OF rec.prems(6)]] hf 4 5
      show ?thesis unfolding e by simp
    next
      case uB: BLACK
      have e: "ins_fix (p # g # fs) t = plug fs (ins_rot p g t)" using RED uB by simp
      from ins_rot_inv[OF rec.prems(1,2,3) RED gB cp hp(2,1) uB cg hg(2,1)]
      have r: "invc (ins_rot p g t)" "invh (ins_rot p g t)" "col (ins_rot p g t) = BLACK"
        "bheight (ins_rot p g t) = Suc (bheight t)"
        "entries (ins_rot p g t) = entries (fill g (fill p t))" by auto
      have "invc (plug fs (ins_rot p g t))" unfolding invc_plug using r cf by simp
      moreover have "invh (plug fs (ins_rot p g t))" unfolding invh_plug using r hf by simp
      moreover have "entries (plug fs (ins_rot p g t)) = entries (plug (p # g # fs) t)"
        using r(5) by (simp add: entries_plug)
      ultimately show ?thesis unfolding e by (simp add: invc_paint_BLACK)
    qed
  qed
next
  case (nil t)
  then show ?case by (simp add: invc_paint_BLACK)
next
  case (single p t)
  have b: "fcol p = BLACK" using rootblack_single[OF single.prems(6)] .
  have "invc (fill p t)" unfolding invc_fill using single.prems(2,5) b by simp
  moreover have "invh (fill p t)" unfolding invh_fill using single.prems(3,4) by simp
  ultimately show ?case by (simp add: invc_paint_BLACK)
qed

section \<open>Invariants through insert\<close>

lemma map_of_mid_insert:
  "\<forall>x\<in>set A. fst x \<noteq> k \<Longrightarrow> map_of (A @ (k, v) # B) = (map_of (A @ B))(k \<mapsto> v)"
  by (induction A) (auto simp: fun_upd_twist)

lemma map_of_mid_delete:
  "\<forall>x\<in>set A. fst x \<noteq> k \<Longrightarrow> \<forall>x\<in>set B. fst x \<noteq> k \<Longrightarrow>
     map_of (A @ B) = (map_of (A @ (k, v) # B))(k := None)"
proof (induction A)
  case Nil
  have "map_of B k = None" using Nil(2) by (induction B) auto
  then show ?case by (auto simp: fun_eq_iff)
next
  case (Cons a A)
  then show ?case by (cases a) (auto simp: fun_upd_twist)
qed

lemma map_of_mid_update:
  "\<forall>x\<in>set A. fst x \<noteq> k \<Longrightarrow>
     map_of (A @ (k, v) # B) = (map_of (A @ (k, v') # B))(k \<mapsto> v)"
  by (induction A) (auto simp: fun_upd_twist)

lemma map_of_mid_found:
  "\<forall>x\<in>set A. fst x \<noteq> k \<Longrightarrow> map_of (A @ (k, v) # B) k = Some v"
  by (induction A) auto

lemma map_of_mid_missing:
  "\<forall>x\<in>set A. fst x \<noteq> k \<Longrightarrow> map_of A k = None"
  by (induction A) auto

lemma context_bounds:
  assumes "sorted_wrt (<) (map fst (cleft fs @ E @ cright fs))" "list_all (dir_ok k) fs"
  shows "(\<forall>x\<in>set (cleft fs). fst x < k) \<and> (\<forall>x\<in>set (cright fs). k < fst x)"
  using assms
proof (induction fs arbitrary: E)
  case Nil
  then show ?case by simp
next
  case (Cons f fs)
  show ?case
  proof (cases f)
    case (LF a c k' v r)
    have k: "k < k'" using Cons.prems(2) LF by simp
    have s: "sorted_wrt (<) (map fst (cleft fs @ (E @ (k', v) # entries r) @ cright fs))"
      using Cons.prems(1) LF by simp
    from Cons.IH[OF s] Cons.prems(2) have
      ih: "\<forall>x\<in>set (cleft fs). fst x < k" "\<forall>x\<in>set (cright fs). k < fst x" by auto
    have "\<forall>x\<in>set (entries r). k' < fst x"
      using s by (auto simp: sorted_wrt_append)
    then show ?thesis using ih k LF by auto
  next
    case (RF l a c k' v)
    have k: "k' < k" using Cons.prems(2) RF by simp
    have s: "sorted_wrt (<) (map fst (cleft fs @ (entries l @ (k', v) # E) @ cright fs))"
      using Cons.prems(1) RF by simp
    from Cons.IH[OF s] Cons.prems(2) have
      ih: "\<forall>x\<in>set (cleft fs). fst x < k" "\<forall>x\<in>set (cright fs). k < fst x" by auto
    have "\<forall>x\<in>set (entries l). fst x < k'"
      using s by (auto simp: sorted_wrt_append)
    then show ?thesis using ih k RF by auto
  qed
qed

lemma descend_missing:
  assumes "sorted_keys t" "descend k [] t = (fs, Leaf)"
  shows "entries t = cleft fs @ cright fs"
    "\<forall>x\<in>set (cleft fs). fst x < k" "\<forall>x\<in>set (cright fs). k < fst x"
proof -
  have p: "plug fs Leaf = t" using descend_plug[OF assms(2)] by simp
  show e: "entries t = cleft fs @ cright fs" using entries_plug[of fs Leaf] p by simp
  have d: "list_all (dir_ok k) fs" using descend_dir_ok[OF assms(2)] by simp
  have s: "sorted_wrt (<) (map fst (cleft fs @ [] @ cright fs))"
    using assms(1) e by (simp add: sorted_keys_def)
  from context_bounds[OF s d]
  show "\<forall>x\<in>set (cleft fs). fst x < k" "\<forall>x\<in>set (cright fs). k < fst x" by auto
qed

lemma descend_found:
  assumes "sorted_keys t" "descend k [] t = (fs, Node l x c k' v' r)"
  shows "k' = k" "entries t = (cleft fs @ entries l) @ (k, v') # (entries r @ cright fs)"
    "\<forall>x\<in>set (cleft fs @ entries l). fst x < k" "\<forall>x\<in>set (entries r @ cright fs). k < fst x"
proof -
  show k: "k' = k" using descend_key[OF assms(2)] .
  have p: "plug fs (Node l x c k' v' r) = t" using descend_plug[OF assms(2)] by simp
  show e: "entries t = (cleft fs @ entries l) @ (k, v') # (entries r @ cright fs)"
    using entries_plug[of fs "Node l x c k' v' r"] p k by simp
  have d: "list_all (dir_ok k) fs" using descend_dir_ok[OF assms(2)] by simp
  have s: "sorted_wrt (<) (map fst (cleft fs @ (entries l @ (k, v') # entries r) @ cright fs))"
    using assms(1) e by (simp add: sorted_keys_def)
  from context_bounds[OF s d] have
    b: "\<forall>x\<in>set (cleft fs). fst x < k" "\<forall>x\<in>set (cright fs). k < fst x" by auto
  have "\<forall>x\<in>set (entries l). fst x < k" "\<forall>x\<in>set (entries r). k < fst x"
    using s by (auto simp: sorted_wrt_append)
  with b show "\<forall>x\<in>set (cleft fs @ entries l). fst x < k"
    "\<forall>x\<in>set (entries r @ cright fs). k < fst x" by auto
qed

lemma sorted_mid_insert:
  "sorted_wrt (<) (map fst (A @ B)) \<Longrightarrow> \<forall>x\<in>set A. fst x < k \<Longrightarrow> \<forall>x\<in>set B. k < fst x
     \<Longrightarrow> sorted_wrt (<) (map fst (A @ (k, v) # B))"
  by (auto simp: sorted_wrt_append)

lemma sorted_mid_delete:
  "sorted_wrt (<) (map fst (A @ (k, v) # B)) \<Longrightarrow> sorted_wrt (<) (map fst (A @ B))"
  by (auto simp: sorted_wrt_append)

lemma sorted_mid_update:
  "sorted_wrt (<) (map fst (A @ (k, v) # B)) \<Longrightarrow> sorted_wrt (<) (map fst (A @ (k, v') # B))"
  by (auto simp: sorted_wrt_append)

lemma ctop_last: "fs \<noteq> [] \<Longrightarrow> ctop fs c = fcol (last fs)"
proof (induction fs arbitrary: c)
  case Nil
  then show ?case by simp
next
  case (Cons f fs)
  then show ?case by (cases fs) auto
qed

lemma rootblack_descend:
  assumes "descend k [] t = (fs, t')" "col t = BLACK"
  shows "rootblack fs"
proof (cases fs)
  case Nil
  then show ?thesis by (simp add: rootblack_def)
next
  case (Cons f fs')
  then show ?thesis
    using descend_last_col[OF assms(1)] assms(2) ctop_last[of fs BLACK]
    by (simp add: rootblack_def)
qed

theorem ins_tree_inv:
  assumes "rbt t"
  shows "rbt (ins_tree z k v t)"
    "map_of (entries (ins_tree z k v t)) = (map_of (entries t))(k \<mapsto> v)"
proof -
  have c: "col t = BLACK" and ic: "invc t" and ih: "invh t" and so: "sorted_keys t"
    using assms by (simp_all add: rbt_def)
  obtain fs t' where d: "descend k [] t = (fs, t')" by (cases "descend k [] t") auto
  have p: "plug fs t' = t" using descend_plug[OF d] by simp
  have "rbt (ins_tree z k v t) \<and> map_of (entries (ins_tree z k v t)) = (map_of (entries t))(k \<mapsto> v)"
  proof (cases t')
    case Leaf
    define N where "N = Node Leaf z RED k v (Leaf :: ('a, 'b) tree)"
    have e: "ins_tree z k v t = paint BLACK (ins_fix fs N)"
      using d Leaf by (simp add: ins_tree_def N_def)
    have ch: "cinvh fs 0" using ih p[symmetric] Leaf by (simp add: invh_plug)
    have cc: "cinvc fs BLACK" using ic p[symmetric] Leaf by (simp add: invc_plug)
    have rb: "rootblack fs" using rootblack_descend[OF d c] .
    from ins_fix_inv[of N fs] ch cc rb have
      r: "invc (paint BLACK (ins_fix fs N))" "invh (ins_fix fs N)"
        "entries (ins_fix fs N) = entries (plug fs N)"
      by (simp_all add: N_def)
    note m = descend_missing[OF so d[unfolded Leaf]]
    have en: "entries (ins_tree z k v t) = cleft fs @ (k, v) # cright fs"
      unfolding e using r(3) by (simp add: entries_plug N_def)
    have s: "sorted_wrt (<) (map fst (cleft fs @ cright fs))"
      using so m(1) by (simp add: sorted_keys_def)
    have ne: "\<forall>x\<in>set (cleft fs). fst x \<noteq> k" using m(2) by auto
    have M: "map_of (entries (ins_tree z k v t)) = (map_of (entries t))(k \<mapsto> v)"
      unfolding en m(1) by (rule map_of_mid_insert[OF ne])
    have S: "sorted_keys (ins_tree z k v t)"
      unfolding sorted_keys_def en by (rule sorted_mid_insert[OF s m(2,3)])
    show ?thesis
      using r(1,2) S M by (simp add: rbt_def e)
  next
    case (Node l x c' k' v' r)
    note f = descend_found[OF so d[unfolded Node]]
    have e: "ins_tree z k v t = plug fs (Node l x c' k v r)"
      using d Node f(1) by (simp add: ins_tree_def)
    have ic': "invc (plug fs (Node l x c' k v r))"
      using ic p[symmetric] Node by (simp add: invc_plug)
    have ih': "invh (plug fs (Node l x c' k v r))"
      using ih p[symmetric] Node by (simp add: invh_plug)
    have cb: "col (plug fs (Node l x c' k v r)) = BLACK"
      using c p[symmetric] Node by (simp add: col_plug)
    have en: "entries (ins_tree z k v t) = (cleft fs @ entries l) @ (k, v) # (entries r @ cright fs)"
      unfolding e by (simp add: entries_plug)
    have ne: "\<forall>x\<in>set (cleft fs @ entries l). fst x \<noteq> k" using f(3) by auto
    have s: "sorted_wrt (<) (map fst ((cleft fs @ entries l) @ (k, v') # (entries r @ cright fs)))"
      using so f(2) by (simp add: sorted_keys_def)
    have M: "map_of (entries (ins_tree z k v t)) = (map_of (entries t))(k \<mapsto> v)"
      unfolding en f(2) by (rule map_of_mid_update[OF ne])
    have S: "sorted_keys (ins_tree z k v t)"
      unfolding sorted_keys_def en by (rule sorted_mid_update[OF s])
    show ?thesis
      using ic' ih' cb S M by (simp add: rbt_def e)
  qed
  then show "rbt (ins_tree z k v t)"
    "map_of (entries (ins_tree z k v t)) = (map_of (entries t))(k \<mapsto> v)" by auto
qed

section \<open>Invariants through delete\_fixup\<close>

lemma paint_BLACK_id: "col x = BLACK \<Longrightarrow> paint BLACK x = x"
  by (cases x) auto

lemma rootblack_tl: "rootblack (f # fs) \<Longrightarrow> rootblack fs"
  using ctop_last[of fs] by (cases fs) (simp_all add: rootblack_def)

lemma rootblack_push: "rootblack (f # fs) \<Longrightarrow> fcol f = BLACK \<Longrightarrow> rootblack (f' # fs) = (ctop fs (fcol f') = BLACK)"
  by (simp add: rootblack_def)

lemma ctop_any: "fs \<noteq> [] \<Longrightarrow> ctop fs c = ctop fs c'"
  by (simp add: ctop_last)

lemma del_sib_l_inv:
  assumes "invh w" "invc w" "col w = BLACK" "bheight w = Suc (bheight x)" "invh x" "invc x"
    "col x = BLACK"
  shows "\<exists>r. del_sib_l pa pc pk pv w x = Some r \<and>
          (case r of
             Up t \<Rightarrow> bheight t = bheight x + (if pc = BLACK then 1 else 0) \<and> invh t
                     \<and> invc (paint BLACK t) \<and> col t = pc
                     \<and> entries t = entries (Node x pa pc pk pv w)
           | Done t \<Rightarrow> bheight t = Suc (bheight x) + (if pc = BLACK then 1 else 0) \<and> invh t
                     \<and> invc t \<and> col t = pc
                     \<and> entries t = entries (Node x pa pc pk pv w))"
proof -
  from assms(3,4) obtain wl wa wk wv wr where w: "w = Node wl wa BLACK wk wv wr"
    by (cases w) auto
  show ?thesis
  proof (cases "col wl = BLACK \<and> col wr = BLACK")
    case True
    then show ?thesis using assms unfolding w by auto
  next
    case False
    note nb = False
    show ?thesis
    proof (cases "col wr")
      case BLACK
      with nb have "col wl = RED" by auto
      then obtain wll wla wlk wlv wlr where wl: "wl = Node wll wla RED wlk wlv wlr"
        using col_RED_Node by blast
      show ?thesis using assms BLACK unfolding w wl by auto
    next
      case RED
      then obtain wrl wra wrk wrv wrr where wr: "wr = Node wrl wra RED wrk wrv wrr"
        using col_RED_Node by blast
      show ?thesis using assms unfolding w wr by auto
    qed
  qed
qed

lemma del_sib_r_inv:
  assumes "invh w" "invc w" "col w = BLACK" "bheight w = Suc (bheight x)" "invh x" "invc x"
    "col x = BLACK"
  shows "\<exists>r. del_sib_r w pa pc pk pv x = Some r \<and>
          (case r of
             Up t \<Rightarrow> bheight t = bheight x + (if pc = BLACK then 1 else 0) \<and> invh t
                     \<and> invc (paint BLACK t) \<and> col t = pc
                     \<and> entries t = entries (Node w pa pc pk pv x)
           | Done t \<Rightarrow> bheight t = Suc (bheight x) + (if pc = BLACK then 1 else 0) \<and> invh t
                     \<and> invc t \<and> col t = pc
                     \<and> entries t = entries (Node w pa pc pk pv x))"
proof -
  from assms(3,4) obtain wl wa wk wv wr where w: "w = Node wl wa BLACK wk wv wr"
    by (cases w) auto
  show ?thesis
  proof (cases "col wr = BLACK \<and> col wl = BLACK")
    case True
    then show ?thesis using assms unfolding w by auto
  next
    case False
    note nb = False
    show ?thesis
    proof (cases "col wl")
      case BLACK
      with nb have "col wr = RED" by auto
      then obtain wrl wra wrk wrv wrr where wr: "wr = Node wrl wra RED wrk wrv wrr"
        using col_RED_Node by blast
      show ?thesis using assms BLACK unfolding w wr by auto
    next
      case RED
      then obtain wll wla wlk wlv wlr where wl: "wl = Node wll wla RED wlk wlv wlr"
        using col_RED_Node by blast
      show ?thesis using assms unfolding w wl by auto
    qed
  qed
qed

lemma del_fix_red:
  assumes "col x = RED" "invh x" "invc (paint BLACK x)" "cinvh (f # fs) (Suc (bheight x))"
    "cinvc (f # fs) BLACK" "rootblack (f # fs)"
  shows "\<exists>T. del_fix (f # fs) x = Some T \<and> invc T \<and> invh T \<and> col T = BLACK
           \<and> entries T = entries (plug (f # fs) x)"
proof -
  have e: "del_fix (f # fs) x = Some (plug (f # fs) (paint BLACK x))"
    using assms(1) by (cases f) auto
  have 1: "invc (plug (f # fs) (paint BLACK x))"
    unfolding invc_plug using assms(3,5) by simp
  have 2: "invh (plug (f # fs) (paint BLACK x))"
    unfolding invh_plug using assms(2,4) bheight_paint_RED_BLACK[OF assms(1)] by simp
  have 3: "col (plug (f # fs) (paint BLACK x)) = BLACK"
    unfolding col_plug using assms(6) by (simp add: rootblack_def)
  have 4: "entries (plug (f # fs) (paint BLACK x)) = entries (plug (f # fs) x)"
    by (simp add: entries_plug entries_fill)
  show ?thesis unfolding e using 1 2 3 4 by simp
qed

lemma finish_Done:
  assumes "invc t" "invh t" "cinvc fs (col t)" "cinvh fs (bheight t)"
  shows "invc (paint BLACK (plug fs t))" "invh (paint BLACK (plug fs t))"
    "col (paint BLACK (plug fs t)) = BLACK" "entries (paint BLACK (plug fs t)) = entries (plug fs t)"
  using assms by (simp_all add: invc_plug invh_plug invc_paint_BLACK)

theorem del_fix_inv:
  assumes "invh x" "invc (paint BLACK x)" "cinvh fs (Suc (bheight x))" "cinvc fs BLACK"
    "rootblack fs"
  shows "\<exists>T. del_fix fs x = Some T \<and> invc T \<and> invh T \<and> col T = BLACK
           \<and> entries T = entries (plug fs x)"
  using assms
proof (induction fs arbitrary: x)
  case Nil
  then show ?case by simp
next
  case (Cons f fs)
  show ?case
  proof (cases "col x")
    case RED
    show ?thesis by (rule del_fix_red[OF RED Cons.prems])
  next
    case BLACK
    have ix: "invc x" using Cons.prems(2) paint_BLACK_id[OF BLACK] by simp
    note hx = Cons.prems(1)
    show ?thesis
    proof (cases f)
      case (LF pa pc pk pv w)
      have hw: "bheight w = Suc (bheight x)" "invh w"
        and hf: "cinvh fs (Suc (bheight x) + (if pc = BLACK then 1 else 0))"
        using Cons.prems(3) unfolding LF by auto
      have cw: "pc = RED \<longrightarrow> col w = BLACK" "invc w" and cf: "cinvc fs pc"
        using Cons.prems(4) unfolding LF by auto
      show ?thesis
      proof (cases "col w")
        case wR: RED
        then have pc: "pc = BLACK" using cw(1) by (cases pc) auto
        from wR obtain wl wa wk wv wr where w: "w = Node wl wa RED wk wv wr"
          using col_RED_Node by blast
        have wl: "invh wl" "invc wl" "col wl = BLACK" "bheight wl = Suc (bheight x)"
          and wr: "invh wr" "invc wr" "bheight wr = Suc (bheight x)"
          using hw cw unfolding w by auto
        define F where "F = LF wa BLACK wk wv wr # fs"
        have cF: "cinvc F RED" "cinvc F BLACK"
          using wr cf pc by (auto simp: F_def)
        have hF: "cinvh F (Suc (bheight x))" using wr hf pc by (simp add: F_def)
        have tF: "ctop F c = BLACK" for c
          using Cons.prems(5) pc unfolding LF F_def by (simp add: rootblack_def)
        from del_sib_l_inv[OF wl hx ix BLACK, of pa RED pk pv] obtain r where
          r: "del_sib_l pa RED pk pv wl x = Some r"
          and rp: "case r of
             Up t \<Rightarrow> bheight t = bheight x + (if RED = BLACK then 1 else 0) \<and> invh t
                     \<and> invc (paint BLACK t) \<and> col t = RED
                     \<and> entries t = entries (Node x pa RED pk pv wl)
           | Done t \<Rightarrow> bheight t = Suc (bheight x) + (if RED = BLACK then 1 else 0) \<and> invh t
                     \<and> invc t \<and> col t = RED
                     \<and> entries t = entries (Node x pa RED pk pv wl)"
          by blast
        show ?thesis
        proof (cases r)
          case (Up t)
          have e: "del_fix (f # fs) x = Some (plug F (paint BLACK t))"
            using BLACK wR r Up unfolding LF w F_def by simp
          have t: "bheight t = bheight x" "invh t" "invc (paint BLACK t)" "col t = RED"
            "entries t = entries (Node x pa RED pk pv wl)"
            using rp Up by auto
          have 1: "invc (plug F (paint BLACK t))" unfolding invc_plug using t cF by simp
          have 2: "invh (plug F (paint BLACK t))"
            unfolding invh_plug using t hF bheight_paint_RED_BLACK[OF t(4)] by simp
          have 3: "col (plug F (paint BLACK t)) = BLACK" unfolding col_plug using tF by simp
          have 4: "entries (plug F (paint BLACK t)) = entries (plug (f # fs) x)"
            using t(5) unfolding LF w F_def by (simp add: entries_plug)
          show ?thesis unfolding e using 1 2 3 4 by simp
        next
          case (Done t)
          have e: "del_fix (f # fs) x = Some (paint BLACK (plug F t))"
            using BLACK wR r Done unfolding LF w F_def by simp
          have t: "bheight t = Suc (bheight x)" "invh t" "invc t" "col t = RED"
            "entries t = entries (Node x pa RED pk pv wl)"
            using rp Done by auto
          have 4: "entries (plug F t) = entries (plug (f # fs) x)"
            using t(5) unfolding LF w F_def by (simp add: entries_plug)
          show ?thesis
            unfolding e using finish_Done[of t F] t cF hF 4 by simp
        qed
      next
        case wB: BLACK
        from del_sib_l_inv[OF hw(2) cw(2) wB hw(1) hx ix BLACK, of pa pc pk pv] obtain r where
          r: "del_sib_l pa pc pk pv w x = Some r"
          and rp: "case r of
             Up t \<Rightarrow> bheight t = bheight x + (if pc = BLACK then 1 else 0) \<and> invh t
                     \<and> invc (paint BLACK t) \<and> col t = pc
                     \<and> entries t = entries (Node x pa pc pk pv w)
           | Done t \<Rightarrow> bheight t = Suc (bheight x) + (if pc = BLACK then 1 else 0) \<and> invh t
                     \<and> invc t \<and> col t = pc
                     \<and> entries t = entries (Node x pa pc pk pv w)"
          by blast
        show ?thesis
        proof (cases r)
          case (Up t)
          have e: "del_fix (f # fs) x = del_fix fs t"
            using BLACK wB r Up unfolding LF by simp
          have t: "bheight t = bheight x + (if pc = BLACK then 1 else 0)" "invh t"
            "invc (paint BLACK t)" "entries t = entries (Node x pa pc pk pv w)"
            using rp Up by auto
          have h': "cinvh fs (Suc (bheight t))" using hf t(1) by simp
          from Cons.IH[OF t(2,3) h' cinvc_BLACK[OF cf] rootblack_tl[OF Cons.prems(5)]]
          show ?thesis unfolding e using t(4) unfolding LF by (simp add: entries_plug)
        next
          case (Done t)
          have e: "del_fix (f # fs) x = Some (paint BLACK (plug fs t))"
            using BLACK wB r Done unfolding LF by simp
          have t: "bheight t = Suc (bheight x) + (if pc = BLACK then 1 else 0)" "invh t" "invc t"
            "col t = pc" "entries t = entries (Node x pa pc pk pv w)"
            using rp Done by auto
          have 4: "entries (plug fs t) = entries (plug (f # fs) x)"
            using t(5) unfolding LF by (simp add: entries_plug)
          show ?thesis
            unfolding e using finish_Done[of t fs] t cf hf 4 by simp
        qed
      qed
    next
      case (RF w pa pc pk pv)
      have hw: "bheight w = Suc (bheight x)" "invh w"
        and hf: "cinvh fs (Suc (bheight x) + (if pc = BLACK then 1 else 0))"
        using Cons.prems(3) unfolding RF by auto
      have cw: "pc = RED \<longrightarrow> col w = BLACK" "invc w" and cf: "cinvc fs pc"
        using Cons.prems(4) unfolding RF by auto
      show ?thesis
      proof (cases "col w")
        case wR: RED
        then have pc: "pc = BLACK" using cw(1) by (cases pc) auto
        from wR obtain wl wa wk wv wr where w: "w = Node wl wa RED wk wv wr"
          using col_RED_Node by blast
        have wr: "invh wr" "invc wr" "col wr = BLACK" "bheight wr = Suc (bheight x)"
          and wl: "invh wl" "invc wl" "bheight wl = Suc (bheight x)"
          using hw cw unfolding w by auto
        define F where "F = RF wl wa BLACK wk wv # fs"
        have cF: "cinvc F RED" "cinvc F BLACK"
          using wl cf pc by (auto simp: F_def)
        have hF: "cinvh F (Suc (bheight x))" using wl hf pc by (simp add: F_def)
        have tF: "ctop F c = BLACK" for c
          using Cons.prems(5) pc unfolding RF F_def by (simp add: rootblack_def)
        from del_sib_r_inv[OF wr hx ix BLACK, of pa RED pk pv] obtain r where
          r: "del_sib_r wr pa RED pk pv x = Some r"
          and rp: "case r of
             Up t \<Rightarrow> bheight t = bheight x + (if RED = BLACK then 1 else 0) \<and> invh t
                     \<and> invc (paint BLACK t) \<and> col t = RED
                     \<and> entries t = entries (Node wr pa RED pk pv x)
           | Done t \<Rightarrow> bheight t = Suc (bheight x) + (if RED = BLACK then 1 else 0) \<and> invh t
                     \<and> invc t \<and> col t = RED
                     \<and> entries t = entries (Node wr pa RED pk pv x)"
          by blast
        show ?thesis
        proof (cases r)
          case (Up t)
          have e: "del_fix (f # fs) x = Some (plug F (paint BLACK t))"
            using BLACK wR r Up unfolding RF w F_def by simp
          have t: "bheight t = bheight x" "invh t" "invc (paint BLACK t)" "col t = RED"
            "entries t = entries (Node wr pa RED pk pv x)"
            using rp Up by auto
          have 1: "invc (plug F (paint BLACK t))" unfolding invc_plug using t cF by simp
          have 2: "invh (plug F (paint BLACK t))"
            unfolding invh_plug using t hF bheight_paint_RED_BLACK[OF t(4)] by simp
          have 3: "col (plug F (paint BLACK t)) = BLACK" unfolding col_plug using tF by simp
          have 4: "entries (plug F (paint BLACK t)) = entries (plug (f # fs) x)"
            using t(5) unfolding RF w F_def by (simp add: entries_plug)
          show ?thesis unfolding e using 1 2 3 4 by simp
        next
          case (Done t)
          have e: "del_fix (f # fs) x = Some (paint BLACK (plug F t))"
            using BLACK wR r Done unfolding RF w F_def by simp
          have t: "bheight t = Suc (bheight x)" "invh t" "invc t" "col t = RED"
            "entries t = entries (Node wr pa RED pk pv x)"
            using rp Done by auto
          have 4: "entries (plug F t) = entries (plug (f # fs) x)"
            using t(5) unfolding RF w F_def by (simp add: entries_plug)
          show ?thesis
            unfolding e using finish_Done[of t F] t cF hF 4 by simp
        qed
      next
        case wB: BLACK
        from del_sib_r_inv[OF hw(2) cw(2) wB hw(1) hx ix BLACK, of pa pc pk pv] obtain r where
          r: "del_sib_r w pa pc pk pv x = Some r"
          and rp: "case r of
             Up t \<Rightarrow> bheight t = bheight x + (if pc = BLACK then 1 else 0) \<and> invh t
                     \<and> invc (paint BLACK t) \<and> col t = pc
                     \<and> entries t = entries (Node w pa pc pk pv x)
           | Done t \<Rightarrow> bheight t = Suc (bheight x) + (if pc = BLACK then 1 else 0) \<and> invh t
                     \<and> invc t \<and> col t = pc
                     \<and> entries t = entries (Node w pa pc pk pv x)"
          by blast
        show ?thesis
        proof (cases r)
          case (Up t)
          have e: "del_fix (f # fs) x = del_fix fs t"
            using BLACK wB r Up unfolding RF by simp
          have t: "bheight t = bheight x + (if pc = BLACK then 1 else 0)" "invh t"
            "invc (paint BLACK t)" "entries t = entries (Node w pa pc pk pv x)"
            using rp Up by auto
          have h': "cinvh fs (Suc (bheight t))" using hf t(1) by simp
          from Cons.IH[OF t(2,3) h' cinvc_BLACK[OF cf] rootblack_tl[OF Cons.prems(5)]]
          show ?thesis unfolding e using t(4) unfolding RF by (simp add: entries_plug)
        next
          case (Done t)
          have e: "del_fix (f # fs) x = Some (paint BLACK (plug fs t))"
            using BLACK wB r Done unfolding RF by simp
          have t: "bheight t = Suc (bheight x) + (if pc = BLACK then 1 else 0)" "invh t" "invc t"
            "col t = pc" "entries t = entries (Node w pa pc pk pv x)"
            using rp Done by auto
          have 4: "entries (plug fs t) = entries (plug (f # fs) x)"
            using t(5) unfolding RF by (simp add: entries_plug)
          show ?thesis
            unfolding e using finish_Done[of t fs] t cf hf 4 by simp
        qed
      qed
    qed
  qed
qed

section \<open>Invariants through erase\<close>

lemma cinvh_append: "cinvh (fs1 @ fs2) n \<longleftrightarrow> cinvh fs1 n \<and> cinvh fs2 (n + cbh fs1)"
  by (induction fs1 arbitrary: n) (auto simp: add.assoc simp del: fbh.simps)

lemma ctop_append: "ctop (fs1 @ fs2) c = ctop fs2 (ctop fs1 c)"
  by (induction fs1 arbitrary: c) auto

lemma cinvc_append: "cinvc (fs1 @ fs2) c \<longleftrightarrow> cinvc fs1 c \<and> cinvc fs2 (ctop fs1 c)"
  by (induction fs1 arbitrary: c) auto

lemma cleft_append: "cleft (fs1 @ fs2) = cleft fs2 @ cleft fs1"
proof (induction fs1)
  case Nil
  then show ?case by simp
next
  case (Cons f fs1)
  then show ?case by (cases f) auto
qed

lemma cright_append: "cright (fs1 @ fs2) = cright fs1 @ cright fs2"
proof (induction fs1)
  case Nil
  then show ?case by simp
next
  case (Cons f fs1)
  then show ?case by (cases f) auto
qed

lemma split_min_cleft: "split_min fs t = (fs', t') \<Longrightarrow> cleft fs' = cleft fs"
  by (induction t arbitrary: fs) (auto split: if_splits)

lemma bheight_plug: "invh (plug fs t) \<Longrightarrow> bheight (plug fs t) = bheight t + cbh fs"
proof (induction fs arbitrary: t)
  case Nil
  then show ?case by simp
next
  case (Cons f fs)
  have i: "invh (fill f t)" using Cons.prems by (simp add: invh_plug)
  show ?case
    using Cons.IH[of "fill f t"] Cons.prems bheight_fill[OF i] by (simp del: fbh.simps)
qed

lemma del_finish_inv:
  assumes "invh x" "invc x"
    "yc = RED \<Longrightarrow> cinvc F (col x) \<and> cinvh F (bheight x) \<and> ctop F (col x) = BLACK"
    "yc = BLACK \<Longrightarrow> cinvc F BLACK \<and> cinvh F (Suc (bheight x)) \<and> rootblack F"
  shows "\<exists>T. (if yc = BLACK then del_fix F x else Some (plug F x)) = Some T
           \<and> invc T \<and> invh T \<and> col T = BLACK \<and> entries T = entries (plug F x)"
proof (cases yc)
  case RED
  show ?thesis
    using assms(1,2) assms(3)[OF RED] RED by (simp add: invc_plug invh_plug col_plug)
next
  case BLACK
  from del_fix_inv[OF assms(1) invc_paint_BLACK[OF assms(2)], of F] assms(4)[OF BLACK]
  show ?thesis using BLACK by simp
qed

theorem del_tree_inv:
  assumes "rbt t"
  shows "\<exists>T. del_tree k t = Some T \<and> rbt T
           \<and> map_of (entries T) = (map_of (entries t))(k := None)"
    and "snd (descend k [] t) \<noteq> Leaf \<longleftrightarrow> map_of (entries t) k \<noteq> None"
proof -
  have c: "col t = BLACK" and ic: "invc t" and ih: "invh t" and so: "sorted_keys t"
    using assms by (simp_all add: rbt_def)
  obtain fs t' where d: "descend k [] t = (fs, t')" by (cases "descend k [] t") auto
  have p: "plug fs t' = t" using descend_plug[OF d] by simp
  have "(\<exists>T. del_tree k t = Some T \<and> rbt T
           \<and> map_of (entries T) = (map_of (entries t))(k := None))
        \<and> (t' \<noteq> Leaf \<longleftrightarrow> map_of (entries t) k \<noteq> None)"
  proof (cases t')
    case Leaf
    note m = descend_missing[OF so d[unfolded Leaf]]
    have "\<forall>x\<in>set (entries t). fst x \<noteq> k" unfolding m(1) using m(2,3) by auto
    then have n: "map_of (entries t) k = None" by (rule map_of_mid_missing)
    have "del_tree k t = Some t" using d Leaf by (simp add: del_tree_def)
    then show ?thesis using assms n Leaf by (auto simp: fun_eq_iff)
  next
    case (Node l z c' k' v' r)
    note f = descend_found[OF so d[unfolded Node]]
    have rb: "rootblack fs" by (rule rootblack_descend[OF d c])
    have ctf: "ctop fs c' = BLACK" using c p[symmetric] Node by (simp add: col_plug)
    have icn: "c' = RED \<longrightarrow> col l = BLACK \<and> col r = BLACK" "invc l" "invc r" "cinvc fs c'"
      using ic p[symmetric] Node by (auto simp: invc_plug)
    have ihn: "bheight l = bheight r" "invh l" "invh r"
      "cinvh fs (bheight l + (if c' = BLACK then 1 else 0))"
      using ih p[symmetric] Node by (auto simp: invh_plug)
    define A where "A = cleft fs @ entries l"
    define B where "B = entries r @ cright fs"
    have et: "entries t = A @ (k, v') # B" using f(2) by (simp add: A_def B_def)
    have nA: "\<forall>x\<in>set A. fst x \<noteq> k" and nB: "\<forall>x\<in>set B. fst x \<noteq> k"
      using f(3,4) by (auto simp: A_def B_def)
    have fnd: "map_of (entries t) k = Some v'" unfolding et by (rule map_of_mid_found[OF nA])
    have "\<exists>T. del_tree k t = Some T \<and> invc T \<and> invh T \<and> col T = BLACK \<and> entries T = A @ B"
    proof (cases "l = Leaf")
      case True
      have e: "del_tree k t = (if c' = BLACK then del_fix fs r else Some (plug fs r))"
        using d Node True by (simp add: del_tree_def)
      have br: "bheight r = 0" using ihn(1) True by simp
      have 1: "c' = RED \<Longrightarrow> cinvc fs (col r) \<and> cinvh fs (bheight r) \<and> ctop fs (col r) = BLACK"
        using icn ihn True rb cinvc_BLACK[OF icn(4)] by (auto simp: rootblack_def)
      have 2: "c' = BLACK \<Longrightarrow> cinvc fs BLACK \<and> cinvh fs (Suc (bheight r)) \<and> rootblack fs"
        using icn ihn True rb br by auto
      from del_finish_inv[OF ihn(3) icn(3) 1 2] show ?thesis
        unfolding e using True by (simp add: entries_plug A_def B_def)
    next
      case False
      note ln = False
      show ?thesis
      proof (cases "r = Leaf")
        case True
        have e: "del_tree k t = (if c' = BLACK then del_fix fs l else Some (plug fs l))"
          using d Node True ln by (simp add: del_tree_def)
        have bl: "bheight l = 0" using ihn(1) True by simp
        have 1: "c' = RED \<Longrightarrow> cinvc fs (col l) \<and> cinvh fs (bheight l) \<and> ctop fs (col l) = BLACK"
          using icn ihn True rb cinvc_BLACK[OF icn(4)] by (auto simp: rootblack_def)
        have 2: "c' = BLACK \<Longrightarrow> cinvc fs BLACK \<and> cinvh fs (Suc (bheight l)) \<and> rootblack fs"
          using icn ihn True rb bl by auto
        from del_finish_inv[OF ihn(2) icn(2) 1 2] show ?thesis
          unfolding e using True by (simp add: entries_plug A_def B_def)
      next
        case False
        from split_min_Node[OF False, of "[]"] obtain fsy y yc yk yv yr where
          sm: "split_min [] r = (fsy, Node Leaf y yc yk yv yr)"
          by (cases "split_min [] r") auto
        define F where "F = fsy @ RF l y c' yk yv # fs"
        have e: "del_tree k t = (if yc = BLACK then del_fix F yr else Some (plug F yr))"
          using d Node False ln sm by (simp add: del_tree_def F_def)
        have pr: "plug fsy (Node Leaf y yc yk yv yr) = r" using split_min_plug[OF sm] by simp
        have cl: "cleft fsy = []" using split_min_cleft[OF sm] by simp
        have iy: "yc = RED \<longrightarrow> col yr = BLACK" "invc yr" "cinvc fsy yc"
          using icn(3) pr[symmetric] by (auto simp: invc_plug)
        have hy: "bheight yr = 0" "invh yr" "cinvh fsy (if yc = BLACK then 1 else 0)"
          using ihn(3) pr[symmetric] by (auto simp: invh_plug)
        have bhr: "bheight r = (if yc = BLACK then 1 else 0) + cbh fsy"
          using bheight_plug[of fsy "Node Leaf y yc yk yv yr"] ihn(3) pr by simp
        have cr: "col r = ctop fsy yc" using col_plug[of fsy "Node Leaf y yc yk yv yr"] pr by simp
        have en: "entries (plug F yr) = A @ B"
          using entries_plug[of fsy "Node Leaf y yc yk yv yr"] pr cl
          by (simp add: F_def entries_plug cleft_append cright_append A_def B_def)
        have top: "ctop F c0 = BLACK" for c0
          using ctf by (simp add: F_def ctop_append)
        have 1: "yc = RED \<Longrightarrow> cinvc F (col yr) \<and> cinvh F (bheight yr) \<and> ctop F (col yr) = BLACK"
        proof -
          assume R: "yc = RED"
          have a: "cinvc fsy BLACK" using iy(3) by (rule cinvc_BLACK)
          have b: "c' = RED \<longrightarrow> ctop fsy BLACK = BLACK"
          proof (cases fsy)
            case Nil
            then show ?thesis using icn(1) cr R by auto
          next
            case (Cons g gs)
            then show ?thesis using icn(1) cr ctop_any[of fsy BLACK yc] by auto
          qed
          show ?thesis
            using a b iy R icn hy ihn bhr top
            by (auto simp: F_def cinvc_append cinvh_append)
        qed
        have 2: "yc = BLACK \<Longrightarrow> cinvc F BLACK \<and> cinvh F (Suc (bheight yr)) \<and> rootblack F"
          using iy icn hy ihn bhr top cr
          by (auto simp: F_def cinvc_append cinvh_append rootblack_def)
        from del_finish_inv[OF hy(2) iy(2) 1 2] show ?thesis
          unfolding e en by simp
      qed
    qed
    then obtain T where T: "del_tree k t = Some T" "invc T" "invh T" "col T = BLACK"
      "entries T = A @ B" by blast
    have s: "sorted_wrt (<) (map fst (A @ (k, v') # B))" using so et by (simp add: sorted_keys_def)
    have S: "sorted_keys T" unfolding sorted_keys_def T(5) by (rule sorted_mid_delete[OF s])
    have M: "map_of (entries T) = (map_of (entries t))(k := None)"
      unfolding T(5) et by (rule map_of_mid_delete[OF nA nB])
    show ?thesis using T S M fnd Node by (simp add: rbt_def)
  qed
  then show "\<exists>T. del_tree k t = Some T \<and> rbt T
           \<and> map_of (entries T) = (map_of (entries t))(k := None)"
    and "snd (descend k [] t) \<noteq> Leaf \<longleftrightarrow> map_of (entries t) k \<noteq> None"
    using d by auto
qed

section \<open>Lookup on a tree\<close>

declare rf_lookup_loop.simps [code]

declare rf_insert_loop.simps [code]

lemma descend_snd: "snd (descend k fs t) = snd (descend k [] t)"
proof (induction t arbitrary: fs)
  case Leaf
  then show ?case by simp
next
  case (Node l a c k' v r)
  show ?case
    using Node.IH(1)[of "LF a c k' v r # fs"] Node.IH(1)[of "[LF a c k' v r]"]
      Node.IH(2)[of "RF l a c k' v # fs"] Node.IH(2)[of "[RF l a c k' v]"]
    by simp
qed

lemma tree_lookup_Node:
  "tree_lookup k (Node l a c k' v r) =
     (if k < k' then tree_lookup k l else if k' < k then tree_lookup k r else Some v)"
  using descend_snd[of k "[LF a c k' v r]" l] descend_snd[of k "[RF l a c k' v]" r]
  by (simp add: tree_lookup_def)

lemma tree_lookup_Leaf [simp]: "tree_lookup k Leaf = None"
  by (simp add: tree_lookup_def)

lemma tree_lookup_map_of:
  assumes "sorted_keys t"
  shows "tree_lookup k t = map_of (entries t) k"
proof -
  obtain fs t' where d: "descend k [] t = (fs, t')" by (cases "descend k [] t") auto
  show ?thesis
  proof (cases t')
    case Leaf
    note m = descend_missing[OF assms d[unfolded Leaf]]
    have "\<forall>x\<in>set (entries t). fst x \<noteq> k" unfolding m(1) using m(2,3) by auto
    then have "map_of (entries t) k = None" by (rule map_of_mid_missing)
    then show ?thesis using d Leaf by (simp add: tree_lookup_def)
  next
    case (Node l x c k' v' r)
    note f = descend_found[OF assms d[unfolded Node]]
    have ne: "\<forall>x\<in>set (cleft fs @ entries l). fst x \<noteq> k" using f(3) by auto
    have "map_of (entries t) k = Some v'" unfolding f(2) by (rule map_of_mid_found[OF ne])
    then show ?thesis using d Node by (simp add: tree_lookup_def)
  qed
qed

lemma rf_lookup_loop_refine:
  "hrep s fs t \<Longrightarrow> rf_lookup_loop s k (ptr (NIL s) t) = Some (tree_lookup k t)"
proof (induction t arbitrary: fs)
  case Leaf
  then show ?case by (subst rf_lookup_loop.simps) simp
next
  case (Node l a c k' v r)
  note h = Node.prems
  note rd = hrep_reads[OF h]
  have na: "a \<noteq> NIL s" using h by (simp add: hrep_def)
  have hl: "hrep s (LF a c k' v r # fs) l" and hr: "hrep s (RF l a c k' v # fs) r"
    using h by (simp_all add: hrep_up)
  show ?case
    apply (subst rf_lookup_loop.simps)
    using na rd Node.IH(1)[OF hl] Node.IH(2)[OF hr]
    by (simp add: tree_lookup_Node)
qed

theorem rf_lookup_refine:
  assumes "hrep s [] t"
  shows "rf_lookup s k = Some (tree_lookup k t,
           s\<lparr>trace := trace s @ [LockGlobalShared, UnlockGlobalShared]\<rparr>)"
proof -
  have h: "hrep (log_event s LockGlobalShared) [] t" using assms by simp
  from rf_lookup_loop_refine[OF h, of k] hrep_is_root[OF h] show ?thesis
    by (simp add: rf_lookup_def lock_global_shared_def unlock_global_shared_def log_event_def)
qed

lemma lookup_loop_refine:
  "hrep s fs t \<Longrightarrow> \<exists>s'. lookup_loop s k (ptr (NIL s) t) = Some (tree_lookup k t, s')
                        \<and> untouched s s'"
proof (induction t arbitrary: s fs)
  case Leaf
  from hrep_nil_live[OF Leaf] obtain n where "mem s (NIL s) = Some n" by blast
  then show ?case
    by (subst lookup_loop.simps) (simp add: unlock_shared_def)
next
  case (Node l a c k' v r)
  note h = Node.prems
  note rd = hrep_reads[OF h]
  have na: "a \<noteq> NIL s" using h by (simp add: hrep_def)
  have ma: "mem s a \<noteq> None" using hrep_Node_mem[OF h] by simp
  have hl: "hrep s (LF a c k' v r # fs) l" and hr: "hrep s (RF l a c k' v # fs) r"
    using h by (simp_all add: hrep_up)
  consider (lt) "k < k'" | (gt) "\<not> k < k'" "k' < k" | (eq) "\<not> k < k'" "\<not> k' < k" by fastforce
  then show ?case
  proof cases
    case lt
    define s2 where "s2 = log_event (log_event s (LockShared (ptr (NIL s) l))) (UnlockShared a)"
    have h2: "hrep s2 (LF a c k' v r # fs) l" unfolding s2_def using hl by simp
    from Node.IH(1)[OF h2] obtain s' where
      s': "lookup_loop s2 k (ptr (NIL s2) l) = Some (tree_lookup k l, s')" "untouched s2 s'"
      by blast
    have n2: "NIL s2 = NIL s" by (simp add: s2_def)
    have u: "untouched s s'" using s'(2) by (simp add: untouched_def s2_def)
    show ?thesis
      apply (subst lookup_loop.simps)
      using na rd(1,5) lt hrep_ptr_live[OF hl] ma s'(1)[unfolded n2] u
      by (auto simp: lock_shared_def unlock_shared_def s2_def tree_lookup_Node)
  next
    case gt
    define s2 where "s2 = log_event (log_event s (LockShared (ptr (NIL s) r))) (UnlockShared a)"
    have h2: "hrep s2 (RF l a c k' v # fs) r" unfolding s2_def using hr by simp
    from Node.IH(2)[OF h2] obtain s' where
      s': "lookup_loop s2 k (ptr (NIL s2) r) = Some (tree_lookup k r, s')" "untouched s2 s'"
      by blast
    have n2: "NIL s2 = NIL s" by (simp add: s2_def)
    have u: "untouched s s'" using s'(2) by (simp add: untouched_def s2_def)
    show ?thesis
      apply (subst lookup_loop.simps)
      using na rd(2,5) gt hrep_ptr_live[OF hr] ma s'(1)[unfolded n2] u
      by (auto simp: lock_shared_def unlock_shared_def s2_def tree_lookup_Node)
  next
    case eq
    show ?thesis
      apply (subst lookup_loop.simps)
      using na rd(5,6) eq ma
      by (auto simp: unlock_shared_def tree_lookup_Node untouched_def)
  qed
qed

theorem lookup_refine:
  assumes "hrep s [] t"
  shows "\<exists>s'. lookup s k = Some (tree_lookup k t, s') \<and> untouched s s'"
proof -
  define s1 where "s1 = log_event s (LockShared (root s))"
  have h: "hrep s1 [] t" using assms by (simp add: s1_def)
  have l: "mem s (root s) \<noteq> None" using hrep_ptr_live[OF assms] hrep_is_root[OF assms] by simp
  from lookup_loop_refine[OF h, of k] obtain s' where
    s': "lookup_loop s1 k (ptr (NIL s1) t) = Some (tree_lookup k t, s')" "untouched s1 s'"
    by blast
  have r: "ptr (NIL s1) t = root s1" using hrep_is_root[OF h] by simp
  show ?thesis
    using l s'(1)[unfolded r] s'(2)
    by (auto simp: lookup_def lock_shared_def s1_def untouched_def)
qed

section \<open>The tree of race\_free\_rb\_tree.cpp\<close>

lemma rf_insert_link_refine:
  assumes h: "hrep s fs Leaf"
    and z: "mem s z = Some \<lparr>key = k, val = v, color = RED, parent = NIL s,
                             left = NIL s, right = NIL s\<rparr>"
    and zn: "z \<notin> set (caddrs fs)" "z \<noteq> NIL s"
    and d: "list_all (dir_ok k) fs"
    and b: "fs \<noteq> [] \<Longrightarrow> fcol (last fs) = BLACK"
  shows "\<exists>s'. rf_insert_link s z (cpar (NIL s) fs) = Some s'
           \<and> hrep s' [] (paint BLACK (ins_fix fs (Node Leaf z RED k v Leaf))) \<and> frame_ok s s'"
proof -
  from hrep_nil_live[OF h] obtain nn where nn: "mem s (NIL s) = Some nn" "color nn = BLACK"
    by blast
  have "\<exists>s1. (do { sa \<leftarrow> set_parent s z (cpar (NIL s) fs);
                   (if cpar (NIL s) fs = NIL sa then Some (sa\<lparr>root := z\<rparr>)
                    else do {
                      zk \<leftarrow> key_of sa z;
                      yk \<leftarrow> key_of sa (cpar (NIL s) fs);
                      if zk < yk then set_left sa (cpar (NIL s) fs) z
                      else set_right sa (cpar (NIL s) fs) z
                    }) }) = Some s1
          \<and> hrep s1 fs (Node Leaf z RED k v Leaf) \<and> frame_ok s s1"
  proof (cases fs)
    case Nil
    then show ?thesis
      using h z zn nn
      by (clarsimp simp: hrep_def heap_defs frame_ok_def)
  next
    case (Cons f fs')
    show ?thesis
    proof (cases f)
      case (LF a c yk yv r)
      show ?thesis
        using h z zn nn d unfolding Cons LF
        apply (clarsimp simp: hrep_def color_of_def)
        apply (simp add: heap_defs frame_ok_def)
        done
    next
      case (RF l a c yk yv)
      have nk: "\<not> k < yk" using d unfolding Cons RF by auto
      show ?thesis
        using h z zn nn nk unfolding Cons RF
        apply (clarsimp simp: hrep_def color_of_def)
        apply (simp add: heap_defs frame_ok_def)
        done
    qed
  qed
  then obtain s1 where s1: "(do { sa \<leftarrow> set_parent s z (cpar (NIL s) fs);
                   (if cpar (NIL s) fs = NIL sa then Some (sa\<lparr>root := z\<rparr>)
                    else do {
                      zk \<leftarrow> key_of sa z;
                      yk \<leftarrow> key_of sa (cpar (NIL s) fs);
                      if zk < yk then set_left sa (cpar (NIL s) fs) z
                      else set_right sa (cpar (NIL s) fs) z
                    }) }) = Some s1"
    and h1: "hrep s1 fs (Node Leaf z RED k v Leaf)" and f1: "frame_ok s s1"
    by blast
  from insert_fixup_refine[OF h1 _ b] obtain s2 where
    s2: "insert_fixup s1 z = Some s2"
    and h2: "hrep s2 [] (paint BLACK (ins_fix fs (Node Leaf z RED k v Leaf)))"
    and f2: "frame_ok s1 s2"
    by (auto simp: yields_def)
  show ?thesis
    unfolding rf_insert_link_def
    apply (subst (1) bind_assoc[symmetric])
    apply (simp only: s1 bind.bind_lunit)
    using s2 h2 frame_ok_trans[OF f1 f2]
    apply simp
    done
qed

lemma rf_insert_loop_descend:
  "hrep s fs t \<Longrightarrow>
     rf_insert_loop s k v z (cpar (NIL s) fs) (ptr (NIL s) t) =
       (case descend k fs t of
          (fs', Leaf) \<Rightarrow> rf_insert_link s z (cpar (NIL s) fs')
        | (fs', Node l x c k' v' r) \<Rightarrow> do { s1 \<leftarrow> set_val s x v; delete_node s1 z })"
proof (induction t arbitrary: fs)
  case Leaf
  then show ?case by (subst rf_insert_loop.simps) simp
next
  case (Node l a c k' v' r)
  note h = Node.prems
  note rd = hrep_reads[OF h]
  have na: "a \<noteq> NIL s" using h by (simp add: hrep_def)
  have hl: "hrep s (LF a c k' v' r # fs) l" and hr: "hrep s (RF l a c k' v' # fs) r"
    using h by (simp_all add: hrep_up)
  show ?case
    apply (subst rf_insert_loop.simps)
    using na rd(1,2,5) Node.IH(1)[OF hl] Node.IH(2)[OF hr]
    by simp
qed

theorem rf_insert_refine:
  assumes h: "hrep s [] t" and f: "fresh s" and b: "col t = BLACK"
  shows "\<exists>s'. rf_insert s k v = Some s' \<and> hrep s' [] (ins_tree (brk s) k v t) \<and> fresh s'
           \<and> NIL s' = NIL s \<and> brk s' = Suc (brk s) \<and> mem s' (NIL s) = mem s (NIL s)"
proof -
  define z where "z = brk s"
  from hrep_nil_live[OF h] obtain nn where nn: "mem s (NIL s) = Some nn" "color nn = BLACK"
    by blast
  have zd: "mem s z = None" using f by (simp add: fresh_def z_def)
  have zn: "z \<noteq> NIL s" using zd nn by auto
  have zt: "z \<notin> set (addrs t)" using hrep_live[OF h] zd by blast
  have rt: "root s = ptr (NIL s) t" using h by (simp add: hrep_def)
  define s1 where "s1 = s\<lparr>brk := Suc (brk s),
                          mem := (mem s)(z \<mapsto> \<lparr>key = k, val = v, color = RED, parent = NIL s,
                             left = NIL s, right = NIL s\<rparr>),
                          trace := trace s @ [LockGlobalUnique]\<rparr>"
  have h1: "hrep s1 [] t" unfolding s1_def by (rule hrep_add_other[OF h zt _ zn]) simp
  have n1: "NIL s1 = NIL s" "brk s1 = Suc (brk s)" by (simp_all add: s1_def)
  have m1: "mem s1 z = Some \<lparr>key = k, val = v, color = RED, parent = NIL s1,
                             left = NIL s1, right = NIL s1\<rparr>"
    by (simp add: s1_def)
  have s1eq: "s\<lparr>trace := trace s @ [LockGlobalUnique], brk := Suc (brk s),
                  mem := (mem s)(z \<mapsto> \<lparr>key = k, val = v, color = RED, parent = NIL s,
                             left = NIL s, right = NIL s\<rparr>)\<rparr> = s1"
    by (simp add: s1_def)
  have pre: "rf_insert s k v = do { s2 \<leftarrow> rf_insert_loop s1 k v z (NIL s1) (ptr (NIL s1) t);
                                     unlock_global_unique s2 }"
    using zn rt[symmetric] s1eq n1
    by (auto simp: rf_insert_def lock_global_unique_def new_node_def heap_defs
        log_event_def z_def)
  obtain fs t' where d: "descend k [] t = (fs, t')" by (cases "descend k [] t") auto
  have pl: "plug fs t' = t" using descend_plug[OF d] by simp
  have hf: "hrep s1 fs t'" using h1 pl hrep_plug[of s1 fs t'] by simp
  have zc: "z \<notin> set (caddrs fs)" "z \<notin> set (addrs t')"
    using zt addrs_plug[of fs t'] unfolding pl by auto
  have lp: "rf_insert_loop s1 k v z (NIL s1) (ptr (NIL s1) t) =
       (case descend k [] t of
          (fs', Leaf) \<Rightarrow> rf_insert_link s1 z (cpar (NIL s1) fs')
        | (fs', Node l x c k' v' r) \<Rightarrow> do { s2 \<leftarrow> set_val s1 x v; delete_node s2 z })"
    using rf_insert_loop_descend[OF h1, of k v z] by simp
  show ?thesis
  proof (cases t')
    case Leaf
    have dk: "list_all (dir_ok k) fs" using descend_dir_ok[OF d] by simp
    have bl: "fs \<noteq> [] \<Longrightarrow> fcol (last fs) = BLACK" using descend_last_col[OF d] b by simp
    have it: "ins_tree (brk s) k v t = paint BLACK (ins_fix fs (Node Leaf z RED k v Leaf))"
      using d Leaf by (simp add: ins_tree_def z_def)
    from rf_insert_link_refine[OF hf[unfolded Leaf] m1 zc(1) _ dk bl] zn n1 obtain s2 where
      s2: "rf_insert_link s1 z (cpar (NIL s1) fs) = Some s2"
      and h2: "hrep s2 [] (paint BLACK (ins_fix fs (Node Leaf z RED k v Leaf)))"
      and f2: "frame_ok s1 s2" by auto
    have h3: "hrep (log_event s2 UnlockGlobalUnique) [] (ins_tree (brk s) k v t)"
      using h2 unfolding it by simp
    show ?thesis
      unfolding pre lp d Leaf
      using s2 h3 f2 f zn
      by (auto simp: unlock_global_unique_def frame_ok_def s1_def fresh_def z_def)
  next
    case (Node l x c k' v' r)
    have k': "k' = k" using descend_key[OF d[unfolded Node]] .
    have it: "ins_tree (brk s) k v t = plug fs (Node l x c k v r)"
      using d Node k' by (simp add: ins_tree_def)
    note hN = hf[unfolded Node k']
    have xz: "x \<noteq> z" using zc(2) Node by simp
    have xn: "x \<noteq> NIL s1" using hN by (simp add: hrep_def)
    have mx: "mem s1 x = Some \<lparr>key = k, val = v', color = c, parent = cpar (NIL s1) fs,
                     left = ptr (NIL s1) l, right = ptr (NIL s1) r\<rparr>"
      using hrep_Node_mem[OF hN] .
    have xs: "mem s x \<noteq> None" using mx xz by (simp add: s1_def)
    define sF where "sF = s1\<lparr>mem := (mem s1)(x \<mapsto> \<lparr>key = k, val = v, color = c,
                     parent = cpar (NIL s1) fs, left = ptr (NIL s1) l, right = ptr (NIL s1) r\<rparr>,
                     z := None),
                   trace := trace s1 @ [UnlockGlobalUnique]\<rparr>"
    have run: "(do { s2 \<leftarrow> set_val s1 x v; s2 \<leftarrow> delete_node s2 z; unlock_global_unique s2 }) = Some sF"
      using mx m1 xz
      by (auto simp: heap_defs delete_node_def unlock_global_unique_def log_event_def sF_def)
    have hF: "hrep sF fs (Node l x c k v r)"
      using hN zc zn xz n1 unfolding sF_def Node
      apply (clarsimp simp: hrep_def color_of_def)
      done
    show ?thesis
      unfolding pre lp d Node
      using run hF f zn xn xs
      by (auto simp: it hrep_plug[of _ fs] sF_def s1_def fresh_def z_def)
  qed
qed

theorem rf_erase_refine:
  assumes h: "hrep s [] t" and d: "del_tree k t = Some T"
  shows "\<exists>s'. rf_erase s k = Some (snd (descend k [] t) \<noteq> Leaf, s') \<and> hrep s' [] T
           \<and> NIL s' = NIL s \<and> brk s' = brk s \<and> nil_fields s' = nil_fields s
           \<and> (\<forall>a. mem s a = None \<longrightarrow> mem s' a = None)"
proof -
  have h0: "hrep (log_event s LockGlobalUnique) [] t" using h by simp
  from erase_body_refine[OF h0 d] obtain s1 where
    s1: "erase_body (log_event s LockGlobalUnique) k = Some (snd (descend k [] t) \<noteq> Leaf, s1)"
    and h1: "hrep s1 [] T" and n1: "NIL s1 = NIL s" "brk s1 = brk s"
      "nil_fields s1 = nil_fields s" "\<forall>a. mem s a = None \<longrightarrow> mem s1 a = None"
    by (auto simp: nil_fields_def)
  have e: "rf_erase s k = Some (snd (descend k [] t) \<noteq> Leaf, log_event s1 UnlockGlobalUnique)"
    by (simp add: rf_erase_def lock_global_unique_def unlock_global_unique_def s1)
  show ?thesis
    unfolding e using h1 n1 by (auto simp: nil_fields_def)
qed

section \<open>The tree of epoch\_based\_rb\_tree.cpp\<close>

declare eb_lookup_loop.simps [code]

declare eb_insert_loop.simps [code]

lemma eb_lookup_loop_refine:
  "hrep s fs t \<Longrightarrow> eb_lookup_loop s k (ptr (NIL s) t) = Some (tree_lookup k t)"
proof (induction t arbitrary: fs)
  case Leaf
  then show ?case by (subst eb_lookup_loop.simps) simp
next
  case (Node l a c k' v r)
  note h = Node.prems
  note rd = hrep_reads[OF h]
  have na: "a \<noteq> NIL s" using h by (simp add: hrep_def)
  have hl: "hrep s (LF a c k' v r # fs) l" and hr: "hrep s (RF l a c k' v # fs) r"
    using h by (simp_all add: hrep_up)
  show ?case
    apply (subst eb_lookup_loop.simps)
    using na rd Node.IH(1)[OF hl] Node.IH(2)[OF hr]
    by (simp add: tree_lookup_Node)
qed

theorem eb_lookup_refine:
  assumes "hrep s [] t"
  shows "eb_lookup s k = Some (tree_lookup k t,
           s\<lparr>trace := trace s @ [LockGlobalShared, UnlockGlobalShared]\<rparr>)"
proof -
  have h: "hrep (log_event s LockGlobalShared) [] t" using assms by simp
  from eb_lookup_loop_refine[OF h, of k] hrep_is_root[OF h] show ?thesis
    by (simp add: eb_lookup_def lock_global_shared_def unlock_global_shared_def log_event_def)
qed

lemma eb_insert_link_refine:
  assumes h: "hrep s fs Leaf"
    and z: "mem s z = Some \<lparr>key = k, val = v, color = RED, parent = NIL s,
                             left = NIL s, right = NIL s\<rparr>"
    and zn: "z \<notin> set (caddrs fs)" "z \<noteq> NIL s"
    and d: "list_all (dir_ok k) fs"
    and b: "fs \<noteq> [] \<Longrightarrow> fcol (last fs) = BLACK"
  shows "\<exists>s'. eb_insert_link s z (cpar (NIL s) fs) = Some s'
           \<and> hrep s' [] (paint BLACK (ins_fix fs (Node Leaf z RED k v Leaf))) \<and> frame_ok s s'"
proof -
  from hrep_nil_live[OF h] obtain nn where nn: "mem s (NIL s) = Some nn" "color nn = BLACK"
    by blast
  have "\<exists>s1. (do { sa \<leftarrow> set_parent s z (cpar (NIL s) fs);
                   (if cpar (NIL s) fs = NIL sa then Some (sa\<lparr>root := z\<rparr>)
                    else do {
                      zk \<leftarrow> key_of sa z;
                      yk \<leftarrow> key_of sa (cpar (NIL s) fs);
                      if zk < yk then set_left sa (cpar (NIL s) fs) z
                      else set_right sa (cpar (NIL s) fs) z
                    }) }) = Some s1
          \<and> hrep s1 fs (Node Leaf z RED k v Leaf) \<and> frame_ok s s1"
  proof (cases fs)
    case Nil
    then show ?thesis
      using h z zn nn
      by (clarsimp simp: hrep_def heap_defs frame_ok_def)
  next
    case (Cons f fs')
    show ?thesis
    proof (cases f)
      case (LF a c yk yv r)
      show ?thesis
        using h z zn nn d unfolding Cons LF
        apply (clarsimp simp: hrep_def color_of_def)
        apply (simp add: heap_defs frame_ok_def)
        done
    next
      case (RF l a c yk yv)
      have nk: "\<not> k < yk" using d unfolding Cons RF by auto
      show ?thesis
        using h z zn nn nk unfolding Cons RF
        apply (clarsimp simp: hrep_def color_of_def)
        apply (simp add: heap_defs frame_ok_def)
        done
    qed
  qed
  then obtain s1 where s1: "(do { sa \<leftarrow> set_parent s z (cpar (NIL s) fs);
                   (if cpar (NIL s) fs = NIL sa then Some (sa\<lparr>root := z\<rparr>)
                    else do {
                      zk \<leftarrow> key_of sa z;
                      yk \<leftarrow> key_of sa (cpar (NIL s) fs);
                      if zk < yk then set_left sa (cpar (NIL s) fs) z
                      else set_right sa (cpar (NIL s) fs) z
                    }) }) = Some s1"
    and h1: "hrep s1 fs (Node Leaf z RED k v Leaf)" and f1: "frame_ok s s1"
    by blast
  from insert_fixup_refine[OF h1 _ b] obtain s2 where
    s2: "insert_fixup s1 z = Some s2"
    and h2: "hrep s2 [] (paint BLACK (ins_fix fs (Node Leaf z RED k v Leaf)))"
    and f2: "frame_ok s1 s2"
    by (auto simp: yields_def)
  show ?thesis
    unfolding eb_insert_link_def
    apply (subst (1) bind_assoc[symmetric])
    apply (simp only: s1 bind.bind_lunit)
    using s2 h2 frame_ok_trans[OF f1 f2]
    apply simp
    done
qed

lemma eb_insert_loop_descend:
  "hrep s fs t \<Longrightarrow>
     eb_insert_loop s k v z (cpar (NIL s) fs) (ptr (NIL s) t) =
       (case descend k fs t of
          (fs', Leaf) \<Rightarrow> eb_insert_link s z (cpar (NIL s) fs')
        | (fs', Node l x c k' v' r) \<Rightarrow> do { s1 \<leftarrow> set_val s x v; delete_node s1 z })"
proof (induction t arbitrary: fs)
  case Leaf
  then show ?case by (subst eb_insert_loop.simps) simp
next
  case (Node l a c k' v' r)
  note h = Node.prems
  note rd = hrep_reads[OF h]
  have na: "a \<noteq> NIL s" using h by (simp add: hrep_def)
  have hl: "hrep s (LF a c k' v' r # fs) l" and hr: "hrep s (RF l a c k' v' # fs) r"
    using h by (simp_all add: hrep_up)
  show ?case
    apply (subst eb_insert_loop.simps)
    using na rd(1,2,5) Node.IH(1)[OF hl] Node.IH(2)[OF hr]
    by simp
qed

theorem eb_insert_refine:
  assumes h: "hrep s [] t" and f: "fresh s" and b: "col t = BLACK"
  shows "\<exists>s'. eb_insert s k v = Some s' \<and> hrep s' [] (ins_tree (brk s) k v t) \<and> fresh s'
           \<and> NIL s' = NIL s \<and> brk s' = Suc (brk s) \<and> mem s' (NIL s) = mem s (NIL s)"
proof -
  define z where "z = brk s"
  from hrep_nil_live[OF h] obtain nn where nn: "mem s (NIL s) = Some nn" "color nn = BLACK"
    by blast
  have zd: "mem s z = None" using f by (simp add: fresh_def z_def)
  have zn: "z \<noteq> NIL s" using zd nn by auto
  have zt: "z \<notin> set (addrs t)" using hrep_live[OF h] zd by blast
  have rt: "root s = ptr (NIL s) t" using h by (simp add: hrep_def)
  define s1 where "s1 = s\<lparr>brk := Suc (brk s),
                          mem := (mem s)(z \<mapsto> \<lparr>key = k, val = v, color = RED, parent = NIL s,
                             left = NIL s, right = NIL s\<rparr>),
                          trace := trace s @ [LockGlobalUnique]\<rparr>"
  have h1: "hrep s1 [] t" unfolding s1_def by (rule hrep_add_other[OF h zt _ zn]) simp
  have n1: "NIL s1 = NIL s" "brk s1 = Suc (brk s)" by (simp_all add: s1_def)
  have m1: "mem s1 z = Some \<lparr>key = k, val = v, color = RED, parent = NIL s1,
                             left = NIL s1, right = NIL s1\<rparr>"
    by (simp add: s1_def)
  have s1eq: "s\<lparr>trace := trace s @ [LockGlobalUnique], brk := Suc (brk s),
                  mem := (mem s)(z \<mapsto> \<lparr>key = k, val = v, color = RED, parent = NIL s,
                             left = NIL s, right = NIL s\<rparr>)\<rparr> = s1"
    by (simp add: s1_def)
  have pre: "eb_insert s k v = do { s2 \<leftarrow> eb_insert_loop s1 k v z (NIL s1) (ptr (NIL s1) t);
                                     unlock_global_unique s2 }"
    using zn rt[symmetric] s1eq n1
    by (auto simp: eb_insert_def lock_global_unique_def new_node_def heap_defs
        log_event_def z_def)
  obtain fs t' where d: "descend k [] t = (fs, t')" by (cases "descend k [] t") auto
  have pl: "plug fs t' = t" using descend_plug[OF d] by simp
  have hf: "hrep s1 fs t'" using h1 pl hrep_plug[of s1 fs t'] by simp
  have zc: "z \<notin> set (caddrs fs)" "z \<notin> set (addrs t')"
    using zt addrs_plug[of fs t'] unfolding pl by auto
  have lp: "eb_insert_loop s1 k v z (NIL s1) (ptr (NIL s1) t) =
       (case descend k [] t of
          (fs', Leaf) \<Rightarrow> eb_insert_link s1 z (cpar (NIL s1) fs')
        | (fs', Node l x c k' v' r) \<Rightarrow> do { s2 \<leftarrow> set_val s1 x v; delete_node s2 z })"
    using eb_insert_loop_descend[OF h1, of k v z] by simp
  show ?thesis
  proof (cases t')
    case Leaf
    have dk: "list_all (dir_ok k) fs" using descend_dir_ok[OF d] by simp
    have bl: "fs \<noteq> [] \<Longrightarrow> fcol (last fs) = BLACK" using descend_last_col[OF d] b by simp
    have it: "ins_tree (brk s) k v t = paint BLACK (ins_fix fs (Node Leaf z RED k v Leaf))"
      using d Leaf by (simp add: ins_tree_def z_def)
    from eb_insert_link_refine[OF hf[unfolded Leaf] m1 zc(1) _ dk bl] zn n1 obtain s2 where
      s2: "eb_insert_link s1 z (cpar (NIL s1) fs) = Some s2"
      and h2: "hrep s2 [] (paint BLACK (ins_fix fs (Node Leaf z RED k v Leaf)))"
      and f2: "frame_ok s1 s2" by auto
    have h3: "hrep (log_event s2 UnlockGlobalUnique) [] (ins_tree (brk s) k v t)"
      using h2 unfolding it by simp
    show ?thesis
      unfolding pre lp d Leaf
      using s2 h3 f2 f zn
      by (auto simp: unlock_global_unique_def frame_ok_def s1_def fresh_def z_def)
  next
    case (Node l x c k' v' r)
    have k': "k' = k" using descend_key[OF d[unfolded Node]] .
    have it: "ins_tree (brk s) k v t = plug fs (Node l x c k v r)"
      using d Node k' by (simp add: ins_tree_def)
    note hN = hf[unfolded Node k']
    have xz: "x \<noteq> z" using zc(2) Node by simp
    have xn: "x \<noteq> NIL s1" using hN by (simp add: hrep_def)
    have mx: "mem s1 x = Some \<lparr>key = k, val = v', color = c, parent = cpar (NIL s1) fs,
                     left = ptr (NIL s1) l, right = ptr (NIL s1) r\<rparr>"
      using hrep_Node_mem[OF hN] .
    have xs: "mem s x \<noteq> None" using mx xz by (simp add: s1_def)
    define sF where "sF = s1\<lparr>mem := (mem s1)(x \<mapsto> \<lparr>key = k, val = v, color = c,
                     parent = cpar (NIL s1) fs, left = ptr (NIL s1) l, right = ptr (NIL s1) r\<rparr>,
                     z := None),
                   trace := trace s1 @ [UnlockGlobalUnique]\<rparr>"
    have run: "(do { s2 \<leftarrow> set_val s1 x v; s2 \<leftarrow> delete_node s2 z; unlock_global_unique s2 }) = Some sF"
      using mx m1 xz
      by (auto simp: heap_defs delete_node_def unlock_global_unique_def log_event_def sF_def)
    have hF: "hrep sF fs (Node l x c k v r)"
      using hN zc zn xz n1 unfolding sF_def Node
      apply (clarsimp simp: hrep_def color_of_def)
      done
    show ?thesis
      unfolding pre lp d Node
      using run hF f zn xn xs
      by (auto simp: it hrep_plug[of _ fs] sF_def s1_def fresh_def z_def)
  qed
qed

theorem eb_erase_refine:
  assumes h: "hrep s [] t" and d: "del_tree k t = Some T"
  shows "\<exists>s'. eb_erase s k = Some (snd (descend k [] t) \<noteq> Leaf, s') \<and> hrep s' [] T
           \<and> NIL s' = NIL s \<and> brk s' = brk s \<and> nil_fields s' = nil_fields s
           \<and> (\<forall>a. mem s a = None \<longrightarrow> mem s' a = None)"
proof -
  have h0: "hrep (log_event s LockGlobalUnique) [] t" using h by simp
  from erase_body_refine[OF h0 d] obtain s1 where
    s1: "erase_body (log_event s LockGlobalUnique) k = Some (snd (descend k [] t) \<noteq> Leaf, s1)"
    and h1: "hrep s1 [] T" and n1: "NIL s1 = NIL s" "brk s1 = brk s"
      "nil_fields s1 = nil_fields s" "\<forall>a. mem s a = None \<longrightarrow> mem s1 a = None"
    by (auto simp: nil_fields_def)
  have e: "eb_erase s k = Some (snd (descend k [] t) \<noteq> Leaf, log_event s1 UnlockGlobalUnique)"
    by (simp add: eb_erase_def lock_global_unique_def unlock_global_unique_def s1)
  show ?thesis
    unfolding e using h1 n1 by (auto simp: nil_fields_def)
qed

section \<open>Sequences of calls\<close>

lemma kept_refl [simp]: "kept s s"
  by (simp add: kept_def)

lemma kept_trans: "kept s s1 \<Longrightarrow> kept s1 s2 \<Longrightarrow> kept s s2"
  by (auto simp: kept_def nil_fields_def)

lemma sorted_keys_ord_local: "sorted_keys t \<Longrightarrow> ord_local t"
proof (induction t)
  case Leaf
  then show ?case by simp
next
  case (Node l a c k v r)
  have s: "sorted_wrt (<) (map fst (entries l @ (k, v) # entries r))"
    using Node.prems by (simp add: sorted_keys_def)
  have sl: "sorted_keys l" and sr: "sorted_keys r"
    using s by (auto simp: sorted_keys_def sorted_wrt_append)
  have bl: "\<forall>x\<in>set (entries l). fst x < k" and br: "\<forall>x\<in>set (entries r). k < fst x"
    using s by (auto simp: sorted_wrt_append)
  have 1: "case l of Leaf \<Rightarrow> True | Node ll la lc lk lv lr \<Rightarrow> \<not> k < lk"
    using bl by (cases l) (auto simp: not_less intro: less_imp_le)
  have 2: "case r of Leaf \<Rightarrow> True | Node rl ra rc rk rv rr \<Rightarrow> \<not> rk < k"
    using br by (cases r) (auto simp: not_less intro: less_imp_le)
  show ?case using 1 2 Node.IH(1)[OF sl] Node.IH(2)[OF sr] by simp
qed

lemma wf_validate: "wf s t \<Longrightarrow> validate s = Some True"
  using validate_refine[of s t] sorted_keys_ord_local[of t] by (simp add: wf_def rbt_def)

lemma fresh_untouched: "untouched s s' \<Longrightarrow> fresh s \<Longrightarrow> fresh s'"
  by (simp add: untouched_def fresh_def)

lemma kept_untouched: "untouched s s' \<Longrightarrow> kept s s'"
  by (simp add: untouched_def kept_def nil_fields_def)

lemma eb_validate_refine:
  assumes h: "hrep s [] t"
  shows "eb_validate s =
           Some (invc t \<and> invh t \<and> ord_local t,
                 s\<lparr>trace := trace s @ [LockGlobalShared, UnlockGlobalShared]\<rparr>)"
proof -
  define s1 where "s1 = log_event s LockGlobalShared"
  have "hrep s1 [] t" using h by (simp add: s1_def hrep_def log_event_def heap_defs)
  from validate_refine[OF this] obtain bh where
    v: "validate_rec s1 (root s1) 0 (- 1) = Some (invc t \<and> invh t \<and> ord_local t, bh)"
    by (auto simp: validate_def)
  show ?thesis
    unfolding eb_validate_def lock_global_shared_def s1_def[symmetric]
    using v by (simp add: unlock_global_shared_def s1_def log_event_def)
qed

text \<open>One call of the lock-coupled tree.\<close>

lemma apply_op_refine:
  assumes w: "wf s t"
  shows "\<exists>s'. apply_op s p = Some (abs_out t p, s') \<and> wf s' (fst (abs_step (t, brk s) p))
           \<and> brk s' = snd (abs_step (t, brk s) p) \<and> kept s s'"
proof -
  have h: "hrep s [] t" and f: "fresh s" and r: "rbt t" using w by (simp_all add: wf_def)
  have c: "col t = BLACK" using r by (simp add: rbt_def)
  show ?thesis
  proof (cases p)
    case (Insert k v)
    from insert_rb_refine[OF h f c, of k v] obtain s' where
      s': "insert_rb s k v = Some s'" "hrep s' [] (ins_tree (brk s) k v t)" "fresh s'"
        "NIL s' = NIL s" "brk s' = Suc (brk s)" "mem s' (NIL s) = mem s (NIL s)"
      by (auto simp: yields_def)
    show ?thesis
      using s' ins_tree_inv(1)[OF r] unfolding Insert
      by (simp add: wf_def kept_def nil_fields_def)
  next
    case (Erase k)
    from del_tree_inv(1)[OF r, of k] obtain T where
      T: "del_tree k t = Some T" "rbt T" by blast
    from erase_refine[OF h T(1)] obtain s' where
      s': "erase s k = Some (snd (descend k [] t) \<noteq> Leaf, s')" "hrep s' [] T"
        "NIL s' = NIL s" "brk s' = brk s" "nil_fields s' = nil_fields s"
        "\<forall>a. mem s a = None \<longrightarrow> mem s' a = None"
      by blast
    have "fresh s'" using f s'(4,6) by (simp add: fresh_def)
    then show ?thesis
      using s' T unfolding Erase by (simp add: wf_def kept_def)
  next
    case (Lookup k)
    from lookup_refine[OF h, of k] obtain s' where
      s': "lookup s k = Some (tree_lookup k t, s')" "untouched s s'" by blast
    show ?thesis
      using s' hrep_untouched[OF s'(2), of "[]" t] h fresh_untouched[OF s'(2) f] r
        kept_untouched[OF s'(2)]
      unfolding Lookup by (simp add: wf_def untouched_def)
  next
    case Validate
    show ?thesis using w wf_validate[OF w] unfolding Validate by simp
  qed
qed

lemma rf_apply_op_refine:
  assumes w: "wf s t"
  shows "\<exists>s'. rf_apply_op s p = Some (abs_out t p, s') \<and> wf s' (fst (abs_step (t, brk s) p))
           \<and> brk s' = snd (abs_step (t, brk s) p) \<and> kept s s'"
proof -
  have h: "hrep s [] t" and f: "fresh s" and r: "rbt t" using w by (simp_all add: wf_def)
  have c: "col t = BLACK" using r by (simp add: rbt_def)
  show ?thesis
  proof (cases p)
    case (Insert k v)
    from rf_insert_refine[OF h f c, of k v] obtain s' where
      s': "rf_insert s k v = Some s'" "hrep s' [] (ins_tree (brk s) k v t)" "fresh s'"
        "NIL s' = NIL s" "brk s' = Suc (brk s)" "mem s' (NIL s) = mem s (NIL s)"
      by blast
    show ?thesis
      using s' ins_tree_inv(1)[OF r] unfolding Insert
      by (simp add: wf_def kept_def nil_fields_def)
  next
    case (Erase k)
    from del_tree_inv(1)[OF r, of k] obtain T where
      T: "del_tree k t = Some T" "rbt T" by blast
    from rf_erase_refine[OF h T(1)] obtain s' where
      s': "rf_erase s k = Some (snd (descend k [] t) \<noteq> Leaf, s')" "hrep s' [] T"
        "NIL s' = NIL s" "brk s' = brk s" "nil_fields s' = nil_fields s"
        "\<forall>a. mem s a = None \<longrightarrow> mem s' a = None"
      by blast
    have "fresh s'" using f s'(4,6) by (simp add: fresh_def)
    then show ?thesis
      using s' T unfolding Erase by (simp add: wf_def kept_def)
  next
    case (Lookup k)
    have "wf (s\<lparr>trace := trace s @ [LockGlobalShared, UnlockGlobalShared]\<rparr>) t"
      using w by (simp add: wf_def hrep_def fresh_def heap_defs)
    then show ?thesis
      using rf_lookup_refine[OF h, of k] unfolding Lookup
      by (simp add: kept_def nil_fields_def)
  next
    case Validate
    show ?thesis using w wf_validate[OF w] unfolding Validate by simp
  qed
qed

lemma eb_apply_op_refine:
  assumes w: "wf s t"
  shows "\<exists>s'. eb_apply_op s p = Some (abs_out t p, s') \<and> wf s' (fst (abs_step (t, brk s) p))
           \<and> brk s' = snd (abs_step (t, brk s) p) \<and> kept s s'"
proof -
  have h: "hrep s [] t" and f: "fresh s" and r: "rbt t" using w by (simp_all add: wf_def)
  have c: "col t = BLACK" using r by (simp add: rbt_def)
  show ?thesis
  proof (cases p)
    case (Insert k v)
    from eb_insert_refine[OF h f c, of k v] obtain s' where
      s': "eb_insert s k v = Some s'" "hrep s' [] (ins_tree (brk s) k v t)" "fresh s'"
        "NIL s' = NIL s" "brk s' = Suc (brk s)" "mem s' (NIL s) = mem s (NIL s)"
      by blast
    show ?thesis
      using s' ins_tree_inv(1)[OF r] unfolding Insert
      by (simp add: wf_def kept_def nil_fields_def)
  next
    case (Erase k)
    from del_tree_inv(1)[OF r, of k] obtain T where
      T: "del_tree k t = Some T" "rbt T" by blast
    from eb_erase_refine[OF h T(1)] obtain s' where
      s': "eb_erase s k = Some (snd (descend k [] t) \<noteq> Leaf, s')" "hrep s' [] T"
        "NIL s' = NIL s" "brk s' = brk s" "nil_fields s' = nil_fields s"
        "\<forall>a. mem s a = None \<longrightarrow> mem s' a = None"
      by blast
    have "fresh s'" using f s'(4,6) by (simp add: fresh_def)
    then show ?thesis
      using s' T unfolding Erase by (simp add: wf_def kept_def)
  next
    case (Lookup k)
    have "wf (s\<lparr>trace := trace s @ [LockGlobalShared, UnlockGlobalShared]\<rparr>) t"
      using w by (simp add: wf_def hrep_def fresh_def heap_defs)
    then show ?thesis
      using eb_lookup_refine[OF h, of k] unfolding Lookup
      by (simp add: kept_def nil_fields_def)
  next
    case Validate
    have "wf (s\<lparr>trace := trace s @ [LockGlobalShared, UnlockGlobalShared]\<rparr>) t"
      using w by (simp add: wf_def hrep_def fresh_def heap_defs)
    then show ?thesis
      using eb_validate_refine[OF h] sorted_keys_ord_local[of t] r unfolding Validate
      by (simp add: kept_def nil_fields_def rbt_def)
  qed
qed

text \<open>A sequence of calls, for any of the three trees.\<close>

lemma run_with_refine:
  assumes step: "\<And>s t p. wf s t \<Longrightarrow>
      \<exists>s'. f s p = Some (abs_out t p, s') \<and> wf s' (fst (abs_step (t, brk s) p))
           \<and> brk s' = snd (abs_step (t, brk s) p) \<and> kept s s'"
    and w: "wf s t"
  shows "\<exists>s'. run_with f s ps = Some (fst (abs_run (t, brk s) ps), s')
           \<and> wf s' (fst (snd (abs_run (t, brk s) ps)))
           \<and> brk s' = snd (snd (abs_run (t, brk s) ps)) \<and> kept s s'"
  using w
proof (induction ps arbitrary: s t)
  case Nil
  then show ?case by simp
next
  case (Cons p ps)
  from step[OF Cons.prems, of p] obtain s1 where
    s1: "f s p = Some (abs_out t p, s1)" "wf s1 (fst (abs_step (t, brk s) p))"
      "brk s1 = snd (abs_step (t, brk s) p)" "kept s s1" by blast
  from Cons.IH[OF s1(2)] obtain s2 where
    s2: "run_with f s1 ps = Some (fst (abs_run (fst (abs_step (t, brk s) p), brk s1) ps), s2)"
      "wf s2 (fst (snd (abs_run (fst (abs_step (t, brk s) p), brk s1) ps)))"
      "brk s2 = snd (snd (abs_run (fst (abs_step (t, brk s) p), brk s1) ps))" "kept s1 s2"
    by blast
  have e: "(fst (abs_step (t, brk s) p), brk s1) = abs_step (t, brk s) p"
    using s1(3) by (simp add: prod_eq_iff)
  show ?case
    using s1(1) s2 kept_trans[OF s1(4) s2(4)] unfolding e
    by (simp add: split_beta)
qed

lemma wf_RBTree: "wf (RBTree dk dv) Leaf"
  by (simp add: wf_def hrep_def fresh_def rbt_def sorted_keys_def RBTree_def new_node_def
      color_of_def)

section \<open>validate on any tree of links\<close>

lemma child_color_BLACK [simp]: "child_color BLACK t = col t"
  by (cases t) simp_all

lemma no_red_red_BLACK [simp]: "no_red_red BLACK t = invc t"
  by (induction t) simp_all

lemma rep_shape: "rep h nil par t \<Longrightarrow> nil \<notin> set (addrs t) \<Longrightarrow> shape h nil (ptr nil t) t"
  by (induction t arbitrary: par) auto

lemma shape_ptr: "shape h nil p t \<Longrightarrow> p = ptr nil t"
  by (cases t) auto

lemma shape_nil_iff: "shape h nil p t \<Longrightarrow> p = nil \<longleftrightarrow> t = Leaf"
  by (cases t) auto

lemma shape_color:
  "shape h nil p t \<Longrightarrow> map_option color (h nil) = Some nc
     \<Longrightarrow> map_option color (h p) = Some (child_color nc t)"
  by (cases t) (auto split: option.splits)

lemma shape_key:
  "shape h nil p (Node l a c k v r) \<Longrightarrow> map_option key (h p) = Some k"
  by (auto split: option.splits)

lemma validate_rec_shape:
  assumes "shape (mem s) (NIL s) p t" "color_of s (NIL s) = Some nc" "0 \<le> b"
  shows "\<exists>ok tg'. validate_rec s p b tg = Some (ok, tg')
           \<and> (ok \<longleftrightarrow> no_red_red nc t \<and> invh t \<and> ord_local t
                    \<and> (tg \<noteq> - 1 \<longrightarrow> tg = b + int (bheight t)))
           \<and> (ok \<longrightarrow> tg' = b + int (bheight t))"
  using assms
proof (induction t arbitrary: p b tg)
  case Leaf
  then show ?case
    by (subst validate_rec.simps) (auto simp: Let_def)
next
  case (Node l a c k v r)
  define b' where "b' = (if c = BLACK then b + 1 else b)"
  have b': "0 \<le> b'" using Node.prems(3) by (simp add: b'_def)
  from Node.prems(1) obtain n where pa: "p = a" and na: "a \<noteq> NIL s"
    and ma: "mem s a = Some n" and nk: "key n = k" and nc: "color n = c"
    and rl: "shape (mem s) (NIL s) (left n) l" and rr: "shape (mem s) (NIL s) (right n) r"
    by (auto split: option.splits)
  note nb = Node.prems(2)
  from Node.IH(1)[OF rl nb b', of tg] obtain ok1 tg1 where
    v1: "validate_rec s (left n) b' tg = Some (ok1, tg1)"
    and ok1: "ok1 \<longleftrightarrow> no_red_red nc l \<and> invh l \<and> ord_local l
                \<and> (tg \<noteq> - 1 \<longrightarrow> tg = b' + int (bheight l))"
    and tg1: "ok1 \<Longrightarrow> tg1 = b' + int (bheight l)"
    by blast
  from Node.IH(2)[OF rr nb b', of tg1] obtain ok2 tg2 where
    v2: "validate_rec s (right n) b' tg1 = Some (ok2, tg2)"
    and ok2: "ok2 \<longleftrightarrow> no_red_red nc r \<and> invh r \<and> ord_local r
                \<and> (tg1 \<noteq> - 1 \<longrightarrow> tg1 = b' + int (bheight r))"
    and tg2: "ok2 \<Longrightarrow> tg2 = b' + int (bheight r)"
    by blast
  have cl: "color_of s (left n) = Some (child_color nc l)"
    using shape_color[OF rl] nb by (simp add: color_of_def)
  have cr: "color_of s (right n) = Some (child_color nc r)"
    using shape_color[OF rr] nb by (simp add: color_of_def)
  have kl: "l \<noteq> Leaf \<Longrightarrow> key_of s (left n) = Some (case l of Node ll la lc lk lv lr \<Rightarrow> lk)"
    using rl by (cases l) (auto simp: key_of_def split: option.splits)
  have kr: "r \<noteq> Leaf \<Longrightarrow> key_of s (right n) = Some (case r of Node ll la lc lk lv lr \<Rightarrow> lk)"
    using rr by (cases r) (auto simp: key_of_def split: option.splits)
  have bh: "b + int (bheight (Node l a c k v r)) = b' + int (bheight l)"
    by (simp add: b'_def)
  have ne1: "ok1 \<Longrightarrow> tg1 \<noteq> - 1" using tg1 b' by simp
  have res: "validate_rec s a b tg =
      (if c = RED \<and> (child_color nc l = RED \<or> child_color nc r = RED) then Some (False, tg)
       else if l \<noteq> Leaf \<and> k < (case l of Node ll la lc lk lv lr \<Rightarrow> lk) then Some (False, tg)
       else if r \<noteq> Leaf \<and> (case r of Node ll la lc lk lv lr \<Rightarrow> lk) < k then Some (False, tg)
       else if ok1 then Some (ok2, tg2) else Some (False, tg1))"
    apply (subst validate_rec.simps)
    using na ma nk nc cl cr kl kr v1 v2
    by (auto simp: color_of_def left_of_def right_of_def key_of_def shape_nil_iff[OF rl]
        shape_nil_iff[OF rr] Let_def b'_def)
  define loc where "loc \<longleftrightarrow> \<not> (c = RED \<and> (child_color nc l = RED \<or> child_color nc r = RED))
       \<and> \<not> (l \<noteq> Leaf \<and> k < (case l of Node ll la lc lk lv lr \<Rightarrow> lk))
       \<and> \<not> (r \<noteq> Leaf \<and> (case r of Node ll la lc lk lv lr \<Rightarrow> lk) < k)"
  have res': "validate_rec s a b tg =
      (if \<not> loc then Some (False, tg) else if ok1 then Some (ok2, tg2) else Some (False, tg1))"
    unfolding res loc_def
    by (cases "child_color nc l"; cases "child_color nc r"; cases c; simp)
  have inv: "no_red_red nc (Node l a c k v r) \<and> ord_local (Node l a c k v r)
       \<longleftrightarrow> loc \<and> no_red_red nc l \<and> no_red_red nc r \<and> ord_local l \<and> ord_local r"
    unfolding loc_def by (cases l; cases r) auto
  have ih: "invh (Node l a c k v r) \<longleftrightarrow> bheight l = bheight r \<and> invh l \<and> invh r"
    by simp
  show ?case
  proof (cases "loc \<and> ok1")
    case False
    then show ?thesis
      unfolding pa res' bh using inv ok1 by auto
  next
    case True
    then have l: loc and o1: ok1 by auto
    have t1: "tg1 = b' + int (bheight l)" using tg1 o1 by simp
    have o2: "ok2 \<longleftrightarrow> no_red_red nc r \<and> invh r \<and> ord_local r \<and> bheight l = bheight r"
      using ok2 ne1[OF o1] unfolding t1 by auto
    show ?thesis
      unfolding pa res' bh ih using l o1 inv ok1 o2 tg2 by auto
  qed
qed

lemma validate_shape:
  assumes "shape (mem s) (NIL s) (root s) t" and "color_of s (NIL s) = Some nc"
  shows "validate s = Some (no_red_red nc t \<and> invh t \<and> ord_local t)"
  using validate_rec_shape[OF assms, of 0 "- 1"] unfolding validate_def by auto

section \<open>The deadlock-safe lookup on a tree\<close>

lemma lb_advance_live:
  assumes "mem s cur \<noteq> None" "mem s nxt \<noteq> None" "cur \<noteq> nxt"
  shows "lb_advance s cur nxt = Some (s\<lparr>trace := trace s @ ordered_step cur nxt\<rparr>)"
proof (cases "lock_id cur < lock_id nxt")
  case True
  then show ?thesis
    using assms
    by (auto simp: lb_advance_def lock_id_of_def lock_shared_def unlock_shared_def
        log_event_def ordered_step_def)
next
  case False
  then have lt: "nxt < cur" using assms(3) by (simp add: lock_id_def)
  have g: "remdups_adj (sort_key lock_id [cur, nxt]) = [nxt, cur]"
    using lt by (simp add: lock_id_def)
  show ?thesis
    using assms False
    by (auto simp: lb_advance_def lock_id_of_def OrderedLockGuard_def g lock_shared_def
        unlock_shared_def log_event_def ordered_step_def lock_id_def)
qed

lemma hrep_trace [simp]: "hrep (s\<lparr>trace := e\<rparr>) fs t = hrep s fs t"
  by (simp add: hrep_def heap_defs)

lemma search_path_Node_ne: "search_path k (Node l a c k' v r) \<noteq> []"
  by simp

lemma search_path_hd: "t \<noteq> Leaf \<Longrightarrow> \<exists>p. search_path k t = ptr nil t # p"
  by (cases t) auto

lemma lb_lookup_loop_refine:
  assumes "hrep s fs t" "t \<noteq> Leaf"
  shows "lb_lookup_loop s k (ptr (NIL s) t) =
           Some (tree_lookup k t, s\<lparr>trace := trace s @ ordered_descent (search_path k t)\<rparr>)"
  using assms
proof (induction t arbitrary: s fs)
  case Leaf
  then show ?case by simp
next
  case (Node l a c k' v r)
  note h = Node.prems(1)
  note rd = hrep_reads[OF h]
  have na: "a \<noteq> NIL s" using h by (simp add: hrep_def)
  have ma: "mem s a \<noteq> None" using hrep_Node_mem[OF h] by simp
  have hl: "hrep s (LF a c k' v r # fs) l" and hr: "hrep s (RF l a c k' v # fs) r"
    using h by (simp_all add: hrep_up)
  have nl: "ptr (NIL s) l = NIL s \<longleftrightarrow> l = Leaf"
    using h by (cases l) (auto simp: hrep_def)
  have nr: "ptr (NIL s) r = NIL s \<longleftrightarrow> r = Leaf"
    using h by (cases r) (auto simp: hrep_def)
  have al: "l \<noteq> Leaf \<Longrightarrow> a \<noteq> ptr (NIL s) l" using h by (cases l) (auto simp: hrep_def)
  have ar: "r \<noteq> Leaf \<Longrightarrow> a \<noteq> ptr (NIL s) r" using h by (cases r) (auto simp: hrep_def)
  have step: "lb_lookup_loop s k a =
      Some (tree_lookup k c', s\<lparr>trace := trace s @ ordered_descent (a # search_path k c')\<rparr>)"
    if hc: "hrep s fs' c'" and ac: "c' \<noteq> Leaf \<Longrightarrow> a \<noteq> ptr (NIL s) c'"
      and nc: "ptr (NIL s) c' = NIL s \<longleftrightarrow> c' = Leaf"
      and IH: "\<And>s fs. hrep s fs c' \<Longrightarrow> c' \<noteq> Leaf \<Longrightarrow>
          lb_lookup_loop s k (ptr (NIL s) c') =
            Some (tree_lookup k c', s\<lparr>trace := trace s @ ordered_descent (search_path k c')\<rparr>)"
      and body: "lb_lookup_loop s k a =
          (if ptr (NIL s) c' = NIL s then do { s \<leftarrow> unlock_shared s a; Some (None, s) }
           else do { s' \<leftarrow> lb_advance s a (ptr (NIL s) c'); lb_lookup_loop s' k (ptr (NIL s) c') })"
    for c' fs'
  proof (cases c')
    case Leaf
    then show ?thesis
      unfolding body using ma by (auto simp: unlock_shared_def log_event_def)
  next
    case (Node cl ca cc ck cv cr)
    then have ne: "c' \<noteq> Leaf" by simp
    define s2 where "s2 = s\<lparr>trace := trace s @ ordered_step a ca\<rparr>"
    have adv: "lb_advance s a (ptr (NIL s) c') = Some s2"
      unfolding s2_def using lb_advance_live[OF ma hrep_ptr_live[OF hc] ac[OF ne]]
      by (simp add: Node)
    have h2: "hrep s2 fs' c'" using hc by (simp add: s2_def)
    have n2: "NIL s2 = NIL s" by (simp add: s2_def)
    obtain p where p: "search_path k c' = ca # p"
      using search_path_hd[OF ne, of k "NIL s"] by (auto simp: Node)
    show ?thesis
      unfolding body using nc ne adv IH[OF h2 ne, unfolded n2]
      by (simp add: s2_def p)
  qed
  consider (lt) "k < k'" | (gt) "\<not> k < k'" "k' < k" | (eq) "\<not> k < k'" "\<not> k' < k" by fastforce
  then show ?case
  proof cases
    case lt
    have body: "lb_lookup_loop s k a =
          (if ptr (NIL s) l = NIL s then do { s \<leftarrow> unlock_shared s a; Some (None, s) }
           else do { s' \<leftarrow> lb_advance s a (ptr (NIL s) l); lb_lookup_loop s' k (ptr (NIL s) l) })"
      by (subst lb_lookup_loop.simps) (use na rd lt in simp)
    show ?thesis
      using step[OF hl al nl Node.IH(1) body] lt by (simp add: tree_lookup_Node)
  next
    case gt
    have body: "lb_lookup_loop s k a =
          (if ptr (NIL s) r = NIL s then do { s \<leftarrow> unlock_shared s a; Some (None, s) }
           else do { s' \<leftarrow> lb_advance s a (ptr (NIL s) r); lb_lookup_loop s' k (ptr (NIL s) r) })"
      by (subst lb_lookup_loop.simps) (use na rd gt in simp)
    show ?thesis
      using step[OF hr ar nr Node.IH(2) body] gt by (simp add: tree_lookup_Node)
  next
    case eq
    show ?thesis
      apply (subst lb_lookup_loop.simps)
      using na rd eq ma
      by (auto simp: unlock_shared_def log_event_def tree_lookup_Node)
  qed
qed

lemma lb_lookup_refine:
  assumes "hrep s [] t"
  shows "lb_lookup s k =
           Some (tree_lookup k t, s\<lparr>trace := trace s @ lb_events (search_path k t)\<rparr>)"
proof (cases t)
  case Leaf
  then have "root s = NIL s" using hrep_is_root[OF assms] by simp
  then show ?thesis using Leaf by (simp add: lb_lookup_def lb_events_def)
next
  case (Node l a c k' v r)
  then have ne: "t \<noteq> Leaf" by simp
  have rt: "root s = a" using hrep_is_root[OF assms] Node by simp
  have na: "a \<noteq> NIL s" using assms Node by (simp add: hrep_def)
  define s1 where "s1 = log_event s (LockShared a)"
  have h: "hrep s1 [] t" using assms by (simp add: s1_def)
  have l: "lock_shared s (root s) = Some s1"
    using hrep_ptr_live[OF assms] rt Node by (auto simp: lock_shared_def s1_def)
  have r1: "root s1 = a" "ptr (NIL s1) t = a" using rt Node by (simp_all add: s1_def)
  obtain p where p: "search_path k t = a # p" using Node by simp
  show ?thesis
    using lb_lookup_loop_refine[OF h ne, of k] l rt na r1
    by (simp add: lb_lookup_def lb_events_def p s1_def log_event_def)
qed

section \<open>What validate checks\<close>

lemma hrep_example_tree: "hrep example_tree [] example_abs"
  by (simp add: hrep_def example_tree_def example_abs_def color_of_def)

lemma hrep_bad_order_tree: "hrep bad_order_tree [] bad_order_abs"
  by (simp add: hrep_def bad_order_tree_def bad_order_abs_def color_of_def)

lemma hrep_lopsided_tree: "hrep lopsided_tree [] lopsided_abs"
  by (simp add: hrep_def lopsided_tree_def lopsided_abs_def color_of_def)

lemma hrep_rotated_tree: "hrep rotated_tree [] rotated_abs"
  by (simp add: hrep_def rotated_tree_def rotated_abs_def color_of_def)

lemma rotated_tree_reached:
  "map_option (\<lambda>(rs, s). (root s, NIL s, brk s, mem s 2, mem s 3, mem s 4))
     (run_ops (RBTree (0::int) (0::int)) [Insert 1 10, Insert 2 20, Insert 3 30])
   = Some (root rotated_tree, NIL rotated_tree, brk rotated_tree, mem rotated_tree 2,
           mem rotated_tree 3, mem rotated_tree 4)"
  by code_simp

lemma hrep_shape: "hrep s [] t \<Longrightarrow> shape (mem s) (NIL s) (root s) t"
  using rep_shape[of "mem s" "NIL s" "NIL s" t] by (simp add: hrep_def)

text \<open>
  C5 (amended).  Take any state in which the sentinel exists and the nodes reached from
  \<open>root\<close> along \<open>left\<close> and \<open>right\<close> links form a finite tree \<open>t\<close>; the parent pointers, the
  colour of the root and the colour \<open>nc\<close> of the sentinel are arbitrary.  There \<open>validate\<close>
  returns, and it returns a truth value only.  When it returns true, no RED node has a RED
  child (the sentinel, with its colour, standing for a missing child), the left spine's count
  of BLACK nodes is that of every other path, and no key is below the key of the left child or
  above the key of the right child.  When no RED node has a RED child, the counts of BLACK
  nodes agree and the keys increase strictly in order, it returns true.
\<close>

theorem validate_characterisation:
  assumes "shape (mem s) (NIL s) (root s) t" and "color_of s (NIL s) = Some nc"
  shows "\<exists>b. validate s = Some b
           \<and> (b \<longrightarrow> no_red_red nc t \<and> invh t \<and> ord_local t)
           \<and> (no_red_red nc t \<and> invh t \<and> sorted_keys t \<longrightarrow> b)"
  using validate_shape[OF assms] sorted_keys_ord_local[of t] by auto

theorem validate_characterisation_witness:
  "shape (mem example_tree) (NIL example_tree) (root example_tree) example_abs
   \<and> color_of example_tree (NIL example_tree) = Some BLACK
   \<and> validate example_tree = Some True
   \<and> shape (mem lopsided_tree) (NIL lopsided_tree) (root lopsided_tree) lopsided_abs
   \<and> color_of lopsided_tree (NIL lopsided_tree) = Some BLACK
   \<and> validate lopsided_tree = Some False
   \<and> shape (mem red_nil_tree) (NIL red_nil_tree) (root red_nil_tree)
         (Node Leaf 2 BLACK 1 10 Leaf)
   \<and> color_of red_nil_tree (NIL red_nil_tree) = Some RED
   \<and> validate red_nil_tree = Some True"
proof -
  have 1: "shape (mem example_tree) (NIL example_tree) (root example_tree) example_abs"
    by (rule hrep_shape[OF hrep_example_tree])
  have 2: "color_of example_tree (NIL example_tree) = Some BLACK"
    by (simp add: example_tree_def color_of_def)
  have 3: "no_red_red BLACK example_abs \<and> invh example_abs \<and> sorted_keys example_abs"
    by (simp add: example_abs_def sorted_keys_def)
  have 4: "shape (mem lopsided_tree) (NIL lopsided_tree) (root lopsided_tree) lopsided_abs"
    by (rule hrep_shape[OF hrep_lopsided_tree])
  have 5: "color_of lopsided_tree (NIL lopsided_tree) = Some BLACK"
    by (simp add: lopsided_tree_def color_of_def)
  have 6: "\<not> invh lopsided_abs" by (simp add: lopsided_abs_def)
  have 7: "shape (mem red_nil_tree) (NIL red_nil_tree) (root red_nil_tree)
            (Node Leaf 2 BLACK 1 10 Leaf)"
    by (simp add: red_nil_tree_def)
  have 8: "color_of red_nil_tree (NIL red_nil_tree) = Some RED"
    by (simp add: red_nil_tree_def color_of_def)
  have 9: "sorted_keys (Node Leaf 2 BLACK (1::int) (10::int) Leaf)"
    by (simp add: sorted_keys_def)
  show ?thesis
    using validate_characterisation[OF 1 2] validate_characterisation[OF 4 5]
      validate_characterisation[OF 7 8] 1 2 3 4 5 6 7 8 9
    by auto
qed

text \<open>
  C5 as stated fails: \<open>validate\<close> returns true on a tree whose root is RED, on a tree whose
  sentinel is RED, and on a tree whose in-order key sequence is 3, 7, 5, 8.
\<close>

theorem validate_accepts_invalid_trees:
  "validate red_root_tree = Some True
   \<and> color_of red_root_tree (root red_root_tree) = Some RED
   \<and> validate red_nil_tree = Some True
   \<and> color_of red_nil_tree (NIL red_nil_tree) = Some RED
   \<and> validate bad_order_tree = Some True
   \<and> hrep bad_order_tree [] bad_order_abs
   \<and> map fst (entries bad_order_abs) = [3, 7, 5, 8]"
proof -
  have 1: "validate red_root_tree = Some True" by code_simp
  have 2: "color_of red_root_tree (root red_root_tree) = Some RED" by code_simp
  have 3: "validate red_nil_tree = Some True" by code_simp
  have 4: "color_of red_nil_tree (NIL red_nil_tree) = Some RED" by code_simp
  have 5: "validate bad_order_tree = Some True" by code_simp
  have 6: "map fst (entries bad_order_abs) = [3, 7, 5, 8]"
    by (simp add: bad_order_abs_def)
  show ?thesis using 1 2 3 4 5 6 hrep_bad_order_tree by simp
qed

section \<open>Ordered locking\<close>

text \<open>
  C8.  \<open>OrderedLockGuard\<close>, given any list of live nodes, takes one shared lock on each
  distinct node, in strictly increasing order of \<open>lock_id\<close>.  The deadlock-safe \<open>lookup\<close>, in
  any state that holds a tree, returns what the search finds, and the lock operations it has
  then performed are those of \<open>lb_events\<close> along the search path: the root is locked; for
  every edge of the path the \<open>lock_id\<close>s of parent and child are compared, and the move is
  that of \<open>ordered_step\<close>; the last node is released.  In a move from a parent \<open>cur\<close> to a child
  \<open>nxt\<close> whose \<open>lock_id\<close> is not above the parent's, the first operations are the locks the
  guard takes for \<open>[cur, nxt]\<close>, before the parent's own lock is released; they are released
  after the child is locked for the cursor.
\<close>

theorem ordered_lock_acquisition:
  "((\<forall>n\<in>set nodes. mem s n \<noteq> None) \<longrightarrow>
      (\<exists>s1 locks. OrderedLockGuard s nodes = Some (s1, locks) \<and>
          trace s1 = trace s @ map LockShared locks \<and>
          sorted_wrt (<) (map lock_id locks) \<and> distinct locks \<and> set locks = set nodes)) \<and>
   (hrep s [] t \<longrightarrow>
      lb_lookup s k =
        Some (tree_lookup k t, s\<lparr>trace := trace s @ lb_events (search_path k t)\<rparr>)) \<and>
   (mem s cur \<noteq> None \<and> mem s nxt \<noteq> None \<and> cur \<noteq> nxt \<and> \<not> lock_id cur < lock_id nxt \<longrightarrow>
      (\<exists>s1 locks. OrderedLockGuard s [cur, nxt] = Some (s1, locks) \<and>
          ordered_step cur nxt =
            map LockShared locks @ [UnlockShared cur, LockShared nxt] @ map UnlockShared locks))"
proof (intro conjI impI)
  assume "\<forall>n\<in>set nodes. mem s n \<noteq> None"
  from OrderedLockGuard_live[OF this] guard_order[of nodes]
  show "\<exists>s1 locks. OrderedLockGuard s nodes = Some (s1, locks) \<and>
          trace s1 = trace s @ map LockShared locks \<and>
          sorted_wrt (<) (map lock_id locks) \<and> distinct locks \<and> set locks = set nodes"
    by simp
next
  assume "hrep s [] t"
  then show "lb_lookup s k =
        Some (tree_lookup k t, s\<lparr>trace := trace s @ lb_events (search_path k t)\<rparr>)"
    by (rule lb_lookup_refine)
next
  assume a: "mem s cur \<noteq> None \<and> mem s nxt \<noteq> None \<and> cur \<noteq> nxt \<and> \<not> lock_id cur < lock_id nxt"
  then have lt: "nxt < cur" by (simp add: lock_id_def)
  have g: "remdups_adj (sort_key lock_id [cur, nxt]) = [nxt, cur]"
    using lt by (simp add: lock_id_def)
  have "\<forall>n\<in>set [cur, nxt]. mem s n \<noteq> None" using a by simp
  from OrderedLockGuard_live[OF this] a
  show "\<exists>s1 locks. OrderedLockGuard s [cur, nxt] = Some (s1, locks) \<and>
          ordered_step cur nxt =
            map LockShared locks @ [UnlockShared cur, LockShared nxt] @ map UnlockShared locks"
    unfolding g by (simp add: ordered_step_def)
qed

theorem ordered_lock_acquisition_witness:
  "(\<exists>s1. OrderedLockGuard rotated_tree [4, 2, 4, 3] = Some (s1, [2, 3, 4]) \<and>
      trace s1 = [LockShared 2, LockShared 3, LockShared 4]) \<and>
   hrep rotated_tree [] rotated_abs \<and>
   lb_lookup rotated_tree 1 =
     Some (Some 10, rotated_tree\<lparr>trace :=
       [LockShared 3,
        LockShared 2, LockShared 3, UnlockShared 3, LockShared 2, UnlockShared 2, UnlockShared 3,
        UnlockShared 2]\<rparr>) \<and>
   lb_lookup rotated_tree 3 =
     Some (Some 30, rotated_tree\<lparr>trace :=
       [LockShared 3, LockShared 4, UnlockShared 3, UnlockShared 4]\<rparr>) \<and>
   lb_lookup rotated_tree 0 =
     Some (None, rotated_tree\<lparr>trace :=
       [LockShared 3,
        LockShared 2, LockShared 3, UnlockShared 3, LockShared 2, UnlockShared 2, UnlockShared 3,
        UnlockShared 2]\<rparr>) \<and>
   (\<exists>s1. OrderedLockGuard rotated_tree [3, 2] = Some (s1, [2, 3])) \<and>
   ordered_step 3 2 =
     [LockShared 2, LockShared 3, UnlockShared 3, LockShared 2, UnlockShared 2, UnlockShared 3]"
proof -
  have live: "\<forall>n\<in>set [4, 2, 4, 3]. mem rotated_tree n \<noteq> None"
    "mem rotated_tree 3 \<noteq> None \<and> mem rotated_tree 2 \<noteq> None \<and> (3::nat) \<noteq> 2
       \<and> \<not> lock_id 3 < lock_id 2"
    by (simp_all add: rotated_tree_def lock_id_def)
  have t: "trace rotated_tree = []" by (simp add: rotated_tree_def)
  have p: "search_path 1 rotated_abs = [3, 2]" "search_path 3 rotated_abs = [3, 4]"
    "search_path 0 rotated_abs = [3, 2]"
    "tree_lookup 1 rotated_abs = Some 10" "tree_lookup 3 rotated_abs = Some 30"
    "tree_lookup 0 rotated_abs = None"
    by (simp_all add: rotated_abs_def tree_lookup_Node)
  have e: "lb_events [3, 2] =
       [LockShared 3,
        LockShared 2, LockShared 3, UnlockShared 3, LockShared 2, UnlockShared 2, UnlockShared 3,
        UnlockShared 2]"
    "lb_events [3, 4] = [LockShared 3, LockShared 4, UnlockShared 3, UnlockShared 4]"
    by (simp_all add: lb_events_def ordered_step_def lock_id_def)
  have g: "remdups_adj (sort_key lock_id [4, 2, 4, 3]) = [2, 3, 4]"
    "remdups_adj (sort_key lock_id [3, 2]) = [2, 3]"
    by (simp_all add: lock_id_def)
  have G1: "OrderedLockGuard rotated_tree [4, 2, 4, 3] =
       Some (rotated_tree\<lparr>trace := trace rotated_tree @ map LockShared [2, 3, 4]\<rparr>, [2, 3, 4])"
    using OrderedLockGuard_live[OF live(1)] unfolding g .
  have G2: "\<exists>s1. OrderedLockGuard rotated_tree [3, 2] = Some (s1, [2, 3])"
    using OrderedLockGuard_live[of "[3, 2]" rotated_tree] live(2) unfolding g by simp
  note T1 = ordered_lock_acquisition[of "[4, 2, 4, 3]" rotated_tree rotated_abs 1 3 2]
  note T3 = ordered_lock_acquisition[of "[4, 2, 4, 3]" rotated_tree rotated_abs 3 3 2]
  note T0 = ordered_lock_acquisition[of "[4, 2, 4, 3]" rotated_tree rotated_abs 0 3 2]
  from T1 live(1) obtain s1 locks where
    a: "OrderedLockGuard rotated_tree [4, 2, 4, 3] = Some (s1, locks)"
       "trace s1 = trace rotated_tree @ map LockShared locks"
    by blast
  have a': "\<exists>s1. OrderedLockGuard rotated_tree [4, 2, 4, 3] = Some (s1, [2, 3, 4]) \<and>
      trace s1 = [LockShared 2, LockShared 3, LockShared 4]"
    using a G1 t by auto
  have l1: "lb_lookup rotated_tree 1 =
     Some (Some 10, rotated_tree\<lparr>trace := trace rotated_tree @ lb_events [3, 2]\<rparr>)"
    using T1 hrep_rotated_tree p by simp
  have l3: "lb_lookup rotated_tree 3 =
     Some (Some 30, rotated_tree\<lparr>trace := trace rotated_tree @ lb_events [3, 4]\<rparr>)"
    using T3 hrep_rotated_tree p by simp
  have l0: "lb_lookup rotated_tree 0 =
     Some (None, rotated_tree\<lparr>trace := trace rotated_tree @ lb_events [3, 2]\<rparr>)"
    using T0 hrep_rotated_tree p by simp
  from T1 live(2) obtain s2 locks2 where
    b: "OrderedLockGuard rotated_tree [3, 2] = Some (s2, locks2)"
       "ordered_step 3 2 =
          map LockShared locks2 @ [UnlockShared 3, LockShared 2] @ map UnlockShared locks2"
    by blast
  have b': "ordered_step 3 2 =
     [LockShared 2, LockShared 3, UnlockShared 3, LockShared 2, UnlockShared 2, UnlockShared 3]"
    using b G2 by auto
  show ?thesis
    using a' l1 l3 l0 G2 b' hrep_rotated_tree unfolding t e by simp
qed

section \<open>The claims about sequences of calls\<close>

lemma abs_run_foldl: "snd (abs_run tb ps) = foldl abs_step tb ps"
  by (induction ps arbitrary: tb) (simp_all add: split_beta)

lemma abs_trees:
  "rbt (fst (foldl abs_step (Leaf, b) ps))
   \<and> map_of (entries (fst (foldl abs_step (Leaf, b) ps))) = recent (rev ps)"
proof (induction ps rule: rev_induct)
  case Nil
  show ?case by (auto simp: rbt_def sorted_keys_def)
next
  case (snoc p ps)
  obtain t b' where tb: "foldl abs_step (Leaf, b) ps = (t, b')"
    by (cases "foldl abs_step (Leaf, b) ps") auto
  have r: "rbt t" and m: "map_of (entries t) = recent (rev ps)" using snoc tb by auto
  show ?case
  proof (cases p)
    case (Insert k v)
    show ?thesis
      using ins_tree_inv[OF r, of b' k v] m unfolding Insert
      by (auto simp: tb fun_eq_iff)
  next
    case (Erase k)
    from del_tree_inv(1)[OF r, of k] obtain T where
      T: "del_tree k t = Some T" "rbt T" "map_of (entries T) = (map_of (entries t))(k := None)"
      by blast
    show ?thesis
      using T m unfolding Erase by (auto simp: tb fun_eq_iff)
  next
    case (Lookup k)
    show ?thesis using r m unfolding Lookup by (auto simp: tb fun_eq_iff)
  next
    case Validate
    show ?thesis using r m unfolding Validate by (auto simp: tb fun_eq_iff)
  qed
qed

lemma recent_never_inserted: "\<forall>v. Insert k v \<notin> set ps \<Longrightarrow> recent ps k = None"
  by (induction ps k rule: recent.induct) auto

lemma recent_last_insert:
  "\<forall>p\<in>set ps. p \<noteq> Erase k \<and> (\<forall>v'. p \<noteq> Insert k v') \<Longrightarrow>
     recent (ps @ Insert k v # qs) k = Some v"
  by (induction ps k rule: recent.induct) auto


lemma rf_RBTree_eq: "rf_RBTree dk dv = RBTree dk dv"
  by (simp add: rf_RBTree_def RBTree_def)

lemma SimpleConcurrentRBTree_eq: "SimpleConcurrentRBTree dk dv = RBTree dk dv"
  by (simp add: SimpleConcurrentRBTree_def RBTree_def)


text \<open>
  C1.  Starting from the tree the constructor builds, after every call of a sequence of
  \<open>insert\<close>, \<open>erase\<close> (and \<open>lookup\<close>, \<open>validate\<close>) calls made one after the other, every call
  has returned and \<open>validate\<close> returns true: \<open>take n ops\<close> is the sequence cut after its first
  \<open>n\<close> calls.  The state then holds a tree with a BLACK root under a BLACK sentinel, no RED
  node with a RED child, the same number of BLACK nodes on every path, and increasing keys in
  order.
\<close>

theorem validate_after_every_operation:
  "\<exists>rs s' t. run_ops (RBTree dk dv) (take n ops) = Some (rs, s') \<and> validate s' = Some True
     \<and> hrep s' [] t \<and> rbt t \<and> color_of s' (root s') = Some BLACK
     \<and> color_of s' (NIL s') = Some BLACK"
proof -
  from run_with_refine[of apply_op, OF apply_op_refine wf_RBTree, of dk dv "take n ops"]
  obtain s' t where
    r: "run_ops (RBTree dk dv) (take n ops)
       = Some (fst (abs_run (Leaf, brk (RBTree dk dv)) (take n ops)), s')"
    and w: "wf s' t"
    unfolding run_ops_def by blast
  have h: "hrep s' [] t" and b: "rbt t" using w by (simp_all add: wf_def)
  have c: "color_of s' (root s') = Some BLACK"
    using hrep_col_ptr[OF h] hrep_is_root[OF h] b by (simp add: rbt_def)
  have n: "color_of s' (NIL s') = Some BLACK" using h by (simp add: hrep_def)
  show ?thesis using r wf_validate[OF w] h b c n by blast
qed

text \<open>
  C2.  After any sequence of calls on a new tree, \<open>lookup k\<close> returns the value of the most
  recent \<open>insert\<close> of \<open>k\<close> that no later \<open>erase\<close> of \<open>k\<close> followed, and the absent optional when
  there is none (in particular for a key never inserted).
\<close>

theorem lookup_returns_most_recent_insert:
  "\<exists>rs s s'. run_ops (RBTree dk dv) ops = Some (rs, s)
     \<and> lookup s k = Some (recent (rev ops) k, s')"
proof -
  define b where "b = brk (RBTree dk dv)"
  define t where "t = fst (snd (abs_run (Leaf, b) ops))"
  from run_with_refine[of apply_op, OF apply_op_refine wf_RBTree, of dk dv ops]
  obtain s where
    s: "run_ops (RBTree dk dv) ops = Some (fst (abs_run (Leaf, b) ops), s)" "wf s t"
    unfolding run_ops_def b_def t_def by blast
  have h: "hrep s [] t" and r: "rbt t" using s(2) by (simp_all add: wf_def)
  have m: "map_of (entries t) = recent (rev ops)"
    using abs_trees[of b ops] unfolding t_def abs_run_foldl by simp
  from lookup_refine[OF h, of k] obtain s' where
    "lookup s k = Some (tree_lookup k t, s')" by blast
  moreover have "tree_lookup k t = recent (rev ops) k"
    using tree_lookup_map_of[of t k] r m by (simp add: rbt_def)
  ultimately show ?thesis using s(1) by auto
qed




text \<open>
  C9.  After every call of a sequence of calls made on new trees, the lock-coupled tree, the
  tree of race_free_rb_tree.cpp and the tree of epoch_based_rb_tree.cpp have returned the same
  results, call by call, and hold the same tree: the same nodes with the same keys, values
  and colours in the same shape.
\<close>

theorem three_variants_agree:
  "\<exists>rs s1 s2 s3 t.
     run_ops (RBTree dk dv) (take n ops) = Some (rs, s1)
     \<and> rf_run_ops (rf_RBTree dk dv) (take n ops) = Some (rs, s2)
     \<and> eb_run_ops (SimpleConcurrentRBTree dk dv) (take n ops) = Some (rs, s3)
     \<and> hrep s1 [] t \<and> hrep s2 [] t \<and> hrep s3 [] t"
proof -
  define b where "b = brk (RBTree dk dv)"
  define ps where "ps = take n ops"
  define t where "t = fst (snd (abs_run (Leaf, b) ps))"
  from run_with_refine[of apply_op, OF apply_op_refine wf_RBTree, of dk dv ps]
  obtain s1 where
    s1: "run_ops (RBTree dk dv) ps = Some (fst (abs_run (Leaf, b) ps), s1)" "wf s1 t"
    unfolding run_ops_def b_def t_def by blast
  from run_with_refine[of rf_apply_op, OF rf_apply_op_refine wf_RBTree, of dk dv ps]
  obtain s2 where
    s2: "rf_run_ops (RBTree dk dv) ps = Some (fst (abs_run (Leaf, b) ps), s2)" "wf s2 t"
    unfolding rf_run_ops_def b_def t_def by blast
  from run_with_refine[of eb_apply_op, OF eb_apply_op_refine wf_RBTree, of dk dv ps]
  obtain s3 where
    s3: "eb_run_ops (RBTree dk dv) ps = Some (fst (abs_run (Leaf, b) ps), s3)" "wf s3 t"
    unfolding eb_run_ops_def b_def t_def by blast
  show ?thesis
    unfolding rf_RBTree_eq SimpleConcurrentRBTree_eq ps_def[symmetric]
    using s1 s2 s3 by (auto simp: wf_def)
qed

text \<open>
  C10.  After any sequence of calls on a new tree the sentinel is the node the constructor
  allocated, with the key and value it was given, colour BLACK and null children.  Its parent
  pointer is not kept: it is null in a new tree, and after \<open>insert(1, 10); erase(1)\<close> it points
  to the sentinel itself.
\<close>

theorem sentinel_fields_constant:
  "(\<exists>rs s'. run_ops (RBTree dk dv) ops = Some (rs, s')
      \<and> NIL s' = NIL (RBTree dk dv)
      \<and> key_of s' (NIL s') = Some dk \<and> val_of s' (NIL s') = Some dv
      \<and> color_of s' (NIL s') = Some BLACK
      \<and> left_of s' (NIL s') = Some 0 \<and> right_of s' (NIL s') = Some 0)
   \<and> parent_of (RBTree (0::int) (0::int)) (NIL (RBTree (0::int) (0::int))) = Some 0
   \<and> map_option (\<lambda>(rs, s'). parent_of s' (NIL s'))
        (run_ops (RBTree (0::int) (0::int)) [Insert 1 10, Erase 1]) = Some (Some 1)"
proof -
  from run_with_refine[of apply_op, OF apply_op_refine wf_RBTree, of dk dv ops]
  obtain s' where
    s': "run_ops (RBTree dk dv) ops = Some (fst (abs_run (Leaf, brk (RBTree dk dv)) ops), s')"
      "kept (RBTree dk dv) s'"
    unfolding run_ops_def by blast
  have n: "nil_fields (RBTree dk dv) = Some (dk, dv, BLACK, 0, 0)"
    by (simp add: nil_fields_def RBTree_def new_node_def)
  have 1: "\<exists>rs s'. run_ops (RBTree dk dv) ops = Some (rs, s')
      \<and> NIL s' = NIL (RBTree dk dv)
      \<and> key_of s' (NIL s') = Some dk \<and> val_of s' (NIL s') = Some dv
      \<and> color_of s' (NIL s') = Some BLACK
      \<and> left_of s' (NIL s') = Some 0 \<and> right_of s' (NIL s') = Some 0"
    using s' n by (auto simp: kept_def nil_fields_def heap_defs)
  have 2: "parent_of (RBTree (0::int) (0::int)) (NIL (RBTree (0::int) (0::int))) = Some 0"
    by (simp add: RBTree_def new_node_def parent_of_def)
  have 3: "map_option (\<lambda>(rs, s'). parent_of s' (NIL s'))
        (run_ops (RBTree (0::int) (0::int)) [Insert 1 10, Erase 1]) = Some (Some 1)"
    by code_simp
  show ?thesis using 1 2 3 by blast
qed

end
